(* ===== verification/Prelude.thy ===== *)
theory Prelude
  imports Main "HOL-Library.Word"
begin

text \<open>
  Shared vocabulary of the development: machine integers, the result type of code that
  can go wrong, typed heaps, and the byte-addressed memory with 64-bit accesses that the
  page tables and the free lists of the kernel allocator use.

  A C function that can misbehave returns a value of type \<open>'a res\<close>: \<open>Inr\<close> is a normal
  return, \<open>Inl\<close> names what went wrong (a null or stray pointer, an array index out of
  range, a division by zero, a signed overflow, a loop that is still running when its
  fuel is used up). Error \<^emph>\<open>codes\<close> that the C code returns (\<open>-1\<close>, \<open>NULL\<close>) are ordinary
  values and never faults.
\<close>

unbundle bit_operations_syntax

section \<open>Machine integers\<close>

type_synonym u8 = "8 word"
type_synonym u16 = "16 word"
type_synonym u32 = "32 word"
type_synonym u64 = "64 word"

text \<open>Addresses are 64-bit words and \<open>NULL\<close> is the address 0.\<close>

abbreviation (input) NULL :: u64 where "NULL \<equiv> 0"

text \<open>Facts about address arithmetic and facts about memory, for \<open>simp add:\<close>.\<close>

named_theorems addr_simps \<open>address arithmetic of the kernel's memory layout\<close>
named_theorems mem_simps \<open>reads after writes\<close>

lemma unat_u64_less: "unat (w :: u64) < 2 ^ 64"
  by (rule order_less_le_trans [OF unsigned_less]) simp

section \<open>Faults\<close>

datatype fault =
    Null_deref
  | Bad_pointer u64
  | Out_of_bounds
  | Div_by_zero
  | Signed_overflow
  | Out_of_fuel

type_synonym 'a res = "fault + 'a"

definition bindR :: "'a res \<Rightarrow> ('a \<Rightarrow> 'b res) \<Rightarrow> 'b res" where
  "bindR m f = (case m of Inl e \<Rightarrow> Inl e | Inr x \<Rightarrow> f x)"

lemma bindR_simps [simp]:
  "bindR (Inl e) f = Inl e"
  "bindR (Inr x) f = f x"
  by (simp_all add: bindR_def)

lemma bindR_eq_Inr: "bindR m f = Inr y \<longleftrightarrow> (\<exists>x. m = Inr x \<and> f x = Inr y)"
  by (cases m) auto

lemma bindR_assoc: "bindR (bindR m f) g = bindR m (\<lambda>x. bindR (f x) g)"
  by (cases m) auto

lemma bindR_cong [fundef_cong]:
  assumes "m = m'" "\<And>x. m' = Inr x \<Longrightarrow> f x = f' x"
  shows "bindR m f = bindR m' f'"
  using assms by (cases m') auto

lemma bindR_split: "P (bindR m f) \<longleftrightarrow> (\<forall>e. m = Inl e \<longrightarrow> P (Inl e)) \<and> (\<forall>x. m = Inr x \<longrightarrow> P (f x))"
  by (cases m) auto

section \<open>Typed heaps\<close>

text \<open>
  A heap of objects of one C type is a partial map from addresses; reading or writing a
  field through a pointer outside its domain is a fault.
\<close>

definition bad_ptr :: "u64 \<Rightarrow> fault" where
  "bad_ptr p = (if p = NULL then Null_deref else Bad_pointer p)"

definition deref :: "(u64 \<rightharpoonup> 'a) \<Rightarrow> u64 \<Rightarrow> 'a res" where
  "deref h p = (case h p of None \<Rightarrow> Inl (bad_ptr p) | Some v \<Rightarrow> Inr v)"

definition assign :: "u64 \<Rightarrow> 'a \<Rightarrow> (u64 \<rightharpoonup> 'a) \<Rightarrow> (u64 \<rightharpoonup> 'a) res" where
  "assign p v h = (case h p of None \<Rightarrow> Inl (bad_ptr p) | Some _ \<Rightarrow> Inr (h(p \<mapsto> v)))"

lemma deref_Some [simp]: "h p = Some v \<Longrightarrow> deref h p = Inr v"
  by (simp add: deref_def)

lemma deref_None [simp]: "h p = None \<Longrightarrow> deref h p = Inl (bad_ptr p)"
  by (simp add: deref_def)

lemma deref_eq_Inr: "deref h p = Inr v \<longleftrightarrow> h p = Some v"
  by (simp add: deref_def split: option.splits)

lemma assign_Some [simp]: "h p \<noteq> None \<Longrightarrow> assign p v h = Inr (h(p \<mapsto> v))"
  by (auto simp: assign_def)

lemma assign_None [simp]: "h p = None \<Longrightarrow> assign p v h = Inl (bad_ptr p)"
  by (simp add: assign_def)

lemma assign_eq_Inr: "assign p v h = Inr h' \<longleftrightarrow> p \<in> dom h \<and> h' = h(p \<mapsto> v)"
  by (auto simp: assign_def split: option.splits)

section \<open>Byte-addressed memory\<close>

type_synonym memory = "u64 \<Rightarrow> u8"

text \<open>A little-endian 64-bit store and load, as the compiled C code does them.\<close>

definition store64 :: "memory \<Rightarrow> u64 \<Rightarrow> u64 \<Rightarrow> memory" where
  "store64 m a v = (\<lambda>x. if x - a < 8 then ucast (drop_bit (8 * unat (x - a)) v) else m x)"

definition load64 :: "memory \<Rightarrow> u64 \<Rightarrow> u64" where
  "load64 m a =
     ucast (m a) OR push_bit 8 (ucast (m (a + 1))) OR push_bit 16 (ucast (m (a + 2)))
     OR push_bit 24 (ucast (m (a + 3))) OR push_bit 32 (ucast (m (a + 4)))
     OR push_bit 40 (ucast (m (a + 5))) OR push_bit 48 (ucast (m (a + 6)))
     OR push_bit 56 (ucast (m (a + 7)))"

lemma bit_load64:
  assumes "n < 64"
  shows "bit (load64 m a) n \<longleftrightarrow> bit (m (a + of_nat (n div 8))) (n mod 8)"
proof -
  define q r where "q = n div 8" and "r = n mod 8"
  have n: "n = 8 * q + r" and r: "r < 8" and q: "q < 8"
    using assms by (simp_all add: q_def r_def less_mult_imp_div_less)
  have "q = 0 \<or> q = 1 \<or> q = 2 \<or> q = 3 \<or> q = 4 \<or> q = 5 \<or> q = 6 \<or> q = 7"
    using q by arith
  then have "bit (load64 m a) (8 * q + r) \<longleftrightarrow> bit (m (a + of_nat q)) r"
    using r by (elim disjE) (auto simp: load64_def bit_simps dest: bit_imp_le_length)
  then show ?thesis by (simp add: q_def r_def)
qed

lemma load64_store64 [simp, mem_simps]: "load64 (store64 m a v) a = v"
proof (rule bit_word_eqI)
  fix n assume "n < LENGTH(64)"
  then have n: "n < 64" by simp
  have q: "n div 8 < 8" using n by (simp add: less_mult_imp_div_less)
  have "unat (of_nat (n div 8) :: u64) = n div 8"
    using q by (simp add: unat_of_nat)
  then show "bit (load64 (store64 m a v) a) n \<longleftrightarrow> bit v n"
    using q n by (simp add: bit_load64 store64_def bit_simps word_less_nat_alt)
qed

lemma load64_zero:
  assumes "\<And>i. i < 8 \<Longrightarrow> m (a + i) = 0"
  shows "load64 m a = 0"
  using assms [of 0] by (simp add: load64_def assms)

lemma load64_cong:
  assumes "\<And>i. i < 8 \<Longrightarrow> m (a + i) = m' (a + i)"
  shows "load64 m a = load64 m' a"
  using assms [of 0] by (simp add: load64_def assms)

text \<open>Two 8-byte ranges that start at least 8 bytes apart, in both directions, are disjoint.\<close>

definition apart8 :: "u64 \<Rightarrow> u64 \<Rightarrow> bool" where
  "apart8 a b \<longleftrightarrow> 8 \<le> a - b \<and> 8 \<le> b - a"

lemma apart8_sym: "apart8 a b \<Longrightarrow> apart8 b a"
  by (simp add: apart8_def)

lemma apart8_offset:
  fixes a b i :: u64
  assumes "apart8 a b" "i < 8"
  shows "\<not> a + i - b < 8"
  using assms unfolding apart8_def by unat_arith

lemma load64_store64_apart [mem_simps]:
  assumes "apart8 a b"
  shows "load64 (store64 m b v) a = load64 m a"
  using apart8_offset [OF assms] by (intro load64_cong) (simp add: store64_def)

lemma aligned8_apart:
  fixes a b :: u64
  assumes "unat a mod 8 = 0" "unat b mod 8 = 0" "a \<noteq> b"
  shows "apart8 a b"
proof -
  have *: "8 \<le> x - y" if "unat x mod 8 = 0" "unat y mod 8 = 0" "x \<noteq> y" for x y :: u64
  proof -
    have "unat (x - y) mod 8 = 0"
      using that(1,2) unat_u64_less [of y] by (simp add: unat_sub_if') presburger
    moreover have "unat (x - y) \<noteq> 0"
      using that(3) by (simp add: unat_eq_0)
    ultimately have "8 \<le> unat (x - y)" by presburger
    then show ?thesis by (simp add: word_le_nat_alt)
  qed
  show ?thesis using *[of a b] *[of b a] assms by (simp add: apart8_def)
qed

section \<open>Ranges of addresses\<close>

text \<open>The first byte of a range, and the rest of it.\<close>

lemma in_range_step: "unat (x - (p + 1)) < n \<or> x = p \<longleftrightarrow> unat (x - p) < Suc n" for x p :: u64
proof (cases "x = p")
  case True
  then show ?thesis by simp
next
  case False
  then have "x - p \<noteq> 0" by simp
  then have "unat (x - p - 1) = unat (x - p) - 1" and "unat (x - p) \<noteq> 0"
    by (simp_all add: unat_minus_one unat_eq_0)
  then show ?thesis using False unfolding diff_diff_eq [symmetric] by auto
qed

lemma sint_ucast_small: "uint w < 2 ^ 31 \<Longrightarrow> sint (ucast (w :: u64) :: u32) = uint w"
proof -
  assume w: "uint w < 2 ^ 31"
  have "uint (ucast w :: u32) = uint w" using w by (simp add: unsigned_ucast_eq take_bit_int_eq_self_iff)
  moreover have "- (2 ^ 31) \<le> uint w" by (rule order_trans [of _ 0]) simp_all
  ultimately show ?thesis using w unfolding sint_uint by (subst signed_take_bit_int_eq_self) simp_all
qed

lemma unat_ucast_u32: "unat (ucast (w :: u32) :: u64) = unat w"
  using unsigned_less [of w, where 'a = nat] by (simp add: unsigned_ucast_eq take_bit_nat_eq_self_iff)

lemma ucast_of_nat: "(ucast (of_nat n :: u64) :: u32) = of_nat n"
  by (simp add: unsigned_of_nat word_of_nat_eq_iff)

section \<open>Lists\<close>

lemma distinct_words_length:
  fixes xs :: "u64 list"
  assumes "distinct xs"
  shows "length xs \<le> 2 ^ 64"
proof -
  have "card (set xs) \<le> card (UNIV :: u64 set)"
    by (rule card_mono) simp_all
  then show ?thesis using assms by (simp add: distinct_card card_word)
qed

lemma remove1_map_add:
  fixes b c :: "'a :: cancel_semigroup_add"
  shows "remove1 (b + c) (map (\<lambda>b. b + c) bs) = map (\<lambda>b. b + c) (remove1 b bs)"
  by (induction bs) auto

end
