(* ===== verification/Aarch64.thy ===== *)
theory Aarch64
  imports Prelude
begin

text \<open>
  \<^verbatim>\<open>arch/aarch64.c\<close>: access to the system registers, masking of interrupts, the virtual
  timer's enable bit and the switch of the user translation table. The registers are the
  fields of the record \<open>cpu\<close>, the base of every later state record; the \<^verbatim>\<open>mrs\<close> and \<^verbatim>\<open>msr\<close>
  instructions read and write them. A register read into an \<^verbatim>\<open>unsigned int\<close> keeps its low
  32 bits. \<^verbatim>\<open>DAIF\<close> holds its four mask bits at positions 9 to 6 and nothing else;
  \<^verbatim>\<open>msr DAIFSet, #imm\<close> and \<^verbatim>\<open>msr DAIFClr, #imm\<close> set and clear the bits of \<^verbatim>\<open>imm\<close> there.
\<close>

section \<open>System registers\<close>

record cpu =
  CurrentEL :: u64
  DAIF :: u64
  SPSR_EL1 :: u64
  ISR_EL1 :: u64
  RVBAR_EL1 :: u64
  VBAR_EL1 :: u64
  CNTV_CTL_EL0 :: u64
  CNTFRQ_EL0 :: u64
  CNTVCT_EL0 :: u64
  CNTV_CVAL_EL0 :: u64
  ttbr0_el1 :: u64

text \<open>The address space descriptor of \<^verbatim>\<open>include/mm.h\<close>.\<close>

record vm_area_struct =
  va :: u64
  pa :: u64

record mm_struct =
  pgd :: u64
  vma :: "vm_area_struct list"
  pgtbl_page :: "u64 list"

definition DAIF_DBG_BIT :: u64 where "DAIF_DBG_BIT = push_bit 3 1"
definition DAIF_ABT_BIT :: u64 where "DAIF_ABT_BIT = push_bit 2 1"
definition DAIF_IRQ_BIT :: u64 where "DAIF_IRQ_BIT = push_bit 1 1"
definition DAIF_FIQ_BIT :: u64 where "DAIF_FIQ_BIT = push_bit 0 1"
definition SPSR_DAIF_SHIFT :: nat where "SPSR_DAIF_SHIFT = 6"
definition CNTV_CTL_ENABLE :: u64 where "CNTV_CTL_ENABLE = push_bit 0 1"
definition CURRENT_EL_MASK :: u32 where "CURRENT_EL_MASK = 3"
definition CURRENT_EL_SHIFT :: nat where "CURRENT_EL_SHIFT = 2"

lemmas daif_consts =
  DAIF_DBG_BIT_def DAIF_ABT_BIT_def DAIF_IRQ_BIT_def DAIF_FIQ_BIT_def SPSR_DAIF_SHIFT_def

text \<open>The two immediate forms of \<^verbatim>\<open>msr\<close> on the interrupt mask.\<close>

definition msr_DAIFSet :: "u64 \<Rightarrow> 'a cpu_scheme \<Rightarrow> 'a cpu_scheme" where
  "msr_DAIFSet imm s = s\<lparr>DAIF := DAIF s OR push_bit SPSR_DAIF_SHIFT imm\<rparr>"

definition msr_DAIFClr :: "u64 \<Rightarrow> 'a cpu_scheme \<Rightarrow> 'a cpu_scheme" where
  "msr_DAIFClr imm s = s\<lparr>DAIF := DAIF s AND NOT (push_bit SPSR_DAIF_SHIFT imm)\<rparr>"

section \<open>Reads and writes\<close>

definition raw_read_current_el :: "'a cpu_scheme \<Rightarrow> u32" where
  "raw_read_current_el s = ucast (CurrentEL s)"

definition get_current_el :: "'a cpu_scheme \<Rightarrow> u32" where
  "get_current_el s = (drop_bit CURRENT_EL_SHIFT (raw_read_current_el s)) AND CURRENT_EL_MASK"

definition raw_read_daif :: "'a cpu_scheme \<Rightarrow> u32" where
  "raw_read_daif s = ucast (DAIF s)"

definition raw_write_daif :: "u32 \<Rightarrow> 'a cpu_scheme \<Rightarrow> 'a cpu_scheme" where
  "raw_write_daif d s = s\<lparr>DAIF := ucast d AND push_bit SPSR_DAIF_SHIFT 15\<rparr>"

definition enable_debug_exceptions :: "'a cpu_scheme \<Rightarrow> 'a cpu_scheme" where
  "enable_debug_exceptions = msr_DAIFClr DAIF_DBG_BIT"

definition enable_serror_exceptions :: "'a cpu_scheme \<Rightarrow> 'a cpu_scheme" where
  "enable_serror_exceptions = msr_DAIFClr DAIF_ABT_BIT"

definition enable_irq :: "'a cpu_scheme \<Rightarrow> 'a cpu_scheme" where
  "enable_irq = msr_DAIFClr DAIF_IRQ_BIT"

definition enable_fiq :: "'a cpu_scheme \<Rightarrow> 'a cpu_scheme" where
  "enable_fiq = msr_DAIFClr DAIF_FIQ_BIT"

definition disable_debug_exceptions :: "'a cpu_scheme \<Rightarrow> 'a cpu_scheme" where
  "disable_debug_exceptions = msr_DAIFSet DAIF_DBG_BIT"

definition disable_serror_exceptions :: "'a cpu_scheme \<Rightarrow> 'a cpu_scheme" where
  "disable_serror_exceptions = msr_DAIFSet DAIF_ABT_BIT"

definition disable_irq :: "'a cpu_scheme \<Rightarrow> 'a cpu_scheme" where
  "disable_irq = msr_DAIFSet DAIF_IRQ_BIT"

definition disable_fiq :: "'a cpu_scheme \<Rightarrow> 'a cpu_scheme" where
  "disable_fiq = msr_DAIFSet DAIF_FIQ_BIT"

definition raw_read_spsr_el1 :: "'a cpu_scheme \<Rightarrow> u32" where
  "raw_read_spsr_el1 s = ucast (SPSR_EL1 s)"

definition raw_write_spsr_el1 :: "u32 \<Rightarrow> 'a cpu_scheme \<Rightarrow> 'a cpu_scheme" where
  "raw_write_spsr_el1 v s = s\<lparr>SPSR_EL1 := ucast v\<rparr>"

definition raw_read_isr_el1 :: "'a cpu_scheme \<Rightarrow> u32" where
  "raw_read_isr_el1 s = ucast (ISR_EL1 s)"

definition raw_read_rvbar_el1 :: "'a cpu_scheme \<Rightarrow> u64" where
  "raw_read_rvbar_el1 s = RVBAR_EL1 s"

definition raw_read_vbar_el1 :: "'a cpu_scheme \<Rightarrow> u64" where
  "raw_read_vbar_el1 s = VBAR_EL1 s"

definition raw_write_vbar_el1 :: "u64 \<Rightarrow> 'a cpu_scheme \<Rightarrow> 'a cpu_scheme" where
  "raw_write_vbar_el1 v s = s\<lparr>VBAR_EL1 := v\<rparr>"

definition raw_read_cntv_ctl :: "'a cpu_scheme \<Rightarrow> u32" where
  "raw_read_cntv_ctl s = ucast (CNTV_CTL_EL0 s)"

definition disable_cntv :: "'a cpu_scheme \<Rightarrow> 'a cpu_scheme" where
  "disable_cntv s = s\<lparr>CNTV_CTL_EL0 := ucast (raw_read_cntv_ctl s AND NOT (ucast CNTV_CTL_ENABLE))\<rparr>"

definition enable_cntv :: "'a cpu_scheme \<Rightarrow> 'a cpu_scheme" where
  "enable_cntv s = s\<lparr>CNTV_CTL_EL0 := ucast (raw_read_cntv_ctl s OR ucast CNTV_CTL_ENABLE)\<rparr>"

definition raw_read_cntfrq_el0 :: "'a cpu_scheme \<Rightarrow> u32" where
  "raw_read_cntfrq_el0 s = ucast (CNTFRQ_EL0 s)"

definition raw_write_cntfrq_el0 :: "u32 \<Rightarrow> 'a cpu_scheme \<Rightarrow> 'a cpu_scheme" where
  "raw_write_cntfrq_el0 v s = s\<lparr>CNTFRQ_EL0 := ucast v\<rparr>"

definition raw_read_cntvct_el0 :: "'a cpu_scheme \<Rightarrow> u64" where
  "raw_read_cntvct_el0 s = CNTVCT_EL0 s"

definition raw_read_cntv_cval_el0 :: "'a cpu_scheme \<Rightarrow> u64" where
  "raw_read_cntv_cval_el0 s = CNTV_CVAL_EL0 s"

definition raw_write_cntv_cval_el0 :: "u64 \<Rightarrow> 'a cpu_scheme \<Rightarrow> 'a cpu_scheme" where
  "raw_write_cntv_cval_el0 v s = s\<lparr>CNTV_CVAL_EL0 := v\<rparr>"

section \<open>Address space switch and interrupt masking\<close>

text \<open>\<open>None\<close> is the null descriptor of a kernel thread, which keeps the current user table.\<close>

definition switch_mm :: "mm_struct option \<Rightarrow> 'a cpu_scheme \<Rightarrow> 'a cpu_scheme" where
  "switch_mm mm s = (case mm of None \<Rightarrow> s | Some m \<Rightarrow> s\<lparr>ttbr0_el1 := pgd m\<rparr>)"

definition disable_irqsave :: "'a cpu_scheme \<Rightarrow> u64 \<times> 'a cpu_scheme" where
  "disable_irqsave s =
     (let DAIF_state = DAIF s; s' = msr_DAIFSet DAIF_IRQ_BIT s
      in (DAIF_state AND push_bit SPSR_DAIF_SHIFT DAIF_IRQ_BIT, s'))"

definition enable_irqsave :: "u64 \<Rightarrow> 'a cpu_scheme \<Rightarrow> 'a cpu_scheme" where
  "enable_irqsave flag s =
     (if flag AND push_bit SPSR_DAIF_SHIFT DAIF_IRQ_BIT = 0
      then msr_DAIFClr DAIF_IRQ_BIT s else s)"

definition irq_masked :: "'a cpu_scheme \<Rightarrow> bool" where
  "irq_masked s \<longleftrightarrow> bit (DAIF s) 7"

section \<open>Critical sections\<close>

lemma push_bit_IRQ: "push_bit SPSR_DAIF_SHIFT DAIF_IRQ_BIT = 128"
  by (simp add: daif_consts)

lemma bit_128: "bit (128 :: int) n \<longleftrightarrow> n = 7"
  using bit_exp_iff [of 7 n, where ?'a = int] by auto

lemma and_128_eq_0: "(w :: u64) AND 128 = 0 \<longleftrightarrow> \<not> bit w 7"
  using and_exp_eq_0_iff_not_bit [of w 7] by simp

lemma or_and_not_cancel:
  fixes w k :: u64
  assumes "w AND k = 0"
  shows "(w OR k) AND NOT k = w"
proof (rule bit_word_eqI)
  fix n
  have "\<not> (bit w n \<and> bit k n)"
    using assms by (metis bit_and_iff bit_0_eq bot_apply bot_bool_def)
  then show "bit ((w OR k) AND NOT k) n \<longleftrightarrow> bit w n"
    by (auto simp: bit_and_iff bit_or_iff bit_not_iff dest: bit_imp_le_length)
qed

lemma disable_irqsave_masked: "irq_masked (snd (disable_irqsave s))"
  by (simp add: irq_masked_def disable_irqsave_def msr_DAIFSet_def push_bit_IRQ bit_or_iff bit_128)

lemma enable_irqsave_restores:
  assumes "DAIF t = DAIF (snd (disable_irqsave s))"
  shows "DAIF (enable_irqsave (fst (disable_irqsave s)) t) = DAIF s"
proof (cases "bit (DAIF s) 7")
  case True
  have "DAIF s OR 128 = DAIF s"
    by (rule bit_word_eqI) (use True in \<open>auto simp: bit_or_iff bit_128\<close>)
  then show ?thesis
    using assms True
    by (simp add: disable_irqsave_def enable_irqsave_def msr_DAIFSet_def push_bit_IRQ and_128_eq_0)
next
  case False
  then have "DAIF s AND 128 = 0" by (simp add: and_128_eq_0)
  then show ?thesis
    using assms or_and_not_cancel [of "DAIF s" 128]
    by (simp add: disable_irqsave_def enable_irqsave_def msr_DAIFSet_def msr_DAIFClr_def push_bit_IRQ)
qed

lemma enable_irqsave_masked_keeps:
  "irq_masked s \<Longrightarrow> DAIF (enable_irqsave (fst (disable_irqsave s)) t) = DAIF t"
  by (simp add: irq_masked_def disable_irqsave_def enable_irqsave_def push_bit_IRQ and_128_eq_0)

section \<open>Properties\<close>

text \<open>A critical section opened with \<^verbatim>\<open>disable_irqsave\<close> and closed with \<^verbatim>\<open>enable_irqsave\<close> runs
  with interrupts masked and restores the mask it found. Sections nest: the inner pair leaves
  interrupts masked, and the outer one restores the mask that was there at the start.\<close>

theorem irqsave_sections_nest:
  assumes "disable_irqsave s0 = (f1, s1)" "DAIF t1 = DAIF s1"
    and "disable_irqsave t1 = (f2, s2)" "DAIF t2 = DAIF s2"
    and "DAIF t3 = DAIF (enable_irqsave f2 t2)"
  shows "irq_masked s1 \<and> irq_masked t2 \<and> irq_masked t3 \<and> DAIF (enable_irqsave f1 t3) = DAIF s0"
proof -
  have inner: "DAIF (enable_irqsave f2 t2) = DAIF t1"
    using enable_irqsave_restores [of t2 t1] assms(3,4) by simp
  then have "DAIF (enable_irqsave f1 t3) = DAIF s0"
    using enable_irqsave_restores [of t3 s0] assms(1,2,5) by simp
  moreover have "irq_masked s1" "irq_masked s2"
    using disable_irqsave_masked [of s0] disable_irqsave_masked [of t1] assms(1,3) by simp_all
  ultimately show ?thesis using inner assms(2,4,5) by (simp add: irq_masked_def)
qed

theorem irqsave_sections_nest_witness:
  "\<exists>s :: cpu. \<not> irq_masked s \<and>
     (case disable_irqsave s of (f1, s1) \<Rightarrow> case disable_irqsave s1 of (f2, s2) \<Rightarrow>
        irq_masked (enable_irqsave f2 s2) \<and> DAIF (enable_irqsave f1 (enable_irqsave f2 s2)) = DAIF s)"
proof -
  let ?s = "\<lparr>CurrentEL = 4, DAIF = 0, SPSR_EL1 = 0, ISR_EL1 = 0, RVBAR_EL1 = 0, VBAR_EL1 = 0,
    CNTV_CTL_EL0 = 0, CNTFRQ_EL0 = 0, CNTVCT_EL0 = 0, CNTV_CVAL_EL0 = 0, ttbr0_el1 = 0\<rparr>"
  have "\<not> irq_masked ?s" by (simp add: irq_masked_def)
  then show ?thesis
    using irqsave_sections_nest [of ?s "fst (disable_irqsave ?s)" "snd (disable_irqsave ?s)" "snd (disable_irqsave ?s)"
        "fst (disable_irqsave (snd (disable_irqsave ?s)))" "snd (disable_irqsave (snd (disable_irqsave ?s)))"
        "snd (disable_irqsave (snd (disable_irqsave ?s)))"
        "enable_irqsave (fst (disable_irqsave (snd (disable_irqsave ?s)))) (snd (disable_irqsave (snd (disable_irqsave ?s))))"]
    by (intro exI [of _ ?s]) (simp add: case_prod_unfold)
qed

end
