(* ===== verification/Lib.thy ===== *)
theory Lib
  imports Prelude
begin

text \<open>
  \<^verbatim>\<open>lib/lib.c\<close>: the string and memory routines, over byte-addressed memory. \<^verbatim>\<open>char\<close> is
  unsigned on this target, so the promoted difference that \<^verbatim>\<open>strcmp\<close> returns lies between
  -255 and 255. A string without terminator makes \<^verbatim>\<open>strlen\<close>, \<^verbatim>\<open>strcmp\<close> and \<^verbatim>\<open>strcpy\<close> run
  on; their fuel is the size of the address space, which is enough for every terminated
  string. \<^verbatim>\<open>memcpy\<close> counts with a signed \<^verbatim>\<open>int\<close>: incrementing it past its maximum is a
  \<open>Signed_overflow\<close>.
\<close>

section \<open>Strings\<close>

definition str_fuel :: nat where
  "str_fuel = 2 ^ 64"

function strcmp_loop :: "nat \<Rightarrow> memory \<Rightarrow> u64 \<Rightarrow> u64 \<Rightarrow> int res" where
  "strcmp_loop fuel m src dst =
     (if fuel = 0 then Inl Out_of_fuel
      else let ret = uint (m src) - uint (m dst)
           in if ret = 0 \<and> m dst \<noteq> 0 then strcmp_loop (fuel - 1) m (src + 1) (dst + 1)
              else Inr ret)"
  by pat_completeness auto
termination by (relation "measure (\<lambda>(fuel, _). fuel)") auto

declare strcmp_loop.simps [simp del]

definition strcmp :: "memory \<Rightarrow> u64 \<Rightarrow> u64 \<Rightarrow> int res" where
  "strcmp m src dst = strcmp_loop str_fuel m src dst"

function strlen_loop :: "nat \<Rightarrow> memory \<Rightarrow> u64 \<Rightarrow> u32 \<Rightarrow> u32 res" where
  "strlen_loop fuel m str len =
     (if fuel = 0 then Inl Out_of_fuel
      else if m str \<noteq> 0 then strlen_loop (fuel - 1) m (str + 1) (len + 1)
      else Inr len)"
  by pat_completeness auto
termination by (relation "measure (\<lambda>(fuel, _). fuel)") auto

declare strlen_loop.simps [simp del]

definition strlen :: "memory \<Rightarrow> u64 \<Rightarrow> u32 res" where
  "strlen m str = strlen_loop str_fuel m str 0"

function strcpy_loop :: "nat \<Rightarrow> memory \<Rightarrow> u64 \<Rightarrow> u64 \<Rightarrow> memory res" where
  "strcpy_loop fuel m dst src =
     (if fuel = 0 then Inl Out_of_fuel
      else let c = m src; m' = m(dst := c)
           in if c \<noteq> 0 then strcpy_loop (fuel - 1) m' (dst + 1) (src + 1) else Inr m')"
  by pat_completeness auto
termination by (relation "measure (\<lambda>(fuel, _). fuel)") auto

declare strcpy_loop.simps [simp del]

definition strcpy :: "memory \<Rightarrow> u64 \<Rightarrow> u64 \<Rightarrow> (u64 \<times> memory) res" where
  "strcpy m dst src =
     (if dst = NULL \<or> src = NULL then Inr (NULL, m)
      else bindR (strcpy_loop str_fuel m dst src) (\<lambda>m'. Inr (dst, m')))"

section \<open>Blocks of memory\<close>

fun memset_loop :: "memory \<Rightarrow> u64 \<Rightarrow> u8 \<Rightarrow> nat \<Rightarrow> memory" where
  "memset_loop m p c 0 = m"
| "memset_loop m p c (Suc n) = memset_loop (m(p := c)) (p + 1) c n"

definition memset :: "memory \<Rightarrow> u64 \<Rightarrow> u32 \<Rightarrow> u64 \<Rightarrow> u64 \<times> memory" where
  "memset m s c n =
     (if s = NULL then (NULL, m) else (s, memset_loop m s (ucast c) (unat n)))"

definition INT_MAX :: nat where
  "INT_MAX = 2 ^ 31 - 1"

function memcpy_loop :: "memory \<Rightarrow> u64 \<Rightarrow> u64 \<Rightarrow> u64 \<Rightarrow> nat \<Rightarrow> memory res" where
  "memcpy_loop m dst src sz i =
     (if (of_nat i :: u64) < sz
      then let m' = m(dst + of_nat i := m (src + of_nat i))
           in if INT_MAX \<le> i then Inl Signed_overflow
              else memcpy_loop m' dst src sz (Suc i)
      else Inr m)"
  by pat_completeness auto
termination by (relation "measure (\<lambda>(m, dst, src, sz, i). INT_MAX - i)") auto

declare memcpy_loop.simps [simp del]

definition memcpy :: "memory \<Rightarrow> u64 \<Rightarrow> u64 \<Rightarrow> u64 \<Rightarrow> memory res" where
  "memcpy m dst src sz = memcpy_loop m dst src sz 0"

section \<open>Powers\<close>

text \<open>\<^verbatim>\<open>long pow(long x, unsigned long m)\<close>: a product outside \<^verbatim>\<open>long\<close> overflows.\<close>

fun pow_loop :: "int \<Rightarrow> nat \<Rightarrow> int \<Rightarrow> int res" where
  "pow_loop x 0 y = Inr y"
| "pow_loop x (Suc m) y =
     (if - (2 ^ 63) \<le> y * x \<and> y * x < 2 ^ 63 then pow_loop x m (y * x)
      else Inl Signed_overflow)"

definition pow :: "int \<Rightarrow> u64 \<Rightarrow> int res" where
  "pow x m = pow_loop x (unat m) 1"

section \<open>What they compute\<close>

text \<open>\<open>cstr m p xs\<close>: the bytes \<open>xs\<close>, none of them zero, and then a zero byte lie at \<open>p\<close>.\<close>

fun cstr :: "memory \<Rightarrow> u64 \<Rightarrow> u8 list \<Rightarrow> bool" where
  "cstr m p [] \<longleftrightarrow> m p = 0"
| "cstr m p (x # xs) \<longleftrightarrow> x \<noteq> 0 \<and> m p = x \<and> cstr m (p + 1) xs"

lemma cstr_unique: "cstr m p xs \<Longrightarrow> cstr m p ys \<Longrightarrow> xs = ys"
  by (induction xs arbitrary: p ys) (case_tac ys; auto)+

lemma cstr_nth:
  "cstr m p xs \<Longrightarrow> i \<le> length xs \<Longrightarrow> m (p + of_nat i) = (xs @ [0]) ! i"
proof (induction xs arbitrary: p i)
  case Nil
  then show ?case by simp
next
  case (Cons x xs)
  show ?case
  proof (cases i)
    case 0
    then show ?thesis using Cons.prems by simp
  next
    case (Suc k)
    then show ?thesis using Cons.IH [of "p + 1" k] Cons.prems by (simp add: add.assoc)
  qed
qed

lemma cstr_nonzero: "cstr m p xs \<Longrightarrow> 0 \<notin> set xs"
  by (induction xs arbitrary: p) auto

lemma strlen_loop_cstr:
  "cstr m p xs \<Longrightarrow> length xs < fuel \<Longrightarrow>
   strlen_loop fuel m p len = Inr (len + of_nat (length xs))"
proof (induction xs arbitrary: p len fuel)
  case Nil
  then show ?case by (subst strlen_loop.simps) simp
next
  case (Cons x xs)
  then show ?case by (subst strlen_loop.simps) (auto simp: algebra_simps)
qed

lemma strlen_cstr:
  "cstr m p xs \<Longrightarrow> length xs < 2 ^ 64 \<Longrightarrow> strlen m p = Inr (of_nat (length xs))"
  by (simp add: strlen_def str_fuel_def strlen_loop_cstr)

text \<open>The C comparison result of two strings.\<close>

fun cmp_spec :: "u8 list \<Rightarrow> u8 list \<Rightarrow> int" where
  "cmp_spec [] [] = 0"
| "cmp_spec [] (y # ys) = - uint y"
| "cmp_spec (x # xs) [] = uint x"
| "cmp_spec (x # xs) (y # ys) = (if x = y then cmp_spec xs ys else uint x - uint y)"

lemma strcmp_loop_cstr:
  "cstr m p xs \<Longrightarrow> cstr m q ys \<Longrightarrow> length ys < fuel \<Longrightarrow>
   strcmp_loop fuel m p q = Inr (cmp_spec xs ys)"
proof (induction xs ys arbitrary: p q fuel rule: cmp_spec.induct)
  case 1
  then show ?case by (subst strcmp_loop.simps) simp
next
  case (2 y ys)
  then show ?case by (subst strcmp_loop.simps) (auto simp: uint_0_iff)
next
  case (3 x xs)
  then show ?case by (subst strcmp_loop.simps) (auto simp: uint_0_iff)
next
  case (4 x xs y ys)
  then show ?case by (subst strcmp_loop.simps) (auto simp: word_uint_eq_iff)
qed

lemma cmp_spec_eq_0: "0 \<notin> set xs \<Longrightarrow> 0 \<notin> set ys \<Longrightarrow> cmp_spec xs ys = 0 \<longleftrightarrow> xs = ys"
  by (induction xs ys rule: cmp_spec.induct) (auto simp: uint_0_iff dest: word_uint_eqI)

lemma cmp_spec_less:
  "0 \<notin> set xs \<Longrightarrow> 0 \<notin> set ys \<Longrightarrow> cmp_spec xs ys < 0 \<longleftrightarrow> (xs, ys) \<in> lexord {(a, b). a < b}"
proof (induction xs ys rule: cmp_spec.induct)
  case 1
  show ?case by simp
next
  case (2 y ys)
  then have "0 < uint y" by (metis list.set_intros(1) uint_0_iff uint_ge_0 le_less)
  then show ?case by simp
next
  case (3 x xs)
  then show ?case by (simp add: not_less)
next
  case (4 x xs y ys)
  then show ?case by (simp add: word_less_def)
qed

lemma memset_loop_eq:
  "n \<le> 2 ^ 64 \<Longrightarrow> memset_loop m p c n = (\<lambda>x. if unat (x - p) < n then c else m x)"
proof (induction n arbitrary: m p)
  case 0
  then show ?case by simp
next
  case (Suc n)
  have "memset_loop m p c (Suc n) =
      (\<lambda>x. if unat (x - (p + 1)) < n then c else (m(p := c)) x)"
    using Suc by simp
  also have "\<dots> = (\<lambda>x. if unat (x - p) < Suc n then c else m x)"
    by (rule ext) (use in_range_step [of _ p n] in \<open>auto simp: fun_upd_def\<close>)
  finally show ?case .
qed

lemma memset_eq:
  "s \<noteq> NULL \<Longrightarrow> memset m s c n = (s, \<lambda>x. if x - s < n then ucast c else m x)"
  using unat_u64_less [of n]
  by (simp add: memset_def memset_loop_eq word_less_nat_alt)

lemma memcpy_loop_eq:
  assumes "unat sz \<le> INT_MAX" "i \<le> unat sz"
    and "\<And>j k. j < unat sz \<Longrightarrow> k < unat sz \<Longrightarrow> src + of_nat j \<noteq> dst + of_nat k"
  shows "memcpy_loop m dst src sz i =
    Inr (\<lambda>x. if i \<le> unat (x - dst) \<and> unat (x - dst) < unat sz then m (src + (x - dst)) else m x)"
  using assms
proof (induction "unat sz - i" arbitrary: i m)
  case 0
  then have i: "i = unat sz" by simp
  show ?case
    by (subst memcpy_loop.simps) (auto simp: i fun_eq_iff)
next
  case (Suc d)
  let ?m = "m(dst + of_nat i := m (src + of_nat i))"
  have lt: "i < unat sz" using Suc.hyps(2) by simp
  have ui: "unat (of_nat i :: u64) = i"
    using lt unat_u64_less [of sz] by (simp add: unat_of_nat)
  have IH: "memcpy_loop ?m dst src sz (Suc i) =
      Inr (\<lambda>x. if Suc i \<le> unat (x - dst) \<and> unat (x - dst) < unat sz
                then ?m (src + (x - dst)) else ?m x)"
    using Suc.hyps(2) lt Suc.prems by (intro Suc.hyps(1)) auto
  have "memcpy_loop m dst src sz i = memcpy_loop ?m dst src sz (Suc i)"
    using lt ui Suc.prems(1) by (subst memcpy_loop.simps) (simp add: word_less_nat_alt)
  also have "\<dots> = Inr (\<lambda>x. if i \<le> unat (x - dst) \<and> unat (x - dst) < unat sz
      then m (src + (x - dst)) else m x)"
  proof -
    have src: "?m (src + (x - dst)) = m (src + (x - dst))" if "unat (x - dst) < unat sz" for x
      using Suc.prems(3) [OF that lt] by simp
    have at: "unat (x - dst) = i \<longleftrightarrow> x = dst + of_nat i" for x
    proof
      assume "unat (x - dst) = i"
      then have "of_nat i = x - dst" by (metis of_nat_unat ucast_id)
      then show "x = dst + of_nat i" by simp
    qed (simp add: ui)
    show ?thesis unfolding IH
    proof (rule arg_cong [where f = Inr], rule ext)
      fix x
      show "(if Suc i \<le> unat (x - dst) \<and> unat (x - dst) < unat sz
             then ?m (src + (x - dst)) else ?m x) =
            (if i \<le> unat (x - dst) \<and> unat (x - dst) < unat sz then m (src + (x - dst)) else m x)"
      proof (cases "unat (x - dst) = i")
        case True
        then show ?thesis using lt at [of x] by simp
      next
        case False
        then show ?thesis using at [of x] src [of x] by (auto simp: Suc_le_eq)
      qed
    qed
  qed
  finally show ?case .
qed

lemma memcpy_eq:
  assumes "unat sz \<le> INT_MAX"
    and "\<And>j k. j < unat sz \<Longrightarrow> k < unat sz \<Longrightarrow> src + of_nat j \<noteq> dst + of_nat k"
  shows "memcpy m dst src sz = Inr (\<lambda>x. if x - dst < sz then m (src + (x - dst)) else m x)"
  using memcpy_loop_eq [OF assms(1) _ assms(2), of 0] by (simp add: memcpy_def word_less_nat_alt)

lemma cstr_cong:
  assumes "cstr m p xs" "\<And>j. j \<le> length xs \<Longrightarrow> m' (p + of_nat j) = m (p + of_nat j)"
  shows "cstr m' p xs"
  using assms
proof (induction xs arbitrary: p)
  case Nil
  then show ?case using Nil.prems(2) [of 0] by simp
next
  case (Cons x xs)
  have "m' (p + 1 + of_nat j) = m (p + 1 + of_nat j)" if "j \<le> length xs" for j
    using Cons.prems(2) [of "Suc j"] that by (simp add: add.assoc)
  then show ?case
    using Cons.IH [of "p + 1"] Cons.prems(1) Cons.prems(2) [of 0] by simp
qed

lemma strcpy_loop_cstr:
  assumes "cstr m src xs" "length xs < fuel" "length xs < 2 ^ 64 - 1"
    and "\<And>j k. j \<le> length xs \<Longrightarrow> k \<le> length xs \<Longrightarrow> src + of_nat j \<noteq> dst + of_nat k"
  shows "\<exists>m'. strcpy_loop fuel m dst src = Inr m' \<and> cstr m' dst xs \<and>
    (\<forall>x. length xs < unat (x - dst) \<longrightarrow> m' x = m x)"
  using assms
proof (induction xs arbitrary: m src dst fuel)
  case Nil
  then show ?case by (subst strcpy_loop.simps) auto
next
  case (Cons x xs)
  let ?m = "m(dst := x)"
  have off: "src + 1 + of_nat j \<noteq> dst + 1 + of_nat k" if "j \<le> length xs" "k \<le> length xs" for j k
    using Cons.prems(4) [of "Suc j" "Suc k"] that by (simp add: algebra_simps)
  have c: "cstr ?m (src + 1) xs"
  proof (rule cstr_cong [of m])
    show "cstr m (src + 1) xs" using Cons.prems(1) by simp
    fix j assume "j \<le> length xs"
    then have "src + 1 + of_nat j \<noteq> dst"
      using Cons.prems(4) [of "Suc j" 0] by (simp add: algebra_simps)
    then show "?m (src + 1 + of_nat j) = m (src + 1 + of_nat j)" by simp
  qed
  have "\<exists>m'. strcpy_loop (fuel - 1) ?m (dst + 1) (src + 1) = Inr m' \<and> cstr m' (dst + 1) xs \<and>
      (\<forall>y. length xs < unat (y - (dst + 1)) \<longrightarrow> m' y = ?m y)"
    using c by (rule Cons.IH) (use Cons.prems(2,3) off in simp_all)
  then obtain m' where m': "strcpy_loop (fuel - 1) ?m (dst + 1) (src + 1) = Inr m'"
      "cstr m' (dst + 1) xs" "\<forall>y. length xs < unat (y - (dst + 1)) \<longrightarrow> m' y = ?m y"
    by blast
  have "unat (dst - (dst + 1)) = 2 ^ 64 - 1"
    by (simp add: unsigned_minus_1_eq_mask mask_eq_exp_minus_1)
  then have "m' dst = x" using m'(3) Cons.prems(3) by simp
  moreover have "m' y = m y" if "length (x # xs) < unat (y - dst)" for y
  proof -
    have "y - dst \<noteq> 0" using that by auto
    then have "unat (y - dst - 1) = unat (y - dst) - 1" by (rule unat_minus_one)
    then have "length xs < unat (y - (dst + 1))" using that by (simp add: diff_diff_eq)
    then show ?thesis using m'(3) that by auto
  qed
  ultimately show ?case
    using m' Cons.prems by (subst strcpy_loop.simps) auto
qed

section \<open>Properties\<close>

text \<open>\<^verbatim>\<open>strcmp\<close> of two terminated strings returns, 0 exactly for equal strings and a negative
  value exactly if the first precedes the second in the order of unsigned bytes.\<close>

theorem strcmp_correct:
  assumes "cstr m p xs" "cstr m q ys" "length ys < 2 ^ 64"
  shows "\<exists>r. strcmp m p q = Inr r \<and> (r = 0 \<longleftrightarrow> xs = ys) \<and>
    (r < 0 \<longleftrightarrow> (xs, ys) \<in> lexord {(a, b). a < b})"
  using strcmp_loop_cstr [OF assms(1,2), of str_fuel] assms(3)
    cmp_spec_eq_0 [OF cstr_nonzero [OF assms(1)] cstr_nonzero [OF assms(2)]]
    cmp_spec_less [OF cstr_nonzero [OF assms(1)] cstr_nonzero [OF assms(2)]]
  by (simp add: strcmp_def str_fuel_def)

theorem strcmp_correct_witness:
  "\<exists>r. strcmp ((\<lambda>_. 0)(100 := 47, 200 := 47, 201 := 98)) 100 200 = Inr r \<and> r < 0"
  using strcmp_correct [of "(\<lambda>_. 0)(100 := 47, 200 := 47, 201 := 98)" 100 "[47]" 200 "[47, 98]"]
  by auto

text \<open>\<^verbatim>\<open>strcpy\<close> of a terminated string to a place that does not overlap it returns the
  destination, leaves the string there, terminator included, and changes nothing else; the
  copy then compares equal to the string and has its length.\<close>

theorem strcpy_correct:
  assumes "cstr m src xs" "length xs < 2 ^ 64 - 1" "dst \<noteq> NULL" "src \<noteq> NULL"
    and "\<And>j k. j \<le> length xs \<Longrightarrow> k \<le> length xs \<Longrightarrow> src + of_nat j \<noteq> dst + of_nat k"
  shows "\<exists>m'. strcpy m dst src = Inr (dst, m') \<and> strlen m' dst = Inr (of_nat (length xs)) \<and>
    strcmp m' dst src = Inr 0 \<and> (\<forall>x. length xs < unat (x - dst) \<longrightarrow> m' x = m x)"
proof -
  obtain m' where m': "strcpy_loop str_fuel m dst src = Inr m'" "cstr m' dst xs"
      "\<forall>x. length xs < unat (x - dst) \<longrightarrow> m' x = m x"
    using strcpy_loop_cstr [OF assms(1) _ assms(2,5), of str_fuel] assms(2)
    by (auto simp: str_fuel_def)
  have "cstr m' src xs"
  proof (rule cstr_cong [OF assms(1)])
    fix j assume j: "j \<le> length xs"
    have "length xs < unat (src + of_nat j - dst)"
    proof (rule ccontr)
      assume "\<not> ?thesis"
      then have "src + of_nat j \<noteq> dst + of_nat (unat (src + of_nat j - dst))"
        using assms(5) [OF j, of "unat (src + of_nat j - dst)"] by simp
      then show False by simp
    qed
    then show "m' (src + of_nat j) = m (src + of_nat j)" using m'(3) by simp
  qed
  then have "strcmp m' dst src = Inr 0"
    using strcmp_loop_cstr [OF m'(2), of src xs str_fuel] assms(2)
      cmp_spec_eq_0 [of xs xs] cstr_nonzero [OF assms(1)]
    by (simp add: strcmp_def str_fuel_def)
  then show ?thesis
    using m' assms(2-4) strlen_cstr [OF m'(2)] by (simp add: strcpy_def)
qed

theorem strcpy_correct_witness:
  "\<exists>m'. strcpy ((\<lambda>_. 0)(100 := 47)) 200 100 = Inr (200, m') \<and> strlen m' 200 = Inr 1"
proof -
  have "(100 :: u64) + of_nat j \<noteq> 200 + of_nat k" if "j \<le> length [47 :: u8]" "k \<le> length [47 :: u8]" for j k
    using that by (auto simp: le_Suc_eq)
  then show ?thesis
    using strcpy_correct [of "(\<lambda>_. 0)(100 := 47)" 100 "[47]" 200] by auto
qed

text \<open>\<^verbatim>\<open>memcpy\<close> of at most \<^verbatim>\<open>INT_MAX\<close> bytes between regions that do not overlap copies the
  bytes and nothing else.\<close>

theorem memcpy_correct:
  assumes "unat sz \<le> INT_MAX"
    and "\<And>j k. j < unat sz \<Longrightarrow> k < unat sz \<Longrightarrow> src + of_nat j \<noteq> dst + of_nat k"
  shows "memcpy m dst src sz = Inr (\<lambda>x. if x - dst < sz then m (src + (x - dst)) else m x)"
  using assms by (rule memcpy_eq)

theorem memcpy_correct_witness:
  "memcpy (\<lambda>x. ucast x) 200 100 2 = Inr (\<lambda>x. if x - 200 < 2 then ucast (100 + (x - 200)) else ucast x)"
proof (rule memcpy_correct)
  fix j k assume "j < unat (2 :: u64)" "k < unat (2 :: u64)"
  then have "j = 0 \<or> j = 1" "k = 0 \<or> k = 1" by auto
  then show "(100 :: u64) + of_nat j \<noteq> 200 + of_nat k" by auto
qed (simp add: INT_MAX_def)

end
