(* ===== verification/Mm.thy ===== *)
theory Mm
  imports Aarch64 Lib
begin

text \<open>
  The page allocator of \<^verbatim>\<open>mm/mm.c\<close> and the address macros of \<^verbatim>\<open>include/mm.h\<close>. The state
  extends the processor registers by the array \<^verbatim>\<open>mem_map\<close> of page descriptors and the
  memory, which the kernel reaches through its linear mapping. A \<^verbatim>\<open>struct page *\<close> that
  points into \<^verbatim>\<open>mem_map\<close> is its index, a null one is \<open>None\<close>. The kernel never checks the
  result of \<^verbatim>\<open>alloc_page\<close>: with no page left \<^verbatim>\<open>get_free_page\<close> computes an address from a
  null descriptor, which is the fault \<open>Null_deref\<close>.

  The locale \<open>page_provider\<close> states what the clients of the allocator rely on; it is
  interpreted by \<^verbatim>\<open>get_free_page\<close> and \<^verbatim>\<open>free_page\<close>.
\<close>

section \<open>Memory layout\<close>

definition MEM_BASE :: u64 where "MEM_BASE = 0x40000000"
definition IMAGE_START :: u64 where "IMAGE_START = MEM_BASE + 0x80000"
definition LOW_MEM :: u64 where "LOW_MEM = IMAGE_START + push_bit 20 1"
definition PAGING_MEMORY :: u64 where "PAGING_MEMORY = push_bit 20 15"
definition HIGH_MEM :: u64 where "HIGH_MEM = IMAGE_START + PAGING_MEMORY - 1"
definition PAGE_SHIFT :: nat where "PAGE_SHIFT = 12"
definition PAGE_SIZE :: u64 where "PAGE_SIZE = push_bit PAGE_SHIFT 1"
definition PAGE_MASK :: u64 where "PAGE_MASK = push_bit PAGE_SHIFT 1 - 1"
definition PAGING_PAGES :: nat where "PAGING_PAGES = unat (drop_bit PAGE_SHIFT PAGING_MEMORY)"
definition KERNEL_VA_START :: u64 where "KERNEL_VA_START = 0xffff000000000000"
definition GFP_KERNEL :: u32 where "GFP_KERNEL = 1"

lemma layout_values [addr_simps]:
  "MEM_BASE = 0x40000000" "LOW_MEM = 0x40180000" "PAGE_SIZE = 4096" "PAGE_MASK = 4095"
  "PAGE_SHIFT = 12" "KERNEL_VA_START = 0xffff000000000000"
  by (simp_all add: MEM_BASE_def LOW_MEM_def IMAGE_START_def PAGE_SIZE_def PAGE_MASK_def
      PAGE_SHIFT_def KERNEL_VA_START_def)

lemma PAGING_PAGES_eq: "PAGING_PAGES = 3840"
  by (simp add: PAGING_PAGES_def PAGE_SHIFT_def PAGING_MEMORY_def)

text \<open>The macros \<^verbatim>\<open>pa_to_pfn\<close>, \<^verbatim>\<open>pfn_to_pa\<close>, \<^verbatim>\<open>__va\<close> and \<^verbatim>\<open>__pa\<close>.\<close>

definition pa_to_pfn :: "u64 \<Rightarrow> u64" where
  "pa_to_pfn p = drop_bit PAGE_SHIFT (p - LOW_MEM)"

definition pfn_to_pa :: "u64 \<Rightarrow> u64" where
  "pfn_to_pa pfn = push_bit PAGE_SHIFT pfn + LOW_MEM"

definition va_of :: "u64 \<Rightarrow> u64" where
  "va_of p = (p - MEM_BASE) + KERNEL_VA_START"

definition pa_of :: "u64 \<Rightarrow> u64" where
  "pa_of v = v - KERNEL_VA_START + MEM_BASE"

lemma pa_of_va_of [simp]: "pa_of (va_of p) = p"
  by (simp add: pa_of_def va_of_def)

lemma va_of_pa_of [simp]: "va_of (pa_of v) = v"
  by (simp add: pa_of_def va_of_def)

section \<open>State\<close>

record page =
  pg_flags :: u32
  pg_count :: u32
  pg_fbh :: u64
  pg_lru :: "u64 \<times> u64"

record mm_state = cpu +
  mem_map :: "page list"
  mem :: memory

definition PG_free :: u32 where "PG_free = 0"
definition PG_kmalloc :: u32 where "PG_kmalloc = 1"

section \<open>Operations\<close>

text \<open>The loop of \<^verbatim>\<open>alloc_page\<close> runs from the last descriptor down to the first.\<close>

fun alloc_scan :: "page list \<Rightarrow> nat \<Rightarrow> nat option" where
  "alloc_scan pages 0 = None"
| "alloc_scan pages (Suc i) =
     (if pg_count (pages ! i) = 0 then Some i else alloc_scan pages i)"

definition alloc_page :: "'a mm_state_scheme \<Rightarrow> nat option \<times> 'a mm_state_scheme" where
  "alloc_page s =
     (case alloc_scan (mem_map s) PAGING_PAGES of
        None \<Rightarrow> (None, s)
      | Some i \<Rightarrow> (Some i, s\<lparr>mem_map := (mem_map s)[i := (mem_map s ! i)\<lparr>pg_count := 1\<rparr>]\<rparr>))"

text \<open>\<^verbatim>\<open>__free_page\<close>: the reference count drops by one, with the wrap-around of \<^verbatim>\<open>int\<close>.\<close>

definition free_page_desc :: "nat \<Rightarrow> 'a mm_state_scheme \<Rightarrow> 'a mm_state_scheme res" where
  "free_page_desc i s =
     (if i < PAGING_PAGES
      then Inr (s\<lparr>mem_map := (mem_map s)[i := (mem_map s ! i)\<lparr>pg_count := pg_count (mem_map s ! i) - 1\<rparr>]\<rparr>)
      else Inl Out_of_bounds)"

definition free_page :: "u64 \<Rightarrow> 'a mm_state_scheme \<Rightarrow> 'a mm_state_scheme res" where
  "free_page addr s = free_page_desc (unat (pa_to_pfn (pa_of addr))) s"

text \<open>
  The code does not test the result of \<^verbatim>\<open>alloc_page\<close>: from a null descriptor it computes an address and
  clears the memory there. Here the null descriptor is a fault at once.
\<close>

definition get_free_page :: "u32 \<Rightarrow> 'a mm_state_scheme \<Rightarrow> (u64 \<times> 'a mm_state_scheme) res" where
  "get_free_page gfp_flags s =
     (case alloc_page s of
        (None, s') \<Rightarrow> Inl Null_deref
      | (Some i, s') \<Rightarrow>
          (let v = va_of (pfn_to_pa (of_nat i))
           in Inr (v, s'\<lparr>mem := snd (memset (mem s') v 0 PAGE_SIZE)\<rparr>)))"

text \<open>
  The macro \<^verbatim>\<open>pa_to_page(pa)->flags\<close> as the kernel allocator writes it.
\<close>

definition set_page_flags :: "u64 \<Rightarrow> u32 \<Rightarrow> 'a mm_state_scheme \<Rightarrow> 'a mm_state_scheme res" where
  "set_page_flags p f s =
     (let i = unat (pa_to_pfn p)
      in if i < PAGING_PAGES
         then Inr (s\<lparr>mem_map := (mem_map s)[i := (mem_map s ! i)\<lparr>pg_flags := f\<rparr>]\<rparr>)
         else Inl Out_of_bounds)"

section \<open>Page addresses\<close>

definition page_va :: "nat \<Rightarrow> u64" where
  "page_va i = va_of (pfn_to_pa (of_nat i))"

text \<open>The kernel addresses of the pages the allocator manages, and those in use.\<close>

definition page_pool :: "u64 set" where
  "page_pool = page_va ` {..<PAGING_PAGES}"

definition used_pages :: "'a mm_state_scheme \<Rightarrow> u64 set" where
  "used_pages s = page_va ` {i. i < PAGING_PAGES \<and> pg_count (mem_map s ! i) \<noteq> 0}"

definition in_page :: "u64 \<Rightarrow> u64 \<Rightarrow> bool" where
  "in_page p x \<longleftrightarrow> x - p < PAGE_SIZE"

text \<open>No descriptor has a count other than 0 (free) and 1 (allocated once).\<close>

definition mm_inv :: "'a mm_state_scheme \<Rightarrow> bool" where
  "mm_inv s \<longleftrightarrow> length (mem_map s) = PAGING_PAGES \<and>
     (\<forall>p \<in> set (mem_map s). pg_count p = 0 \<or> pg_count p = 1)"

lemma unat_of_nat_page: "i < PAGING_PAGES \<Longrightarrow> unat (of_nat i :: u64) = i"
  by (simp add: unat_of_nat PAGING_PAGES_eq)

lemma unat_page_va [addr_simps]:
  assumes "i < PAGING_PAGES"
  shows "unat (page_va i) = 0xffff000000180000 + 4096 * i"
proof -
  have "page_va i = of_nat (0xffff000000180000 + 4096 * i)"
    by (simp add: page_va_def va_of_def pfn_to_pa_def layout_values push_bit_eq_mult)
  then show ?thesis
    using assms by (simp only: unat_of_nat) (simp add: PAGING_PAGES_eq)
qed

lemma page_va_inj: "i < PAGING_PAGES \<Longrightarrow> j < PAGING_PAGES \<Longrightarrow> page_va i = page_va j \<longleftrightarrow> i = j"
  by (auto simp: word_unat_eq_iff unat_page_va)

lemma page_va_nonzero: "i < PAGING_PAGES \<Longrightarrow> page_va i \<noteq> 0"
  by (auto simp: word_unat_eq_iff unat_page_va)

lemma pfn_page_va:
  assumes "i < PAGING_PAGES"
  shows "unat (pa_to_pfn (pa_of (page_va i))) = i"
proof -
  have "push_bit 12 (of_nat i :: u64) = of_nat (4096 * i)"
    by (simp add: push_bit_eq_mult)
  moreover have "unat (of_nat (4096 * i) :: u64) = 4096 * i"
    using assms by (simp only: unat_of_nat) (simp add: PAGING_PAGES_eq)
  ultimately show ?thesis
    by (simp add: pa_to_pfn_def page_va_def pfn_to_pa_def layout_values drop_bit_eq_div unat_div_distrib)
qed

lemma in_page_unat:
  assumes "i < PAGING_PAGES"
  shows "in_page (page_va i) x \<longleftrightarrow>
    0xffff000000180000 + 4096 * i \<le> unat x \<and> unat x < 0xffff000000181000 + 4096 * i"
proof (cases "0xffff000000180000 + 4096 * i \<le> unat x")
  case True
  then show ?thesis
    by (auto simp: in_page_def layout_values word_less_nat_alt unat_sub_if' unat_page_va [OF assms])
next
  case False
  have "unat x + 18446744073709551616 - (0xffff000000180000 + 4096 * i) \<ge> 4096"
    using assms by (simp add: PAGING_PAGES_eq)
  then show ?thesis
    using False
    by (simp add: in_page_def layout_values word_less_nat_alt unat_sub_if' unat_page_va [OF assms])
qed

lemma pages_disjoint:
  assumes "p \<in> page_pool" "q \<in> page_pool" "p \<noteq> q"
  shows "\<not> (in_page p x \<and> in_page q x)"
proof -
  obtain i j where ij: "i < PAGING_PAGES" "j < PAGING_PAGES" "p = page_va i" "q = page_va j" "i \<noteq> j"
    using assms by (auto simp: page_pool_def)
  show ?thesis
    unfolding ij(3,4) in_page_unat [OF ij(1)] in_page_unat [OF ij(2)] using ij(5) by linarith
qed

section \<open>Aligned addresses\<close>

definition page_aligned :: "u64 \<Rightarrow> bool" where
  "page_aligned a \<longleftrightarrow> unat a mod 4096 = 0"

lemma page_aligned_int: "page_aligned a \<longleftrightarrow> 4096 dvd uint a"
proof -
  have "uint a = int (unat a)" by simp
  then show ?thesis
    unfolding page_aligned_def by (metis dvd_eq_mod_eq_0 int_dvd_int_iff of_nat_numeral)
qed

lemma uint_arith_dvd4096:
  fixes a b :: u64
  shows "4096 dvd uint (a + b) \<longleftrightarrow> 4096 dvd (uint a + uint b)"
    and "4096 dvd uint (a - b) \<longleftrightarrow> 4096 dvd (uint a - uint b)"
  by (simp_all add: uint_word_ariths dvd_mod_iff)

lemma page_aligned_obtain:
  assumes "page_aligned a"
  obtains k where "unat a = 4096 * k"
  using assms by (auto simp: page_aligned_def)

lemma aligned_sum_eq:
  "4096 * a + i = 4096 * b + j \<Longrightarrow> i < 4096 \<Longrightarrow> j < 4096 \<Longrightarrow> a = b \<and> i = (j :: nat)"
  by (cases a b rule: linorder_cases) simp_all

lemma page_aligned_diff: "page_aligned a \<Longrightarrow> page_aligned b \<Longrightarrow> page_aligned (a - b)"
  by (simp add: page_aligned_int uint_arith_dvd4096)

lemma page_aligned_va_of [simp]: "page_aligned (va_of t) \<longleftrightarrow> page_aligned t"
proof -
  have "va_of t = t + 0xfffeffffc0000000"
    by (simp add: va_of_def layout_values)
  moreover have "4096 dvd (uint t + 0xfffeffffc0000000) \<longleftrightarrow> 4096 dvd uint t"
    by (simp add: dvd_add_left_iff)
  ultimately show ?thesis by (simp add: page_aligned_int uint_arith_dvd4096)
qed

lemma page_aligned_pa_of [simp]: "page_aligned (pa_of v) \<longleftrightarrow> page_aligned v"
  using page_aligned_va_of [of "pa_of v"] by simp

lemma page_aligned_pool: "p \<in> page_pool \<Longrightarrow> page_aligned p"
  by (auto simp: page_pool_def page_aligned_def unat_page_va)

lemma aligned_offset:
  assumes "page_aligned a" "unat o' < 4096"
  shows "unat (a + o') = unat a + unat o'"
proof -
  obtain k where "unat a = 4096 * k" using page_aligned_obtain [OF assms(1)] .
  then have "unat a + unat o' < 2 ^ 64"
    using assms(2) unat_u64_less [of a] by simp
  then show ?thesis by (simp add: unat_word_ariths)
qed

section \<open>What the operations do\<close>

lemma alloc_scan_Some:
  assumes "alloc_scan pages n = Some i"
  shows "i < n" and "pg_count (pages ! i) = 0"
    and "\<forall>j. i < j \<and> j < n \<longrightarrow> pg_count (pages ! j) \<noteq> 0"
  using assms by (induction n) (auto split: if_splits simp: less_Suc_eq)

lemma alloc_scan_None: "alloc_scan pages n = None \<longleftrightarrow> (\<forall>i < n. pg_count (pages ! i) \<noteq> 0)"
  by (induction n) (auto simp: less_Suc_eq)

text \<open>The state after page \<open>i\<close> was handed out, and after it was given back.\<close>

definition took_page :: "nat \<Rightarrow> 'a mm_state_scheme \<Rightarrow> 'a mm_state_scheme" where
  "took_page i s = s\<lparr>mem_map := (mem_map s)[i := (mem_map s ! i)\<lparr>pg_count := 1\<rparr>],
     mem := (\<lambda>x. if in_page (page_va i) x then 0 else mem s x)\<rparr>"

definition gave_page :: "nat \<Rightarrow> 'a mm_state_scheme \<Rightarrow> 'a mm_state_scheme" where
  "gave_page i s = s\<lparr>mem_map := (mem_map s)[i := (mem_map s ! i)\<lparr>pg_count := 0\<rparr>]\<rparr>"

lemma get_free_page_eq:
  "get_free_page fl s =
     (case alloc_scan (mem_map s) PAGING_PAGES of
        None \<Rightarrow> Inl Null_deref
      | Some i \<Rightarrow> Inr (page_va i, took_page i s))"
proof (cases "alloc_scan (mem_map s) PAGING_PAGES")
  case None
  then show ?thesis by (simp add: get_free_page_def alloc_page_def)
next
  case (Some i)
  then have "page_va i \<noteq> 0" using alloc_scan_Some(1) page_va_nonzero by blast
  with Some show ?thesis
    by (simp add: get_free_page_def alloc_page_def page_va_def [symmetric] memset_eq took_page_def
        in_page_def Let_def cong: if_cong)
qed

lemma free_page_eq:
  assumes "i < PAGING_PAGES"
  shows "free_page (page_va i) s =
    Inr (s\<lparr>mem_map := (mem_map s)[i := (mem_map s ! i)\<lparr>pg_count := pg_count (mem_map s ! i) - 1\<rparr>]\<rparr>)"
  using assms by (simp add: free_page_def free_page_desc_def pfn_page_va)

lemma set_page_flags_eq:
  assumes "i < PAGING_PAGES"
  shows "set_page_flags (pa_of (page_va i)) f s =
    Inr (s\<lparr>mem_map := (mem_map s)[i := (mem_map s ! i)\<lparr>pg_flags := f\<rparr>]\<rparr>)"
  using assms by (simp add: set_page_flags_def pfn_page_va)

lemma mm_inv_nth: "mm_inv s \<Longrightarrow> i < PAGING_PAGES \<Longrightarrow> pg_count (mem_map s ! i) = 0 \<or> pg_count (mem_map s ! i) = 1"
  by (auto simp: mm_inv_def)

lemma mm_inv_upd:
  assumes "mm_inv s" "pg_count p = 0 \<or> pg_count p = 1"
  shows "mm_inv (s\<lparr>mem_map := (mem_map s)[i := p], mem := m\<rparr>)"
    and "mm_inv (s\<lparr>mem_map := (mem_map s)[i := p]\<rparr>)"
  using assms by (auto simp: mm_inv_def dest: set_update_subset_insert [THEN subsetD])

lemma used_pages_mem [simp]: "used_pages (s\<lparr>mem := m\<rparr>) = used_pages s"
  by (simp add: used_pages_def)

lemma mm_inv_mem [simp]: "mm_inv (s\<lparr>mem := m\<rparr>) = mm_inv s"
  by (simp add: mm_inv_def)

lemma used_pages_took:
  assumes "length (mem_map s) = PAGING_PAGES" "i < PAGING_PAGES"
  shows "used_pages (took_page i s) = insert (page_va i) (used_pages s)"
  using assms by (auto simp: used_pages_def took_page_def nth_list_update split: if_splits)

lemma used_pages_gave:
  assumes "length (mem_map s) = PAGING_PAGES" "i < PAGING_PAGES"
  shows "used_pages (gave_page i s) = used_pages s - {page_va i}"
proof -
  have "page_va ` {j. j < PAGING_PAGES \<and> j \<noteq> i \<and> pg_count (mem_map s ! j) \<noteq> 0} =
      used_pages s - {page_va i}"
    using assms(2) by (auto simp: used_pages_def page_va_inj)
  moreover have "{j. j < PAGING_PAGES \<and> pg_count (mem_map (gave_page i s) ! j) \<noteq> 0} =
      {j. j < PAGING_PAGES \<and> j \<noteq> i \<and> pg_count (mem_map s ! j) \<noteq> 0}"
    using assms by (auto simp: gave_page_def nth_list_update split: if_splits)
  ultimately show ?thesis by (simp add: used_pages_def)
qed

lemma page_va_used_iff:
  "i < PAGING_PAGES \<Longrightarrow> page_va i \<in> used_pages s \<longleftrightarrow> pg_count (mem_map s ! i) \<noteq> 0"
  by (auto simp: used_pages_def page_va_inj)

text \<open>
  The contract of a page allocator. \<open>pool\<close>: the page addresses it manages; \<open>used s\<close>: those
  handed out; \<open>contents\<close>: the memory.
\<close>

locale page_provider =
  fixes get :: "'s \<Rightarrow> (u64 \<times> 's) res"
    and put :: "u64 \<Rightarrow> 's \<Rightarrow> 's res"
    and contents :: "'s \<Rightarrow> memory"
    and used :: "'s \<Rightarrow> u64 set"
    and good :: "'s \<Rightarrow> bool"
    and pool :: "u64 set"
  assumes pool_disjoint: "p \<in> pool \<Longrightarrow> q \<in> pool \<Longrightarrow> p \<noteq> q \<Longrightarrow> \<not> (in_page p x \<and> in_page q x)"
    and used_pool: "used s \<subseteq> pool"
    and get_law: "good s \<Longrightarrow> used s \<noteq> pool \<Longrightarrow>
      \<exists>p s'. get s = Inr (p, s') \<and> good s' \<and> p \<in> pool - used s \<and> used s' = insert p (used s) \<and>
        (\<forall>x. contents s' x = (if in_page p x then 0 else contents s x))"
    and get_full: "used s = pool \<Longrightarrow> get s = Inl Null_deref"
    and put_law: "good s \<Longrightarrow> p \<in> used s \<Longrightarrow>
      \<exists>s'. put p s = Inr s' \<and> good s' \<and> used s' = used s - {p} \<and> contents s' = contents s"
begin

lemma get_Inr:
  assumes "good s" "get s = Inr (p, s')"
  shows "good s'" and "p \<in> pool - used s" and "used s' = insert p (used s)"
    and "contents s' x = (if in_page p x then 0 else contents s x)"
proof -
  have "used s \<noteq> pool" using assms(2) get_full [of s] by auto
  from get_law [OF assms(1) this] assms(2)
  show "good s'" and "p \<in> pool - used s" and "used s' = insert p (used s)"
    and "contents s' x = (if in_page p x then 0 else contents s x)" by auto
qed

text \<open>A fresh page shares no byte with a page already in use, whose contents it leaves alone.\<close>

lemma get_keeps_used:
  assumes "good s" "get s = Inr (p, s')" "q \<in> used s" "in_page q x"
  shows "contents s' x = contents s x"
proof -
  have "p \<noteq> q" "p \<in> pool" "q \<in> pool"
    using get_Inr(2) [OF assms(1,2)] assms(3) used_pool by auto
  then have "\<not> in_page p x" using pool_disjoint assms(4) by blast
  then show ?thesis using get_Inr(4) [OF assms(1,2)] by simp
qed

lemma get_put_cancel:
  assumes "good s" "used s \<noteq> pool"
  shows "\<exists>p s' s''. get s = Inr (p, s') \<and> put p s' = Inr s'' \<and> good s'' \<and> used s'' = used s"
proof -
  obtain p s' where g: "get s = Inr (p, s')" "good s'" "p \<in> pool - used s" "used s' = insert p (used s)"
    using get_law [OF assms] by blast
  then obtain s'' where "put p s' = Inr s''" "good s''" "used s'' = used s' - {p}"
    using put_law [of s' p] by auto
  then show ?thesis using g by auto
qed

end

interpretation pg: page_provider "get_free_page GFP_KERNEL" free_page mem used_pages mm_inv page_pool
proof (unfold_locales, goal_cases)
  case (1 p q x)
  then show ?case by (rule pages_disjoint)
next
  case (2 s)
  then show ?case by (auto simp: used_pages_def page_pool_def)
next
  case (3 s)
  have "alloc_scan (mem_map s) PAGING_PAGES \<noteq> None"
    using 3(2) by (auto simp: alloc_scan_None used_pages_def page_pool_def)
  then obtain i where i: "alloc_scan (mem_map s) PAGING_PAGES = Some i" by blast
  note ii = alloc_scan_Some [OF i]
  have "used_pages (took_page i s) = insert (page_va i) (used_pages s)"
    using 3(1) ii(1) by (intro used_pages_took) (auto simp: mm_inv_def)
  moreover have "mm_inv (took_page i s)"
    using 3(1) by (simp add: took_page_def mm_inv_upd)
  ultimately show ?case
    using i ii page_va_used_iff [OF ii(1), of s]
    by (auto simp: get_free_page_eq page_pool_def took_page_def)
next
  case (4 s)
  have "pg_count (mem_map s ! i) \<noteq> 0" if "i < PAGING_PAGES" for i
    using 4 that page_va_used_iff [OF that, of s] by (auto simp: page_pool_def)
  then have "alloc_scan (mem_map s) PAGING_PAGES = None" by (simp add: alloc_scan_None)
  then show ?case by (simp add: get_free_page_eq)
next
  case (5 s p)
  obtain i where i: "i < PAGING_PAGES" "p = page_va i" "pg_count (mem_map s ! i) \<noteq> 0"
    using 5(2) by (auto simp: used_pages_def)
  then have "pg_count (mem_map s ! i) = 1" using mm_inv_nth [OF 5(1) i(1)] by simp
  then have "free_page p s = Inr (gave_page i s)"
    using i by (simp add: free_page_eq gave_page_def)
  moreover have "mm_inv (gave_page i s)"
    using 5(1) by (simp add: gave_page_def mm_inv_upd)
  moreover have "used_pages (gave_page i s) = used_pages s - {p}"
    using used_pages_gave [of s i] 5(1) i by (simp add: mm_inv_def)
  ultimately show ?case by (auto simp: gave_page_def)
qed

section \<open>Properties\<close>

text \<open>C28: \<^verbatim>\<open>get_free_page\<close> succeeds while a page is left and then hands out a page nobody holds,
  zeroed, without touching any byte of the pages in use; \<^verbatim>\<open>free_page\<close> of it gives exactly that
  page back. With no page left it runs into the null descriptor that \<^verbatim>\<open>alloc_page\<close> returned.\<close>

theorem get_free_page_contract:
  assumes "mm_inv s"
  shows "if used_pages s = page_pool then get_free_page GFP_KERNEL s = Inl Null_deref
    else \<exists>p s'. get_free_page GFP_KERNEL s = Inr (p, s') \<and> mm_inv s' \<and> p \<in> page_pool - used_pages s \<and>
      used_pages s' = insert p (used_pages s) \<and> (\<forall>x. in_page p x \<longrightarrow> mem s' x = 0) \<and>
      (\<forall>q \<in> used_pages s. \<forall>x. in_page q x \<longrightarrow> mem s' x = mem s x) \<and>
      (\<exists>s''. free_page p s' = Inr s'' \<and> mm_inv s'' \<and> used_pages s'' = used_pages s)"
proof (cases "used_pages s = page_pool")
  case True
  then show ?thesis by (simp add: pg.get_full)
next
  case False
  obtain p s' where g: "get_free_page GFP_KERNEL s = Inr (p, s')" "mm_inv s'" "p \<in> page_pool - used_pages s"
      "used_pages s' = insert p (used_pages s)" "\<forall>x. mem s' x = (if in_page p x then 0 else mem s x)"
    using pg.get_law [OF assms False] by blast
  moreover obtain s'' where "free_page p s' = Inr s''" "mm_inv s''" "used_pages s'' = used_pages s' - {p}"
    using pg.put_law [OF g(2), of p] g(4) by auto
  moreover have "\<forall>q \<in> used_pages s. \<forall>x. in_page q x \<longrightarrow> mem s' x = mem s x"
    using pg.get_keeps_used [OF assms g(1)] by blast
  ultimately show ?thesis using False by auto
qed

text \<open>A state after boot: every descriptor free.\<close>

definition fresh_cpu :: cpu where
  "fresh_cpu = \<lparr>CurrentEL = 4, DAIF = 0x3c0, SPSR_EL1 = 0, ISR_EL1 = 0, RVBAR_EL1 = 0, VBAR_EL1 = 0,
    CNTV_CTL_EL0 = 0, CNTFRQ_EL0 = 0, CNTVCT_EL0 = 0, CNTV_CVAL_EL0 = 0, ttbr0_el1 = 0\<rparr>"

definition fresh_mm :: mm_state where
  "fresh_mm = cpu.extend fresh_cpu
     (mm_state.fields (replicate PAGING_PAGES \<lparr>pg_flags = 0, pg_count = 0, pg_fbh = 0, pg_lru = (0, 0)\<rparr>) (\<lambda>_. 0))"

lemma fresh_mm_inv: "mm_inv fresh_mm" and fresh_mm_used: "used_pages fresh_mm = {}"
  and fresh_mm_mem: "mem fresh_mm = (\<lambda>_. 0)"
  by (simp_all add: fresh_mm_def mm_inv_def used_pages_def mm_state.defs cpu.defs)

theorem get_free_page_contract_witness:
  "\<exists>p s'. get_free_page GFP_KERNEL fresh_mm = Inr (p, s') \<and> used_pages s' = {p}"
proof -
  have "page_va 0 \<in> page_pool" by (simp add: page_pool_def PAGING_PAGES_eq)
  then have "used_pages fresh_mm \<noteq> page_pool" by (auto simp: fresh_mm_used)
  then show ?thesis
    using get_free_page_contract [OF fresh_mm_inv] by (auto simp: fresh_mm_used)
qed

text \<open>The address macros are inverse to each other: \<^verbatim>\<open>__pa\<close> undoes \<^verbatim>\<open>__va\<close> and conversely, and
  for every page descriptor the number computed back from its kernel address is its index.\<close>

theorem address_macros_inverse:
  "pa_of (va_of p) = p \<and> va_of (pa_of v) = v \<and>
   (i < PAGING_PAGES \<longrightarrow> unat (pa_to_pfn (pa_of (va_of (pfn_to_pa (of_nat i))))) = i)"
  using pfn_page_va [of i] by (simp add: page_va_def)

theorem address_macros_inverse_witness:
  "unat (pa_to_pfn (pa_of (va_of (pfn_to_pa (of_nat 7))))) = 7"
  using address_macros_inverse [of 0 0 7] by (simp add: PAGING_PAGES_eq)

end
