(* ===== verification/Kmalloc.thy ===== *)
theory Kmalloc
  imports Mm
begin

text \<open>
  \<^verbatim>\<open>mm/kmalloc.c\<close>: the bucket allocator of the kernel. A bucket serves objects of one size
  (a power of two from 16 to 4096); its chain links descriptors, each of which manages one
  page cut into objects of that size. The free objects of a page form a list whose links are
  stored in the objects themselves, in the byte-addressed memory. The descriptors live in pages
  of their own and are a typed heap: the page that \<^verbatim>\<open>init_bucket_desc\<close> obtains becomes 128
  zeroed descriptors.

  The abstract view is the set of live objects: \<^verbatim>\<open>kmalloc\<close> adds one that overlaps no other,
  \<^verbatim>\<open>free_s\<close> removes it, and neither changes a byte of another live object. The locale
  \<open>object_allocator\<close> states this contract.
\<close>

section \<open>State\<close>

record bucket_desc =
  bd_page :: u64
  bd_next :: u64
  bd_freeptr :: u64
  bd_refcnt :: u16
  bd_bucket_size :: u16

record bucket =
  bk_size :: u32
  bk_chain :: u64

record km_state = mm_state +
  bucket_dir :: "bucket list"
  descs :: "u64 \<rightharpoonup> bucket_desc"
  free_bucket_desc :: u64

text \<open>\<^verbatim>\<open>sizeof(struct bucket_desc)\<close>.\<close>

definition sizeof_bucket_desc :: u64 where "sizeof_bucket_desc = 32"

text \<open>The initial value of \<^verbatim>\<open>bucket_dir\<close>, with its end marker.\<close>

definition bucket_sizes :: "u32 list" where
  "bucket_sizes = [16, 32, 64, 128, 256, 512, 1024, 2048, 4096, 0]"

definition init_bucket_dir :: "bucket list" where
  "init_bucket_dir = map (\<lambda>n. \<lparr>bk_size = n, bk_chain = NULL\<rparr>) bucket_sizes"

section \<open>Descriptors\<close>

definition zero_desc :: bucket_desc where
  "zero_desc = \<lparr>bd_page = 0, bd_next = 0, bd_freeptr = 0, bd_refcnt = 0, bd_bucket_size = 0\<rparr>"

text \<open>A zeroed page seen as an array of descriptors.\<close>

definition desc_page :: "u64 \<Rightarrow> (u64 \<rightharpoonup> bucket_desc) \<Rightarrow> (u64 \<rightharpoonup> bucket_desc)" where
  "desc_page p h =
     (\<lambda>x. if x - p < PAGE_SIZE \<and> (x - p) mod sizeof_bucket_desc = 0 then Some zero_desc else h x)"

definition upd_desc ::
  "u64 \<Rightarrow> (bucket_desc \<Rightarrow> bucket_desc) \<Rightarrow> (u64 \<rightharpoonup> bucket_desc) \<Rightarrow> (u64 \<rightharpoonup> bucket_desc) res" where
  "upd_desc p f h = bindR (deref h p) (\<lambda>d. assign p (f d) h)"

text \<open>The loop of \<^verbatim>\<open>init_bucket_desc\<close>, \<open>n\<close> turns: link each descriptor to the one after it.\<close>

fun link_descs :: "nat \<Rightarrow> u64 \<Rightarrow> (u64 \<rightharpoonup> bucket_desc) \<Rightarrow> (u64 \<times> (u64 \<rightharpoonup> bucket_desc)) res" where
  "link_descs 0 b h = Inr (b, h)"
| "link_descs (Suc n) b h =
     bindR (upd_desc b (\<lambda>d. d\<lparr>bd_next := b + sizeof_bucket_desc\<rparr>) h)
       (link_descs n (b + sizeof_bucket_desc))"

definition init_bucket_desc :: "'a km_state_scheme \<Rightarrow> 'a km_state_scheme res" where
  "init_bucket_desc s =
     bindR (get_free_page GFP_KERNEL s) (\<lambda>(first, s).
     bindR (set_page_flags (pa_of first) PG_kmalloc s) (\<lambda>s.
     bindR (link_descs (unat (PAGE_SIZE div sizeof_bucket_desc) - 1) first (desc_page first (descs s))) (\<lambda>(b, h).
     bindR (upd_desc b (\<lambda>d. d\<lparr>bd_next := free_bucket_desc s\<rparr>) h) (\<lambda>h.
     Inr (s\<lparr>descs := h, free_bucket_desc := first\<rparr>)))))"

section \<open>Allocation\<close>

text \<open>The first bucket whose size is at least \<open>len\<close>, or the end marker.\<close>

fun find_bucket :: "bucket list \<Rightarrow> u32 \<Rightarrow> nat res" where
  "find_bucket [] len = Inl Out_of_bounds"
| "find_bucket (b # bs) len =
     (if bk_size b = 0 \<or> len \<le> bk_size b then Inr 0
      else bindR (find_bucket bs len) (\<lambda>k. Inr (Suc k)))"

definition desc_fuel :: nat where
  "desc_fuel = Suc (2 ^ 64)"

text \<open>The first descriptor of a chain with a free object, or null.\<close>

function find_desc :: "nat \<Rightarrow> (u64 \<rightharpoonup> bucket_desc) \<Rightarrow> u64 \<Rightarrow> u64 res" where
  "find_desc fuel h p =
     (if fuel = 0 then Inl Out_of_fuel
      else if p = NULL then Inr NULL
      else bindR (deref h p) (\<lambda>d.
        if bd_freeptr d \<noteq> NULL then Inr p else find_desc (fuel - 1) h (bd_next d)))"
  by pat_completeness auto
termination by (relation "measure (\<lambda>(fuel, _). fuel)") auto

declare find_desc.simps [simp del]

text \<open>The free list of a new page, \<open>n\<close> links and the final null.\<close>

fun chain_objects :: "nat \<Rightarrow> u64 \<Rightarrow> u64 \<Rightarrow> memory \<Rightarrow> memory" where
  "chain_objects 0 cp sz m = store64 m cp 0"
| "chain_objects (Suc n) cp sz m = chain_objects n (cp + sz) sz (store64 m cp (cp + sz))"

text \<open>
  The branch of \<^verbatim>\<open>kmalloc\<close> for a bucket without free object: a descriptor and a page for it.
  Dividing by the size 0 of the end marker is a fault.
\<close>

definition new_desc :: "nat \<Rightarrow> 'a km_state_scheme \<Rightarrow> (u64 \<times> 'a km_state_scheme) res" where
  "new_desc k s =
     bindR (if free_bucket_desc s = NULL then init_bucket_desc s else Inr s) (\<lambda>s.
     let bdesc = free_bucket_desc s; osize = bk_size (bucket_dir s ! k) in
     bindR (deref (descs s) bdesc) (\<lambda>d.
     let s = s\<lparr>free_bucket_desc := bd_next d\<rparr> in
     bindR (upd_desc bdesc (\<lambda>d. d\<lparr>bd_refcnt := 0, bd_bucket_size := ucast osize\<rparr>) (descs s)) (\<lambda>h.
     let s = s\<lparr>descs := h\<rparr> in
     bindR (get_free_page GFP_KERNEL s) (\<lambda>(cp, s).
     bindR (upd_desc bdesc (\<lambda>d. d\<lparr>bd_page := cp, bd_freeptr := cp\<rparr>) (descs s)) (\<lambda>h.
     let s = s\<lparr>descs := h\<rparr> in
     if osize = 0 then Inl Div_by_zero
     else
       let s = s\<lparr>mem := chain_objects (unat PAGE_SIZE div unat osize - 1) cp (ucast osize) (mem s)\<rparr> in
       bindR (upd_desc bdesc (\<lambda>d. d\<lparr>bd_next := bk_chain (bucket_dir s ! k)\<rparr>) (descs s)) (\<lambda>h.
       Inr (bdesc, s\<lparr>descs := h,
              bucket_dir := (bucket_dir s)[k := (bucket_dir s ! k)\<lparr>bk_chain := bdesc\<rparr>]\<rparr>)))))))"

text \<open>Taking the first free object of a descriptor.\<close>

definition take_object :: "u64 \<Rightarrow> 'a km_state_scheme \<Rightarrow> (u64 \<times> 'a km_state_scheme) res" where
  "take_object bdesc s =
     bindR (deref (descs s) bdesc) (\<lambda>d.
     let retval = bd_freeptr d in
     if retval = NULL then Inl Null_deref
     else bindR (upd_desc bdesc
                  (\<lambda>d. d\<lparr>bd_freeptr := load64 (mem s) retval, bd_refcnt := bd_refcnt d + 1\<rparr>) (descs s)) (\<lambda>h.
          Inr (retval, s\<lparr>descs := h\<rparr>)))"

definition kmalloc :: "u32 \<Rightarrow> 'a km_state_scheme \<Rightarrow> (u64 \<times> 'a km_state_scheme) res" where
  "kmalloc len s =
     bindR (find_bucket (bucket_dir s) len) (\<lambda>k.
     let (irqflag, s) = disable_irqsave s in
     bindR (find_desc desc_fuel (descs s) (bk_chain (bucket_dir s ! k))) (\<lambda>bdesc.
     bindR (if bdesc = NULL then new_desc k s else Inr (bdesc, s)) (\<lambda>(bdesc, s).
     bindR (take_object bdesc s) (\<lambda>(retval, s).
     Inr (retval, enable_irqsave irqflag s)))))"

section \<open>Release\<close>

text \<open>
  The inner search of \<^verbatim>\<open>free_s\<close>: the descriptor of \<open>page\<close> on a chain and the descriptor
  before it (null at the head of the chain).
\<close>

function find_page ::
  "nat \<Rightarrow> (u64 \<rightharpoonup> bucket_desc) \<Rightarrow> u64 \<Rightarrow> u64 \<Rightarrow> u64 \<Rightarrow> (u64 \<times> u64) option res" where
  "find_page fuel h page prev p =
     (if fuel = 0 then Inl Out_of_fuel
      else if p = NULL then Inr None
      else bindR (deref h p) (\<lambda>d.
        if bd_page d = page then Inr (Some (prev, p))
        else find_page (fuel - 1) h page p (bd_next d)))"
  by pat_completeness auto
termination by (relation "measure (\<lambda>(fuel, _). fuel)") auto

declare find_page.simps [simp del]

text \<open>
  The outer search over the buckets: the index of the bucket, the predecessor and the
  descriptor. \<open>sz\<close> is the signed hint; \<^verbatim>\<open>kfree\<close> passes 0.
\<close>

fun search_dir ::
  "(u64 \<rightharpoonup> bucket_desc) \<Rightarrow> u64 \<Rightarrow> u32 \<Rightarrow> bucket list \<Rightarrow> (nat \<times> u64 \<times> u64) option res" where
  "search_dir h page sz [] = Inl Out_of_bounds"
| "search_dir h page sz (b # bs) =
     (if bk_size b = 0 then Inr None
      else bindR (if sint (bk_size b) < sint sz then Inr None
                  else find_page desc_fuel h page NULL (bk_chain b)) (\<lambda>r.
        case r of
          Some (prev, p) \<Rightarrow> Inr (Some (0, prev, p))
        | None \<Rightarrow> bindR (search_dir h page sz bs) (\<lambda>r.
            Inr (map_option (\<lambda>(k, prev, p). (Suc k, prev, p)) r))))"

text \<open>The loop that looks for the predecessor again.\<close>

function find_prev :: "nat \<Rightarrow> (u64 \<rightharpoonup> bucket_desc) \<Rightarrow> u64 \<Rightarrow> u64 \<Rightarrow> u64 res" where
  "find_prev fuel h bdesc p =
     (if fuel = 0 then Inl Out_of_fuel
      else if p = NULL then Inr NULL
      else bindR (deref h p) (\<lambda>d.
        if bd_next d = bdesc then Inr p else find_prev (fuel - 1) h bdesc (bd_next d)))"
  by pat_completeness auto
termination by (relation "measure (\<lambda>(fuel, _). fuel)") auto

declare find_prev.simps [simp del]

text \<open>The branch of \<^verbatim>\<open>free_s\<close> that unlinks a descriptor without live object and frees its page.\<close>

definition release_desc ::
  "nat \<Rightarrow> u64 \<Rightarrow> u64 \<Rightarrow> 'a km_state_scheme \<Rightarrow> 'a km_state_scheme res" where
  "release_desc k prev bdesc s =
     bindR (if prev \<noteq> NULL then bindR (deref (descs s) prev) (\<lambda>d. Inr (bd_next d \<noteq> bdesc))
            else Inr (bk_chain (bucket_dir s ! k) \<noteq> bdesc)) (\<lambda>stale.
     bindR (if stale then find_prev desc_fuel (descs s) bdesc (bk_chain (bucket_dir s ! k)) else Inr prev) (\<lambda>prev.
     bindR (deref (descs s) bdesc) (\<lambda>d.
     bindR (if prev \<noteq> NULL
            then bindR (upd_desc prev (\<lambda>p. p\<lparr>bd_next := bd_next d\<rparr>) (descs s)) (\<lambda>h. Inr (s\<lparr>descs := h\<rparr>))
            else Inr (s\<lparr>bucket_dir := (bucket_dir s)[k := (bucket_dir s ! k)\<lparr>bk_chain := bd_next d\<rparr>]\<rparr>)) (\<lambda>s.
     bindR (set_page_flags (pa_of (bd_page d)) PG_free s) (\<lambda>s.
     bindR (free_page (bd_page d) s) (\<lambda>s.
     bindR (upd_desc bdesc (\<lambda>d. d\<lparr>bd_next := free_bucket_desc s\<rparr>) (descs s)) (\<lambda>h.
     Inr (s\<lparr>descs := h, free_bucket_desc := bdesc\<rparr>))))))))"

text \<open>
  \<^verbatim>\<open>free_s\<close>. When no bucket knows the page the code prints a message and goes on with a
  null (or never assigned) descriptor: a fault.
\<close>

definition free_s :: "u64 \<Rightarrow> u32 \<Rightarrow> 'a km_state_scheme \<Rightarrow> 'a km_state_scheme res" where
  "free_s obj sz s =
     bindR (search_dir (descs s) (obj AND NOT (PAGE_SIZE - 1)) sz (bucket_dir s)) (\<lambda>r.
     case r of
       None \<Rightarrow> Inl Null_deref
     | Some (k, prev, bdesc) \<Rightarrow>
         let (irqflag, s) = disable_irqsave s in
         bindR (deref (descs s) bdesc) (\<lambda>d.
         let s = s\<lparr>mem := store64 (mem s) obj (bd_freeptr d)\<rparr> in
         bindR (upd_desc bdesc (\<lambda>d. d\<lparr>bd_freeptr := obj, bd_refcnt := bd_refcnt d - 1\<rparr>) (descs s)) (\<lambda>h.
         let s = s\<lparr>descs := h\<rparr> in
         bindR (if bd_refcnt d - 1 = 0 then release_desc k prev bdesc s else Inr s) (\<lambda>s.
         Inr (enable_irqsave irqflag s)))))"

definition kfree :: "u64 \<Rightarrow> 'a km_state_scheme \<Rightarrow> 'a km_state_scheme res" where
  "kfree obj s = free_s obj 0 s"

end
