(* ===== verification/Kmalloc_Chains.thy ===== *)
theory Kmalloc_Chains
  imports Kmalloc
begin

text \<open>
  The linked structures of the kernel allocator: null-terminated chains of descriptors and of
  free objects, what the search loops of \<^verbatim>\<open>kmalloc\<close> and \<^verbatim>\<open>free_s\<close> find on them, how a page is cut
  into objects, and the chains that a new page and a new page of descriptors get.
\<close>

section \<open>Null-terminated chains\<close>

fun dchain :: "(u64 \<rightharpoonup> bucket_desc) \<Rightarrow> u64 \<Rightarrow> u64 list \<Rightarrow> bool" where
  "dchain h p [] \<longleftrightarrow> p = NULL"
| "dchain h p (d # ds) \<longleftrightarrow> p = d \<and> d \<noteq> NULL \<and> h d \<noteq> None \<and> dchain h (bd_next (the (h d))) ds"

fun fchain :: "memory \<Rightarrow> u64 \<Rightarrow> u64 list \<Rightarrow> bool" where
  "fchain m p [] \<longleftrightarrow> p = NULL"
| "fchain m p (x # xs) \<longleftrightarrow> p = x \<and> x \<noteq> NULL \<and> fchain m (load64 m x) xs"

text \<open>Membership in a chain, without naming its sequence.\<close>

inductive dreach :: "(u64 \<rightharpoonup> bucket_desc) \<Rightarrow> u64 \<Rightarrow> u64 \<Rightarrow> bool" for h where
  here: "p \<noteq> NULL \<Longrightarrow> dreach h p p"
| step: "p \<noteq> NULL \<Longrightarrow> h p = Some v \<Longrightarrow> dreach h (bd_next v) d \<Longrightarrow> dreach h p d"

inductive freach :: "memory \<Rightarrow> u64 \<Rightarrow> u64 \<Rightarrow> bool" for m where
  here: "p \<noteq> NULL \<Longrightarrow> freach m p p"
| step: "p \<noteq> NULL \<Longrightarrow> freach m (load64 m p) x \<Longrightarrow> freach m p x"

inductive_cases dreach_NULL: "dreach h NULL d"
inductive_cases freach_NULL: "freach m NULL x"

lemma dreach_iff:
  assumes "dchain h p ds"
  shows "dreach h p d \<longleftrightarrow> d \<in> set ds"
proof
  assume "dreach h p d"
  then show "d \<in> set ds"
    using assms
  proof (induction arbitrary: ds rule: dreach.induct)
    case (here p)
    then show ?case by (cases ds) auto
  next
    case (step p v d)
    then show ?case by (cases ds) auto
  qed
next
  show "d \<in> set ds \<Longrightarrow> dreach h p d"
    using assms by (induction ds arbitrary: p) (auto intro: dreach.intros)
qed

lemma freach_iff:
  assumes "fchain m p xs"
  shows "freach m p x \<longleftrightarrow> x \<in> set xs"
proof
  assume "freach m p x"
  then show "x \<in> set xs"
    using assms
  proof (induction arbitrary: xs rule: freach.induct)
    case (here p)
    then show ?case by (cases xs) auto
  next
    case (step p x)
    then show ?case by (cases xs) auto
  qed
next
  show "x \<in> set xs \<Longrightarrow> freach m p x"
    using assms by (induction xs arbitrary: p) (auto intro: freach.intros)
qed

lemma dchain_unique: "dchain h p ds \<Longrightarrow> dchain h p es \<Longrightarrow> ds = es"
  by (induction ds arbitrary: p es) (case_tac es; auto)+

lemma fchain_unique: "fchain m p xs \<Longrightarrow> fchain m p ys \<Longrightarrow> xs = ys"
  by (induction xs arbitrary: p ys) (case_tac ys; auto)+

lemma dchain_suffix: "dchain h p (as @ d # bs) \<Longrightarrow> dchain h d (d # bs)"
  by (induction as arbitrary: p) auto

lemma fchain_suffix: "fchain m p (as @ x # bs) \<Longrightarrow> fchain m x (x # bs)"
  by (induction as arbitrary: p) auto

text \<open>A chain that ends has no node twice.\<close>

lemma dchain_distinct: "dchain h p ds \<Longrightarrow> distinct ds"
proof (rule ccontr)
  assume c: "dchain h p ds" and "\<not> distinct ds"
  then obtain as bs cs d where ds: "ds = as @ d # bs @ d # cs"
    using not_distinct_decomp [of ds] by auto
  have "dchain h d (d # bs @ d # cs)" "dchain h d (d # cs)"
    using c dchain_suffix [of h p as d "bs @ d # cs"] dchain_suffix [of h p "as @ d # bs" d cs]
    by (simp_all add: ds)
  then have "d # bs @ d # cs = d # cs" by (rule dchain_unique)
  then have "length (bs @ d # cs) = length cs" by simp
  then show False by simp
qed

lemma fchain_distinct: "fchain m p xs \<Longrightarrow> distinct xs"
proof (rule ccontr)
  assume c: "fchain m p xs" and "\<not> distinct xs"
  then obtain as bs cs x where xs: "xs = as @ x # bs @ x # cs"
    using not_distinct_decomp [of xs] by auto
  have "fchain m x (x # bs @ x # cs)" "fchain m x (x # cs)"
    using c fchain_suffix [of m p as x "bs @ x # cs"] fchain_suffix [of m p "as @ x # bs" x cs]
    by (simp_all add: xs)
  then have "x # bs @ x # cs = x # cs" by (rule fchain_unique)
  then have "length (bs @ x # cs) = length cs" by simp
  then show False by simp
qed

lemma dchain_nodes: "dchain h p ds \<Longrightarrow> d \<in> set ds \<Longrightarrow> d \<noteq> NULL \<and> h d \<noteq> None"
  by (induction ds arbitrary: p) auto

lemma dchain_length: "dchain h p ds \<Longrightarrow> length ds < desc_fuel"
  using distinct_words_length [OF dchain_distinct] by (fastforce simp: desc_fuel_def)

text \<open>A chain depends only on the links of its nodes.\<close>

lemma dchain_frame:
  assumes "dchain h p ds"
    and "\<And>d. d \<in> set ds \<Longrightarrow> h' d \<noteq> None \<and> bd_next (the (h' d)) = bd_next (the (h d))"
  shows "dchain h' p ds"
  using assms by (induction ds arbitrary: p) auto

lemma fchain_frame:
  assumes "fchain m p xs" "\<And>x. x \<in> set xs \<Longrightarrow> load64 m' x = load64 m x"
  shows "fchain m' p xs"
  using assms by (induction xs arbitrary: p) auto

text \<open>The searches, on the sequence of a chain.\<close>

lemma find_desc_chain:
  assumes "dchain h p ds" "length ds < fuel"
  shows "find_desc fuel h p =
    Inr (case find (\<lambda>d. bd_freeptr (the (h d)) \<noteq> NULL) ds of None \<Rightarrow> NULL | Some d \<Rightarrow> d)"
  using assms
proof (induction ds arbitrary: p fuel)
  case Nil
  then show ?case by (subst find_desc.simps) simp
next
  case (Cons d ds)
  then obtain v where v: "h d = Some v" by auto
  then show ?case
    using Cons.prems Cons.IH [of "bd_next v" "fuel - 1"] by (subst find_desc.simps) auto
qed

lemma find_page_chain:
  assumes "dchain h p (as @ d # bs)" "length (as @ d # bs) < fuel"
    and "bd_page (the (h d)) = page" "\<forall>x \<in> set as. bd_page (the (h x)) \<noteq> page"
  shows "find_page fuel h page prev p = Inr (Some (last (prev # as), d))"
  using assms
proof (induction as arbitrary: p prev fuel)
  case Nil
  then obtain v where "h d = Some v" by auto
  then show ?case using Nil.prems by (subst find_page.simps) auto
next
  case (Cons a as)
  then obtain v where v: "h a = Some v" by auto
  have "find_page (fuel - 1) h page a (bd_next v) = Inr (Some (last (a # as), d))"
    using Cons.prems v by (intro Cons.IH) auto
  then show ?case using Cons.prems v by (subst find_page.simps) auto
qed

lemma find_page_none:
  assumes "dchain h p ds" "length ds < fuel" "\<forall>x \<in> set ds. bd_page (the (h x)) \<noteq> page"
  shows "find_page fuel h page prev p = Inr None"
  using assms
proof (induction ds arbitrary: p prev fuel)
  case Nil
  then show ?case by (subst find_page.simps) simp
next
  case (Cons a ds)
  then obtain v where v: "h a = Some v" by auto
  then show ?case
    using Cons.prems Cons.IH [of "bd_next v" "fuel - 1" a] by (subst find_page.simps) auto
qed

section \<open>Objects of a page\<close>

definition obj_size :: "nat \<Rightarrow> nat" where
  "obj_size k = 16 * 2 ^ k"

definition slot_count :: "nat \<Rightarrow> nat" where
  "slot_count k = 256 div 2 ^ k"

text \<open>The objects of the page \<open>p\<close> of bucket \<open>k\<close>, in address order.\<close>

definition slot_list :: "u64 \<Rightarrow> nat \<Rightarrow> u64 list" where
  "slot_list p k = map (\<lambda>j. p + of_nat (j * obj_size k)) [0..<slot_count k]"

definition in_block :: "u64 \<Rightarrow> nat \<Rightarrow> u64 \<Rightarrow> bool" where
  "in_block x n y \<longleftrightarrow> unat (y - x) < n"

lemma less_9_cases: "k < 9 \<Longrightarrow> k = 0 \<or> k = 1 \<or> k = 2 \<or> k = 3 \<or> k = 4 \<or> k = 5 \<or> k = 6 \<or> k = 7 \<or> k = (8 :: nat)"
  by arith

lemma size_count: "k < 9 \<Longrightarrow> slot_count k * obj_size k = 4096"
  by (drule less_9_cases) (auto simp: slot_count_def obj_size_def)

lemma obj_size_bounds: "16 \<le> obj_size k" "k < 9 \<Longrightarrow> obj_size k \<le> 4096"
proof -
  show "16 \<le> obj_size k" by (simp add: obj_size_def)
  show "k < 9 \<Longrightarrow> obj_size k \<le> 4096"
    by (drule less_9_cases) (auto simp: obj_size_def)
qed

lemma slot_count_bounds: "k < 9 \<Longrightarrow> 0 < slot_count k \<and> slot_count k \<le> 256"
  by (drule less_9_cases) (auto simp: slot_count_def)

lemma obj_size_inj: "obj_size j = obj_size k \<longleftrightarrow> j = k"
  by (simp add: obj_size_def)

lemma bucket_sizes_nth: "k < 9 \<Longrightarrow> unat (bucket_sizes ! k) = obj_size k"
  by (drule less_9_cases) (auto simp: bucket_sizes_def obj_size_def)

lemma slot_offset:
  assumes "k < 9" "j < slot_count k"
  shows "j * obj_size k + obj_size k \<le> 4096"
proof -
  have "(j + 1) * obj_size k \<le> slot_count k * obj_size k"
    using assms(2) by (intro mult_le_mono1) simp
  then show ?thesis using size_count [OF assms(1)] by simp
qed

lemma unat_slot:
  assumes "k < 9" "page_aligned p" "j < slot_count k"
  shows "unat (p + of_nat (j * obj_size k)) = unat p + j * obj_size k"
proof -
  have b: "j * obj_size k < 4096"
    using slot_offset [OF assms(1,3)] obj_size_bounds(1) [of k] by linarith
  then have "unat (of_nat (j * obj_size k) :: u64) = j * obj_size k"
    by (simp only: unat_of_nat) simp
  then show ?thesis using aligned_offset [OF assms(2)] b by simp
qed

lemma slot_listE:
  assumes "x \<in> set (slot_list p k)"
  obtains j where "j < slot_count k" "x = p + of_nat (j * obj_size k)"
  using assms by (auto simp: slot_list_def)

lemma slot_nonzero:
  assumes "k < 9" "p \<in> page_pool" "x \<in> set (slot_list p k)"
  shows "x \<noteq> NULL"
proof -
  obtain j where j: "j < slot_count k" "x = p + of_nat (j * obj_size k)"
    using slot_listE [OF assms(3)] .
  have "unat p \<noteq> 0" using assms(2) by (auto simp: page_pool_def unat_page_va)
  then have "unat x \<noteq> 0"
    using unat_slot [OF assms(1) page_aligned_pool [OF assms(2)] j(1)] j(2) by simp
  then show ?thesis by auto
qed

text \<open>The page of an object, as \<^verbatim>\<open>free_s\<close> computes it.\<close>

lemma page_of_addr:
  fixes x :: u64
  shows "unat (x AND NOT (PAGE_SIZE - 1)) = 4096 * (unat x div 4096)"
proof -
  have m: "PAGE_SIZE - 1 = mask 12" by (simp add: layout_values mask_eq_exp_minus_1)
  have "x AND NOT (mask 12) = push_bit 12 (drop_bit 12 x)"
    by (rule bit_word_eqI) (auto simp: bit_simps)
  moreover have "4096 * (unat x div 4096) < 2 ^ 64"
    using unat_u64_less [of x] by simp
  ultimately show ?thesis
    unfolding m
    by (simp add: push_bit_eq_mult drop_bit_eq_div unat_word_ariths unat_div_distrib)
qed

lemma page_of_slot:
  assumes "k < 9" "page_aligned p" "x \<in> set (slot_list p k)"
  shows "x AND NOT (PAGE_SIZE - 1) = p"
proof -
  obtain j where j: "j < slot_count k" "x = p + of_nat (j * obj_size k)"
    using slot_listE [OF assms(3)] .
  obtain a where a: "unat p = 4096 * a" using page_aligned_obtain [OF assms(2)] .
  have "j * obj_size k < 4096"
    using slot_offset [OF assms(1) j(1)] obj_size_bounds(1) [of k] by linarith
  then have "unat x div 4096 = a"
    using unat_slot [OF assms(1,2) j(1)] j(2) a by simp
  then show ?thesis using a by (simp add: word_unat_eq_iff page_of_addr)
qed

text \<open>The block of an object lies in its page.\<close>

lemma block_in_page:
  assumes "k < 9" "x \<in> set (slot_list p k)" "in_block x (obj_size k) y"
  shows "in_page p y"
proof -
  obtain j where j: "j < slot_count k" "x = p + of_nat (j * obj_size k)"
    using slot_listE [OF assms(2)] .
  let ?o = "j * obj_size k"
  have le: "?o + obj_size k \<le> 4096" using slot_offset [OF assms(1) j(1)] .
  have y: "unat (y - x) < obj_size k" using assms(3) by (simp add: in_block_def)
  have u: "unat (of_nat ?o :: u64) = ?o"
    using le obj_size_bounds(1) [of k] by (simp only: unat_of_nat) simp
  have "y - p = of_nat ?o + (y - x)" using j(2) by simp
  then have "unat (y - p) = (?o + unat (y - x)) mod 2 ^ 64"
    using u by (simp only: unat_word_ariths) simp
  then have "unat (y - p) = ?o + unat (y - x)" using le y by simp
  then show ?thesis using le y by (simp add: in_page_def layout_values word_less_nat_alt)
qed

text \<open>Different objects of a page have disjoint blocks.\<close>

lemma blocks_disjoint:
  assumes "k < 9" "x \<in> set (slot_list p k)" "x' \<in> set (slot_list p k)" "x \<noteq> x'"
    and "in_block x (obj_size k) y"
  shows "\<not> in_block x' (obj_size k) y"
proof
  assume y': "in_block x' (obj_size k) y"
  obtain j j' where j: "j < slot_count k" "x = p + of_nat (j * obj_size k)"
    and j': "j' < slot_count k" "x' = p + of_nat (j' * obj_size k)"
    using slot_listE [OF assms(2)] slot_listE [OF assms(3)] by metis
  have off: "unat (y - p) = i * obj_size k + unat (y - z)"
    if i: "i < slot_count k" "z = p + of_nat (i * obj_size k)" "in_block z (obj_size k) y" for i z
  proof -
    have le: "i * obj_size k + obj_size k \<le> 4096" using slot_offset [OF assms(1) i(1)] .
    have u: "unat (of_nat (i * obj_size k) :: u64) = i * obj_size k"
      using le obj_size_bounds(1) [of k] by (simp only: unat_of_nat) simp
    have "y - p = of_nat (i * obj_size k) + (y - z)" using i(2) by simp
    then have "unat (y - p) = (i * obj_size k + unat (y - z)) mod 2 ^ 64"
      using u by (simp only: unat_word_ariths) simp
    then show ?thesis using le i(3) by (simp add: in_block_def)
  qed
  have "unat (y - p) div obj_size k = j"
    using off [OF j assms(5)] assms(5) by (simp add: in_block_def)
  moreover have "unat (y - p) div obj_size k = j'"
    using off [OF j' y'] y' by (simp add: in_block_def)
  ultimately show False using j(2) j'(2) assms(4) by simp
qed

text \<open>The free list that a new page gets.\<close>

lemma chain_objects_outside:
  assumes "8 \<le> z" "unat cp + Suc n * z < 2 ^ 64" "unat y < unat cp \<or> unat cp + Suc n * z \<le> unat y"
  shows "chain_objects n cp (of_nat z) m y = m y"
  using assms
proof (induction n arbitrary: cp m)
  case 0
  then have "\<not> y - cp < 8" by (auto simp: word_less_nat_alt unat_sub_if')
  then show ?case by (simp add: store64_def)
next
  case (Suc n)
  have zz: "unat (of_nat z :: u64) = z" using Suc.prems(2) by (simp only: unat_of_nat) simp
  have c: "unat (cp + of_nat z) = unat cp + z"
    using Suc.prems(2) zz by (simp only: unat_word_ariths) simp
  have "\<not> y - cp < 8" using Suc.prems by (auto simp: word_less_nat_alt unat_sub_if')
  moreover have "chain_objects n (cp + of_nat z) (of_nat z) m' y = m' y" for m'
    using Suc.prems c by (intro Suc.IH) (auto simp: algebra_simps)
  ultimately show ?case by (simp add: store64_def)
qed

lemma chain_objects_fchain:
  assumes "8 \<le> z" "unat cp + Suc n * z < 2 ^ 64" "0 < unat cp"
  shows "fchain (chain_objects n cp (of_nat z) m) cp (map (\<lambda>j. cp + of_nat (j * z)) [0..<Suc n])"
  using assms
proof (induction n arbitrary: cp m)
  case 0
  then show ?case by auto
next
  case (Suc n)
  have zz: "unat (of_nat z :: u64) = z" using Suc.prems(2) by (simp only: unat_of_nat) simp
  have c: "unat (cp + of_nat z) = unat cp + z"
    using Suc.prems(2) zz by (simp only: unat_word_ariths) simp
  let ?m = "store64 m cp (cp + of_nat z)"
  have "chain_objects n (cp + of_nat z) (of_nat z) ?m (cp + i) = ?m (cp + i)" if "i < 8" for i
  proof (rule chain_objects_outside)
    have "unat (cp + i) = unat cp + unat i"
      using that Suc.prems by (simp only: unat_word_ariths) (simp add: word_less_nat_alt)
    then show "unat (cp + i) < unat (cp + of_nat z) \<or> unat (cp + of_nat z) + Suc n * z \<le> unat (cp + i)"
      using that Suc.prems(1) c by (simp add: word_less_nat_alt)
  qed (use Suc.prems c in simp_all)
  then have "load64 (chain_objects n (cp + of_nat z) (of_nat z) ?m) cp = load64 ?m cp"
    by (rule load64_cong)
  moreover have "fchain (chain_objects n (cp + of_nat z) (of_nat z) ?m) (cp + of_nat z)
      (map (\<lambda>j. cp + of_nat z + of_nat (j * z)) [0..<Suc n])"
    using Suc.prems c by (intro Suc.IH) auto
  moreover have "map (\<lambda>j. cp + of_nat (j * z)) [0..<Suc (Suc n)] =
      cp # map (\<lambda>j. cp + of_nat z + of_nat (j * z)) [0..<Suc n]"
    by (simp add: upt_conv_Cons map_Suc_upt [symmetric] o_def algebra_simps del: upt_Suc)
  ultimately show ?case using Suc.prems(3) by (auto simp del: upt_Suc)
qed

lemma chain_objects_page:
  assumes "k < 9" "p \<in> page_pool"
  shows "fchain (chain_objects (slot_count k - 1) p (of_nat (obj_size k)) m) p (slot_list p k)"
    and "\<not> in_page p y \<Longrightarrow> chain_objects (slot_count k - 1) p (of_nat (obj_size k)) m y = m y"
proof -
  obtain i where i: "i < PAGING_PAGES" "p = page_va i" using assms(2) by (auto simp: page_pool_def)
  have n: "Suc (slot_count k - 1) = slot_count k" using slot_count_bounds [OF assms(1)] by simp
  have t: "Suc (slot_count k - 1) * obj_size k = 4096" using n size_count [OF assms(1)] by simp
  have u: "unat p = 0xffff000000180000 + 4096 * i" using i by (simp add: unat_page_va)
  have b: "unat p + Suc (slot_count k - 1) * obj_size k < 2 ^ 64" "0 < unat p"
    unfolding t u using i(1) by (simp_all add: PAGING_PAGES_eq)
  have z: "8 \<le> obj_size k" using obj_size_bounds(1) [of k] by simp
  show "fchain (chain_objects (slot_count k - 1) p (of_nat (obj_size k)) m) p (slot_list p k)"
    using chain_objects_fchain [OF z b, of m] unfolding n slot_list_def .
  assume "\<not> in_page p y"
  then have "unat y < unat p \<or> unat p + Suc (slot_count k - 1) * obj_size k \<le> unat y"
    unfolding t u using in_page_unat [OF i(1), of y] i(2) by auto
  then show "chain_objects (slot_count k - 1) p (of_nat (obj_size k)) m y = m y"
    by (rule chain_objects_outside [OF z b(1)])
qed

text \<open>The chain of descriptors that \<^verbatim>\<open>init_bucket_desc\<close> makes of a page.\<close>

lemma upd_desc_eq: "h d = Some v \<Longrightarrow> upd_desc d f h = Inr (h(d \<mapsto> f v))"
  by (simp add: upd_desc_def)

definition next_desc :: "u64 \<Rightarrow> bucket_desc \<Rightarrow> bucket_desc" where
  "next_desc x d = d\<lparr>bd_next := x + sizeof_bucket_desc\<rparr>"

lemma link_descs_eq:
  assumes "unat b + 32 * Suc n < 2 ^ 64" "\<forall>j < n. h (b + of_nat (32 * j)) \<noteq> None"
  shows "link_descs n b h = Inr (b + of_nat (32 * n),
    \<lambda>x. if unat b \<le> unat x \<and> unat x < unat b + 32 * n \<and> (unat x - unat b) mod 32 = 0
        then map_option (next_desc x) (h x) else h x)"
  using assms
proof (induction n arbitrary: b h)
  case 0
  then show ?case by (auto simp: fun_eq_iff)
next
  case (Suc n)
  have "h (b + of_nat (32 * 0)) \<noteq> None" using Suc.prems(2) by blast
  then obtain v where v: "h b = Some v" by auto
  let ?h = "h(b \<mapsto> next_desc b v)"
  have c: "unat (b + 32) = unat b + 32"
    using Suc.prems(1) by (simp only: unat_word_ariths) simp
  have ex: "\<forall>j < n. ?h (b + 32 + of_nat (32 * j)) \<noteq> None"
  proof (intro allI impI)
    fix j assume "j < n"
    then have "h (b + of_nat (32 * Suc j)) \<noteq> None" using Suc.prems(2) by blast
    then show "?h (b + 32 + of_nat (32 * j)) \<noteq> None" by (simp add: add.assoc)
  qed
  have IH: "link_descs n (b + 32) ?h = Inr (b + 32 + of_nat (32 * n),
    \<lambda>x. if unat (b + 32) \<le> unat x \<and> unat x < unat (b + 32) + 32 * n \<and> (unat x - unat (b + 32)) mod 32 = 0
        then map_option (next_desc x) (?h x) else ?h x)"
    using Suc.prems(1) c ex by (intro Suc.IH) auto
  have "link_descs (Suc n) b h = link_descs n (b + 32) ?h"
    using v by (simp add: upd_desc_eq sizeof_bucket_desc_def next_desc_def)
  also have "\<dots> = Inr (b + of_nat (32 * Suc n),
    \<lambda>x. if unat b \<le> unat x \<and> unat x < unat b + 32 * Suc n \<and> (unat x - unat b) mod 32 = 0
        then map_option (next_desc x) (h x) else h x)"
  proof -
    have "(if unat (b + 32) \<le> unat x \<and> unat x < unat (b + 32) + 32 * n \<and> (unat x - unat (b + 32)) mod 32 = 0
        then map_option (next_desc x) (?h x) else ?h x) =
      (if unat b \<le> unat x \<and> unat x < unat b + 32 * Suc n \<and> (unat x - unat b) mod 32 = 0
        then map_option (next_desc x) (h x) else h x)" for x
    proof (cases "x = b")
      case True
      then show ?thesis using v c by simp
    next
      case False
      then have ne: "unat x \<noteq> unat b" by (simp add: word_unat_eq_iff)
      have "unat b + 32 \<le> unat x \<and> (unat x - (unat b + 32)) mod 32 = 0 \<longleftrightarrow>
          unat b \<le> unat x \<and> (unat x - unat b) mod 32 = 0"
      proof (cases "unat b + 32 \<le> unat x")
        case True
        then have "unat x - unat b = (unat x - (unat b + 32)) + 32" by simp
        then have "(unat x - unat b) mod 32 = (unat x - (unat b + 32)) mod 32" by (metis mod_add_self2)
        then show ?thesis using True by simp
      next
        case F: False
        then have "unat b \<le> unat x \<Longrightarrow> (unat x - unat b) mod 32 \<noteq> 0" using ne by simp
        then show ?thesis using F by simp
      qed
      then show ?thesis using False unfolding c by auto
    qed
    then show ?thesis unfolding IH by (simp add: add.assoc)
  qed
  finally show ?case .
qed

lemma pool_unat: "p \<in> page_pool \<Longrightarrow> 0 < unat p \<and> unat p + 4096 < 2 ^ 64"
  by (auto simp: page_pool_def unat_page_va PAGING_PAGES_eq)

lemma in_page_offset:
  assumes "j < 128"
  shows "in_page p (p + of_nat (32 * j))"
proof -
  have "unat (of_nat (32 * j) :: u64) = 32 * j"
    using assms by (simp only: unat_of_nat) simp
  then show ?thesis using assms by (simp add: in_page_def layout_values word_less_nat_alt)
qed

lemma unat_desc_slot:
  assumes "p \<in> page_pool" "j < 128"
  shows "unat (p + of_nat (32 * j)) = unat p + 32 * j"
proof -
  have "unat (of_nat (32 * j) :: u64) = 32 * j"
    using assms by (simp only: unat_of_nat) simp
  then show ?thesis
    using aligned_offset [OF page_aligned_pool [OF assms(1)], of "of_nat (32 * j)"] assms(2) by simp
qed

lemma desc_page_slot:
  assumes "j < 128"
  shows "desc_page p h (p + of_nat (32 * j)) = Some zero_desc"
proof -
  have u: "unat (of_nat (32 * j) :: u64) = 32 * j"
    using assms by (simp only: unat_of_nat) simp
  have "(of_nat (32 * j) :: u64) mod 32 = 0"
    by (simp only: word_unat_eq_iff unat_mod_distrib u) simp
  then show ?thesis
    using assms u by (simp add: desc_page_def layout_values sizeof_bucket_desc_def word_less_nat_alt)
qed

lemma link_page:
  assumes "p \<in> page_pool"
  shows "\<exists>h'. bindR (link_descs 127 p (desc_page p h)) (\<lambda>(b, h1). upd_desc b (\<lambda>d. d\<lparr>bd_next := f\<rparr>) h1) = Inr h' \<and>
    (\<forall>j < 127. h' (p + of_nat (32 * j)) = Some (zero_desc\<lparr>bd_next := p + of_nat (32 * Suc j)\<rparr>)) \<and>
    h' (p + of_nat (32 * 127)) = Some (zero_desc\<lparr>bd_next := f\<rparr>) \<and>
    (\<forall>x. \<not> in_page p x \<longrightarrow> h' x = h x)"
proof -
  let ?b = "p + of_nat (32 * 127)"
  let ?h1 = "\<lambda>x. if unat p \<le> unat x \<and> unat x < unat p + 32 * 127 \<and> (unat x - unat p) mod 32 = 0
        then map_option (next_desc x) (desc_page p h x) else desc_page p h x"
  have L: "link_descs 127 p (desc_page p h) = Inr (?b, ?h1)"
    using pool_unat [OF assms] desc_page_slot by (intro link_descs_eq) auto
  have b: "?h1 ?b = Some zero_desc"
    using unat_desc_slot [OF assms, of 127] desc_page_slot [of 127] by simp
  have j: "?h1 (p + of_nat (32 * j)) = Some (zero_desc\<lparr>bd_next := p + of_nat (32 * Suc j)\<rparr>)" if "j < 127" for j
  proof -
    have u: "unat (p + of_nat (32 * j)) = unat p + 32 * j" using unat_desc_slot [OF assms, of j] that by simp
    have d: "desc_page p h (p + of_nat (32 * j)) = Some zero_desc" using that by (intro desc_page_slot) simp
    show ?thesis
      unfolding u d using that by (simp add: next_desc_def sizeof_bucket_desc_def algebra_simps)
  qed
  have ne: "p + of_nat (32 * j) \<noteq> ?b" if "j < 127" for j
  proof -
    have "unat (p + of_nat (32 * j)) \<noteq> unat ?b"
      using unat_desc_slot [OF assms, of j] unat_desc_slot [OF assms, of 127] that by simp
    then show ?thesis by metis
  qed
  have out: "?h1 x = h x" "x \<noteq> ?b" if "\<not> in_page p x" for x
  proof -
    have "desc_page p h x = h x" using that by (simp add: desc_page_def in_page_def)
    moreover have "\<not> (unat p \<le> unat x \<and> unat x < unat p + 32 * 127)"
      using that by (auto simp: in_page_def layout_values word_less_nat_alt unat_sub_if')
    ultimately show "?h1 x = h x" by auto
    show "x \<noteq> ?b" using that in_page_offset [of 127 p] by auto
  qed
  have U: "upd_desc ?b (\<lambda>d. d\<lparr>bd_next := f\<rparr>) ?h1 = Inr (?h1(?b \<mapsto> zero_desc\<lparr>bd_next := f\<rparr>))"
    using b by (rule upd_desc_eq)
  show ?thesis
  proof (intro exI conjI allI impI)
    show "bindR (link_descs 127 p (desc_page p h)) (\<lambda>(b, h1). upd_desc b (\<lambda>d. d\<lparr>bd_next := f\<rparr>) h1) =
        Inr (?h1(?b \<mapsto> zero_desc\<lparr>bd_next := f\<rparr>))"
      unfolding L using U by (simp del: fun_upd_apply)
    show "(?h1(?b \<mapsto> zero_desc\<lparr>bd_next := f\<rparr>)) (p + of_nat (32 * i)) =
        Some (zero_desc\<lparr>bd_next := p + of_nat (32 * Suc i)\<rparr>)" if "i < 127" for i
      using fun_upd_other [OF ne [OF that]] j [OF that] by (simp only: fun_upd_apply ne [OF that] if_False)
    show "(?h1(?b \<mapsto> zero_desc\<lparr>bd_next := f\<rparr>)) ?b = Some (zero_desc\<lparr>bd_next := f\<rparr>)"
      by (simp only: fun_upd_same)
    show "(?h1(?b \<mapsto> zero_desc\<lparr>bd_next := f\<rparr>)) x = h x" if "\<not> in_page p x" for x
      using out [OF that] by (simp only: fun_upd_apply if_False)
  qed
qed

definition desc_slots :: "u64 \<Rightarrow> u64 list" where
  "desc_slots p = map (\<lambda>j. p + of_nat (32 * j)) [0..<128]"

lemma desc_slots_chain:
  assumes "p \<in> page_pool"
    and "\<forall>j < 127. h (p + of_nat (32 * j)) = Some (zero_desc\<lparr>bd_next := p + of_nat (32 * Suc j)\<rparr>)"
    and "h (p + of_nat (32 * 127)) = Some (zero_desc\<lparr>bd_next := f\<rparr>)" "dchain h f ds"
  shows "dchain h p (desc_slots p @ ds)"
proof -
  have nz: "p + of_nat (32 * j) \<noteq> 0" if "j < 128" for j
  proof -
    have "unat (p + of_nat (32 * j)) \<noteq> 0"
      using unat_desc_slot [OF assms(1) that] pool_unat [OF assms(1)] by simp
    then show ?thesis by (metis unat_0)
  qed
  have "dchain h (p + of_nat (32 * i)) (map (\<lambda>j. p + of_nat (32 * j)) [i..<128] @ ds)" if "i \<le> 127" for i
    using that
  proof (induction i rule: inc_induct)
    case base
    have "[127..<128] = [127 :: nat]" by (simp add: upt_rec)
    then show ?case using nz [of 127] assms(3,4) by (simp del: of_nat_mult)
  next
    case (step i)
    have "[i..<128] = i # [Suc i..<128]" using step by (simp add: upt_conv_Cons)
    then show ?case using nz [of i] assms(2) step by (simp del: of_nat_mult mult_Suc_right)
  qed
  from this [of 0] show ?thesis by (simp add: desc_slots_def)
qed

end
