(* ===== verification/Kmalloc_Correct.thy ===== *)
theory Kmalloc_Correct
  imports Kmalloc_Chains
begin

text \<open>
  Correctness of \<^verbatim>\<open>kmalloc\<close> and \<^verbatim>\<open>free_s\<close>: the invariant \<open>km_rel\<close> that ties the chains to the
  pages of the page allocator, its preservation, and the refinement to a set of live objects,
  as an interpretation of the locale \<open>object_allocator\<close>.
\<close>

section \<open>What the page allocator leaves alone\<close>

lemma get_free_page_frame:
  fixes s :: "'a km_state_scheme"
  assumes "get_free_page fl s = Inr (p, s')"
  shows "descs s' = descs s" "bucket_dir s' = bucket_dir s" "free_bucket_desc s' = free_bucket_desc s"
    and "DAIF s' = DAIF s"
  using assms by (auto simp: get_free_page_eq took_page_def split: option.splits)

lemma set_page_flags_law:
  fixes s :: "'a km_state_scheme"
  assumes "mm_inv s" "p \<in> page_pool"
  shows "\<exists>s'. set_page_flags (pa_of p) f s = Inr s' \<and> mm_inv s' \<and> used_pages s' = used_pages s \<and>
    mem s' = mem s \<and> descs s' = descs s \<and> bucket_dir s' = bucket_dir s \<and>
    free_bucket_desc s' = free_bucket_desc s \<and> DAIF s' = DAIF s"
proof -
  obtain i where i: "i < PAGING_PAGES" "p = page_va i" using assms(2) by (auto simp: page_pool_def)
  let ?s = "s\<lparr>mem_map := (mem_map s)[i := (mem_map s ! i)\<lparr>pg_flags := f\<rparr>]\<rparr>"
  have "mm_inv ?s"
    using assms(1) mm_inv_nth [OF assms(1) i(1)] by (intro mm_inv_upd) simp_all
  moreover have "used_pages ?s = used_pages s"
    using assms(1) i(1) by (auto simp: used_pages_def mm_inv_def nth_list_update)
  ultimately show ?thesis using set_page_flags_eq [OF i(1), of f s] i(2) by simp
qed

lemma free_page_law:
  fixes s :: "'a km_state_scheme"
  assumes "mm_inv s" "p \<in> used_pages s"
  shows "\<exists>s'. free_page p s = Inr s' \<and> mm_inv s' \<and> used_pages s' = used_pages s - {p} \<and>
    mem s' = mem s \<and> descs s' = descs s \<and> bucket_dir s' = bucket_dir s \<and>
    free_bucket_desc s' = free_bucket_desc s \<and> DAIF s' = DAIF s"
proof -
  obtain s' where s': "free_page p s = Inr s'" "mm_inv s'" "used_pages s' = used_pages s - {p}" "mem s' = mem s"
    using pg.put_law [OF assms] by blast
  moreover have "descs s' = descs s \<and> bucket_dir s' = bucket_dir s \<and>
      free_bucket_desc s' = free_bucket_desc s \<and> DAIF s' = DAIF s"
    using s'(1) by (auto simp: free_page_def free_page_desc_def split: if_splits)
  ultimately show ?thesis by blast
qed

lemma used_pages_km [simp]:
  fixes s :: "'a km_state_scheme"
  shows "used_pages (s\<lparr>descs := h\<rparr>) = used_pages s" "used_pages (s\<lparr>free_bucket_desc := f\<rparr>) = used_pages s"
    and "used_pages (s\<lparr>bucket_dir := b\<rparr>) = used_pages s"
    and "mm_inv (s\<lparr>descs := h\<rparr>) = mm_inv s" "mm_inv (s\<lparr>free_bucket_desc := f\<rparr>) = mm_inv s"
    and "mm_inv (s\<lparr>bucket_dir := b\<rparr>) = mm_inv s"
  by (simp_all add: used_pages_def mm_inv_def)

lemma used_pages_irq [simp]:
  shows "used_pages (s\<lparr>DAIF := w\<rparr>) = used_pages s" and "mm_inv (s\<lparr>DAIF := w\<rparr>) = mm_inv s"
  by (simp_all add: used_pages_def mm_inv_def)

section \<open>The invariant\<close>

definition desc_of :: "'a km_state_scheme \<Rightarrow> u64 \<Rightarrow> bucket_desc" where
  "desc_of s d = the (descs s d)"

text \<open>
  A descriptor \<open>d\<close> of bucket \<open>k\<close> with free objects \<open>fo\<close>: its page is allocated, the free objects
  are objects of that page, and the reference count counts the others.
\<close>

definition desc_ok :: "'a km_state_scheme \<Rightarrow> nat \<Rightarrow> u64 \<Rightarrow> u64 list \<Rightarrow> bool" where
  "desc_ok s k d fo \<longleftrightarrow>
     bd_page (desc_of s d) \<in> used_pages s \<and> unat (bd_bucket_size (desc_of s d)) = obj_size k \<and>
     fchain (mem s) (bd_freeptr (desc_of s d)) fo \<and> set fo \<subseteq> set (slot_list (bd_page (desc_of s d)) k) \<and>
     unat (bd_refcnt (desc_of s d)) + length fo = slot_count k"

definition busy :: "(nat \<Rightarrow> u64 list) \<Rightarrow> u64 set" where
  "busy C = (\<Union>k<9. set (C k))"

definition obj_pages :: "'a km_state_scheme \<Rightarrow> (nat \<Rightarrow> u64 list) \<Rightarrow> u64 set" where
  "obj_pages s C = (\<lambda>d. bd_page (desc_of s d)) ` busy C"

text \<open>
  \<open>km_rel s C Fd Fo\<close>: bucket \<open>k\<close> has the chain \<open>C k\<close>, the unused descriptors are \<open>Fd\<close>, and
  descriptor \<open>d\<close> has the free objects \<open>Fo d\<close>. Descriptors lie in allocated pages that hold no
  objects, and no two descriptors manage the same page.
\<close>

definition km_rel ::
  "'a km_state_scheme \<Rightarrow> (nat \<Rightarrow> u64 list) \<Rightarrow> u64 list \<Rightarrow> (u64 \<Rightarrow> u64 list) \<Rightarrow> bool" where
  "km_rel s C Fd Fo \<longleftrightarrow>
     mm_inv s \<and> map bk_size (bucket_dir s) = bucket_sizes \<and> C 9 = [] \<and>
     (\<forall>k < 10. dchain (descs s) (bk_chain (bucket_dir s ! k)) (C k)) \<and>
     dchain (descs s) (free_bucket_desc s) Fd \<and> busy C \<inter> set Fd = {} \<and>
     (\<forall>d \<in> busy C \<union> set Fd. \<exists>p \<in> used_pages s. in_page p d \<and> p \<notin> obj_pages s C) \<and>
     (\<forall>k < 9. \<forall>d \<in> set (C k). desc_ok s k d (Fo d)) \<and>
     inj_on (\<lambda>d. bd_page (desc_of s d)) (busy C)"

lemma km_relD:
  assumes "km_rel s C Fd Fo"
  shows "mm_inv s" "map bk_size (bucket_dir s) = bucket_sizes" "C 9 = []"
    and "k < 10 \<Longrightarrow> dchain (descs s) (bk_chain (bucket_dir s ! k)) (C k)"
    and "dchain (descs s) (free_bucket_desc s) Fd" "busy C \<inter> set Fd = {}"
    and "d \<in> busy C \<union> set Fd \<Longrightarrow> \<exists>p \<in> used_pages s. in_page p d \<and> p \<notin> obj_pages s C"
    and "k < 9 \<Longrightarrow> d \<in> set (C k) \<Longrightarrow> desc_ok s k d (Fo d)"
    and "inj_on (\<lambda>d. bd_page (desc_of s d)) (busy C)"
  using assms unfolding km_rel_def by blast+

lemma dir_facts:
  assumes "km_rel s C Fd Fo"
  shows "length (bucket_dir s) = 10" and "k < 9 \<Longrightarrow> unat (bk_size (bucket_dir s ! k)) = obj_size k"
    and "bk_size (bucket_dir s ! 9) = 0"
proof -
  note m = km_relD(2) [OF assms]
  show l: "length (bucket_dir s) = 10"
    using arg_cong [OF m, of length] by (simp add: bucket_sizes_def)
  have n: "bk_size (bucket_dir s ! j) = bucket_sizes ! j" if "j < 10" for j
    using m l that by (metis nth_map)
  show "k < 9 \<Longrightarrow> unat (bk_size (bucket_dir s ! k)) = obj_size k"
    using n bucket_sizes_nth by simp
  show "bk_size (bucket_dir s ! 9) = 0" using n [of 9] by (simp add: bucket_sizes_def)
qed

lemma busyI: "k < 9 \<Longrightarrow> d \<in> set (C k) \<Longrightarrow> d \<in> busy C"
  by (auto simp: busy_def)

lemma busyE:
  assumes "d \<in> busy C"
  obtains k where "k < 9" "d \<in> set (C k)"
  using assms by (auto simp: busy_def)

text \<open>A descriptor belongs to one bucket only: its size tells which.\<close>

lemma one_bucket:
  assumes "km_rel s C Fd Fo" "j < 9" "k < 9" "d \<in> set (C j)" "d \<in> set (C k)"
  shows "j = k"
  using km_relD(8) [OF assms(1)] assms(2-5) by (metis desc_ok_def obj_size_inj)

lemma used_pool_page: "p \<in> used_pages s \<Longrightarrow> p \<in> page_pool"
  using pg.used_pool by blast

lemma fresh_page_apart:
  assumes "p \<in> page_pool - used_pages s" "q \<in> used_pages s" "in_page q x"
  shows "\<not> in_page p x" "p \<noteq> q"
  using assms pages_disjoint used_pool_page by blast+

lemma load64_slot:
  assumes "k < 9" "x \<in> set (slot_list p k)" "\<And>y. in_block x (obj_size k) y \<Longrightarrow> m' y = m y"
  shows "load64 m' x = load64 m x"
proof (rule load64_cong)
  fix i :: u64 assume "i < 8"
  then have "in_block x (obj_size k) (x + i)"
    using obj_size_bounds(1) [of k] by (simp add: in_block_def word_less_nat_alt)
  then show "m' (x + i) = m (x + i)" by (rule assms(3))
qed

lemma desc_ok_frame:
  assumes "desc_ok s k d fo" "k < 9" "descs s' d = descs s d" "bd_page (desc_of s d) \<in> used_pages s'"
    and "\<And>y. in_page (bd_page (desc_of s d)) y \<Longrightarrow> mem s' y = mem s y"
  shows "desc_ok s' k d fo"
proof -
  have e: "desc_of s' d = desc_of s d" using assms(3) by (simp add: desc_of_def)
  have "load64 (mem s') x = load64 (mem s) x" if "x \<in> set fo" for x
  proof (rule load64_slot [OF assms(2)])
    show sl: "x \<in> set (slot_list (bd_page (desc_of s d)) k)"
      using assms(1) that by (auto simp: desc_ok_def)
    show "mem s' y = mem s y" if "in_block x (obj_size k) y" for y
      using assms(5) block_in_page [OF assms(2) sl that] by blast
  qed
  then have "fchain (mem s') (bd_freeptr (desc_of s d)) fo"
    using assms(1) fchain_frame by (auto simp: desc_ok_def)
  then show ?thesis using assms(1,4) unfolding desc_ok_def e by simp
qed

text \<open>What every allocation step keeps: the interrupt mask and the contents of the pages in use.\<close>

definition mem_kept :: "'a km_state_scheme \<Rightarrow> 'a km_state_scheme \<Rightarrow> bool" where
  "mem_kept s s' \<longleftrightarrow> DAIF s' = DAIF s \<and> used_pages s \<subseteq> used_pages s' \<and>
     (\<forall>q \<in> used_pages s. \<forall>y. in_page q y \<longrightarrow> mem s' y = mem s y)"

lemma mem_kept_trans: "mem_kept s s' \<Longrightarrow> mem_kept s' s'' \<Longrightarrow> mem_kept s s''"
  by (auto simp: mem_kept_def subset_iff)

lemma mem_kept_refl [simp]: "mem_kept s s"
  by (simp add: mem_kept_def)

section \<open>More descriptors\<close>

lemma init_bucket_desc_rel:
  assumes R: "km_rel s C Fd Fo" and room: "used_pages s \<noteq> page_pool"
  shows "\<exists>s' Fd' p. init_bucket_desc s = Inr s' \<and> km_rel s' C Fd' Fo \<and> Fd' \<noteq> [] \<and> mem_kept s s' \<and>
    p \<in> page_pool - used_pages s \<and> used_pages s' = insert p (used_pages s) \<and> bucket_dir s' = bucket_dir s \<and>
    (\<forall>d \<in> busy C. descs s' d = descs s d)"
proof -
  note D = km_relD [OF R]
  obtain p s1 where g: "get_free_page GFP_KERNEL s = Inr (p, s1)" "mm_inv s1" "p \<in> page_pool - used_pages s"
      "used_pages s1 = insert p (used_pages s)" "\<forall>x. mem s1 x = (if in_page p x then 0 else mem s x)"
    using pg.get_law [OF D(1) room] by blast
  note gf = get_free_page_frame [OF g(1)]
  have p: "p \<in> page_pool" using g(3) by simp
  obtain s2 where f: "set_page_flags (pa_of p) PG_kmalloc s1 = Inr s2" "mm_inv s2" "used_pages s2 = used_pages s1"
      "mem s2 = mem s1" "descs s2 = descs s1" "bucket_dir s2 = bucket_dir s1"
      "free_bucket_desc s2 = free_bucket_desc s1" "DAIF s2 = DAIF s1"
    using set_page_flags_law [OF g(2) p] by blast
  obtain h where h: "bindR (link_descs 127 p (desc_page p (descs s2)))
        (\<lambda>(b, h1). upd_desc b (\<lambda>d. d\<lparr>bd_next := free_bucket_desc s2\<rparr>) h1) = Inr h"
      "\<forall>j < 127. h (p + of_nat (32 * j)) = Some (zero_desc\<lparr>bd_next := p + of_nat (32 * Suc j)\<rparr>)"
      "h (p + of_nat (32 * 127)) = Some (zero_desc\<lparr>bd_next := free_bucket_desc s2\<rparr>)"
      "\<forall>x. \<not> in_page p x \<longrightarrow> h x = descs s2 x"
    using link_page [OF p, of "descs s2" "free_bucket_desc s2"] by blast
  let ?s' = "s2\<lparr>descs := h, free_bucket_desc := p\<rparr>"
  have n: "unat (PAGE_SIZE div sizeof_bucket_desc) - 1 = 127"
    by (simp add: layout_values sizeof_bucket_desc_def)
  have ex: "init_bucket_desc s = Inr ?s'"
    using g(1) f(1) h(1) unfolding init_bucket_desc_def n by (auto simp: bindR_eq_Inr)
  have out: "h d = descs s d" if "d \<in> busy C \<union> set Fd" for d
  proof -
    obtain q where "q \<in> used_pages s" "in_page q d" using D(7) \<open>d \<in> busy C \<union> set Fd\<close> by blast
    then have "\<not> in_page p d" by (rule fresh_page_apart [OF g(3)])
    then show ?thesis using h(4) f(5) gf(1) by simp
  qed
  have op: "obj_pages ?s' C = obj_pages s C"
    unfolding obj_pages_def by (rule image_cong) (auto simp: desc_of_def out)
  have kept: "mem_kept s ?s'"
    using gf f g(4,5) fresh_page_apart(1) [OF g(3)] by (auto simp: mem_kept_def)
  have ops: "obj_pages s C \<subseteq> used_pages s"
    using D(8) by (auto simp: obj_pages_def desc_ok_def elim!: busyE)
  have "km_rel ?s' C (desc_slots p @ Fd) Fo"
    unfolding km_rel_def
  proof (intro conjI allI impI ballI)
    show "mm_inv ?s'" using f(2) by (simp add: mm_inv_def)
    show "map bk_size (bucket_dir ?s') = bucket_sizes" using D(2) f(6) gf(2) by simp
    show "C 9 = []" by (rule D(3))
    show "dchain (descs ?s') (bk_chain (bucket_dir ?s' ! k)) (C k)" if k: "k < 10" for k
    proof (cases "k = 9")
      case True
      then show ?thesis using D(3) D(4) [OF k] f(6) gf(2) by simp
    next
      case False
      have "dchain (descs s) (bk_chain (bucket_dir s ! k)) (C k)" by (rule D(4) [OF k])
      then have "dchain h (bk_chain (bucket_dir s ! k)) (C k)"
        using dchain_nodes [OF D(4) [OF k]] out busyI [of k _ C] False k by (elim dchain_frame) auto
      then show ?thesis using f(6) gf(2) by simp
    qed
    have "dchain h (free_bucket_desc s2) Fd"
      using D(5) f(7) gf(3) dchain_nodes [OF D(5)] out by (auto elim!: dchain_frame)
    then show "dchain (descs ?s') (free_bucket_desc ?s') (desc_slots p @ Fd)"
      using desc_slots_chain [OF p h(2,3)] by simp
    have fresh: "d \<notin> busy C \<union> set Fd" if "in_page p d" for d
      using D(7) fresh_page_apart(1) [OF g(3)] that by blast
    show "busy C \<inter> set (desc_slots p @ Fd) = {}"
      using D(6) fresh in_page_offset by (auto simp: desc_slots_def)
    show "\<exists>q \<in> used_pages ?s'. in_page q d \<and> q \<notin> obj_pages ?s' C"
      if d: "d \<in> busy C \<union> set (desc_slots p @ Fd)" for d
    proof (cases "d \<in> busy C \<union> set Fd")
      case True
      then show ?thesis using D(7) [OF True] op f(3) g(4) by auto
    next
      case False
      then have "in_page p d" using d in_page_offset by (auto simp: desc_slots_def)
      then show ?thesis using op ops g(3,4) f(3) by auto
    qed
    show "desc_ok ?s' k d (Fo d)" if "k < 9" "d \<in> set (C k)" for k d
    proof (rule desc_ok_frame [OF D(8) [OF that] that(1)])
      have u: "bd_page (desc_of s d) \<in> used_pages s" using D(8) [OF that] by (simp add: desc_ok_def)
      then show "bd_page (desc_of s d) \<in> used_pages ?s'" using f(3) g(4) by simp
      show "descs ?s' d = descs s d" using out busyI [of k d C, OF that] by simp
      show "mem ?s' y = mem s y" if "in_page (bd_page (desc_of s d)) y" for y
        using kept u that unfolding mem_kept_def by blast
    qed
    show "inj_on (\<lambda>d. bd_page (desc_of ?s' d)) (busy C)"
      using D(9) out by (auto simp: inj_on_def desc_of_def)
  qed
  moreover have "desc_slots p @ Fd \<noteq> []" by (simp add: desc_slots_def)
  ultimately show ?thesis
    using ex kept g(3,4) f(3,6) gf(2) out by (intro exI [of _ ?s'] exI [of _ "desc_slots p @ Fd"] exI [of _ p]) simp
qed

section \<open>A new page of objects\<close>

lemma new_desc_run:
  assumes "descs s d = Some v" "free_bucket_desc s = d" "d \<noteq> NULL" "bk_size (bucket_dir s ! k) \<noteq> 0"
    and "get_free_page GFP_KERNEL (s\<lparr>free_bucket_desc := bd_next v,
      descs := (descs s)(d \<mapsto> v\<lparr>bd_refcnt := 0, bd_bucket_size := ucast (bk_size (bucket_dir s ! k))\<rparr>)\<rparr>) = Inr (cp, s1)"
  shows "new_desc k s = Inr (d, s1\<lparr>
     mem := chain_objects (unat PAGE_SIZE div unat (bk_size (bucket_dir s ! k)) - 1) cp
              (ucast (bk_size (bucket_dir s ! k))) (mem s1),
     descs := (descs s)(d \<mapsto> v\<lparr>bd_refcnt := 0, bd_bucket_size := ucast (bk_size (bucket_dir s ! k)),
       bd_page := cp, bd_freeptr := cp, bd_next := bk_chain (bucket_dir s ! k)\<rparr>),
     bucket_dir := (bucket_dir s)[k := (bucket_dir s ! k)\<lparr>bk_chain := d\<rparr>]\<rparr>)"
proof -
  note gf = get_free_page_frame [OF assms(5)]
  show ?thesis
    using assms gf by (simp add: new_desc_def upd_desc_eq Let_def)
qed

lemma new_desc_rel:
  assumes R: "km_rel s C (d # Fd) Fo" and k: "k < 9" and room: "used_pages s \<noteq> page_pool"
  shows "\<exists>s' p. new_desc k s = Inr (d, s') \<and> km_rel s' (C(k := d # C k)) Fd (Fo(d := slot_list p k)) \<and>
    mem_kept s s' \<and> bd_page (desc_of s' d) = p \<and> d \<notin> busy C \<and> (\<forall>e \<in> busy C. descs s' e = descs s e)"
proof -
  note D = km_relD [OF R]
  note dir = dir_facts [OF R]
  let ?z = "bk_size (bucket_dir s ! k)"
  have z: "unat ?z = obj_size k" by (rule dir(2) [OF k])
  have z0: "?z \<noteq> 0" using z obj_size_bounds(1) [of k] by auto
  obtain v where v: "descs s d = Some v" "d \<noteq> NULL" "free_bucket_desc s = d" "dchain (descs s) (bd_next v) Fd"
    using D(5) by auto
  let ?v = "v\<lparr>bd_refcnt := 0, bd_bucket_size := ucast ?z\<rparr>"
  let ?s0 = "s\<lparr>free_bucket_desc := bd_next v, descs := (descs s)(d \<mapsto> ?v)\<rparr>"
  have "mm_inv ?s0" "used_pages ?s0 \<noteq> page_pool" using D(1) room by simp_all
  then obtain p s1 where g: "get_free_page GFP_KERNEL ?s0 = Inr (p, s1)" "mm_inv s1"
      "p \<in> page_pool - used_pages ?s0" "used_pages s1 = insert p (used_pages ?s0)"
      "\<forall>x. mem s1 x = (if in_page p x then 0 else mem ?s0 x)"
    using pg.get_law [of ?s0] by blast
  note gf = get_free_page_frame [OF g(1)]
  have p: "p \<in> page_pool - used_pages s" "p \<in> page_pool" using g(3) by simp_all
  let ?d = "v\<lparr>bd_refcnt := 0, bd_bucket_size := ucast ?z, bd_page := p, bd_freeptr := p,
    bd_next := bk_chain (bucket_dir s ! k)\<rparr>"
  let ?m = "chain_objects (slot_count k - 1) p (of_nat (obj_size k)) (mem s1)"
  let ?s' = "s1\<lparr>mem := ?m, descs := (descs s)(d \<mapsto> ?d),
    bucket_dir := (bucket_dir s)[k := (bucket_dir s ! k)\<lparr>bk_chain := d\<rparr>]\<rparr>"
  have cnt: "unat PAGE_SIZE div unat ?z = slot_count k"
    using size_count [OF k] z obj_size_bounds(1) [of k] by (simp add: layout_values) (metis gr0I nonzero_mult_div_cancel_right not_numeral_le_zero)
  have uz: "(ucast ?z :: u64) = of_nat (obj_size k)" unfolding z [symmetric] by (simp add: of_nat_unat)
  have ex: "new_desc k s = Inr (d, ?s')"
    using new_desc_run [OF v(1,3,2) z0 g(1)] unfolding cnt uz .
  note co = chain_objects_page [OF k p(2), where m = "mem s1"]
  have kept: "mem_kept s ?s'"
    using gf(4) g(4,5) co(2) fresh_page_apart(1) [OF p(1)] by (auto simp: mem_kept_def)
  have dnb: "d \<notin> busy C" and dnf: "d \<notin> set Fd" using D(6) dchain_distinct [OF D(5)] by auto
  have bC: "busy (C(k := d # C k)) = insert d (busy C)"
    using k by (auto simp: busy_def split: if_splits)
  have oth: "desc_of ?s' e = desc_of s e" if "e \<in> busy C" for e
    using that dnb by (auto simp: desc_of_def)
  have dd: "desc_of ?s' d = ?d" by (simp add: desc_of_def)
  have op: "obj_pages ?s' (C(k := d # C k)) = insert p (obj_pages s C)"
    using oth dd unfolding obj_pages_def bC by auto
  have ops: "obj_pages s C \<subseteq> used_pages s"
    using D(8) by (auto simp: obj_pages_def desc_ok_def elim!: busyE)
  have frame: "dchain (descs ?s') q ds" if "dchain (descs s) q ds" "d \<notin> set ds" for q ds
    using that dchain_nodes [OF that(1)] by (auto elim!: dchain_frame)
  have "km_rel ?s' (C(k := d # C k)) Fd (Fo(d := slot_list p k))"
    unfolding km_rel_def
  proof (intro conjI allI impI ballI)
    show "mm_inv ?s'" using g(2) by simp
    have "map bk_size ((bucket_dir s)[k := (bucket_dir s ! k)\<lparr>bk_chain := d\<rparr>]) = map bk_size (bucket_dir s)"
      using dir(1) k by (simp add: map_update list_update_same_conv)
    then show "map bk_size (bucket_dir ?s') = bucket_sizes" using D(2) by simp
    show "(C(k := d # C k)) 9 = []" using D(3) k by simp
    show "dchain (descs ?s') (bk_chain (bucket_dir ?s' ! j)) ((C(k := d # C k)) j)" if j: "j < 10" for j
    proof (cases "j = k")
      case True
      have "dchain (descs ?s') (bk_chain (bucket_dir s ! k)) (C k)"
        using frame [OF D(4) [OF j]] True dnb busyI [of k d C] k by auto
      then show ?thesis using True v(2) k dir(1) by simp
    next
      case False
      have "d \<notin> set (C j)" using dnb busyI [of j d C] D(3) j by (cases "j = 9") auto
      then show ?thesis using frame [OF D(4) [OF j]] False by simp
    qed
    show "dchain (descs ?s') (free_bucket_desc ?s') Fd"
      using frame [OF v(4) dnf] gf(3) by simp
    show "busy (C(k := d # C k)) \<inter> set Fd = {}" using bC D(6) dnf by auto
    show "\<exists>q \<in> used_pages ?s'. in_page q e \<and> q \<notin> obj_pages ?s' (C(k := d # C k))"
      if "e \<in> busy (C(k := d # C k)) \<union> set Fd" for e
    proof -
      have "e \<in> busy C \<union> set (d # Fd)" using that bC by auto
      then obtain q where "q \<in> used_pages s" "in_page q e" "q \<notin> obj_pages s C" using D(7) by blast
      then show ?thesis using op p(1) g(4) by auto
    qed
    show "desc_ok ?s' j e ((Fo(d := slot_list p k)) e)" if j: "j < 9" "e \<in> set ((C(k := d # C k)) j)" for j e
    proof (cases "e = d")
      case True
      then have "j = k" using j dnb busyI [of j d C] by (auto split: if_splits)
      have us: "unat (ucast ?z :: u16) = obj_size k"
        using z obj_size_bounds(2) [OF k] by (simp add: unsigned_ucast_eq take_bit_nat_eq_self)
      show ?thesis
        unfolding True \<open>j = k\<close> desc_ok_def dd
        using co(1) g(4) us slot_count_bounds [OF k] by (simp add: slot_list_def)
    next
      case False
      then have e: "e \<in> set (C j)" using j(2) by (auto split: if_splits)
      note ok = D(8) [OF j(1) e]
      have u: "bd_page (desc_of s e) \<in> used_pages s" using ok by (simp add: desc_ok_def)
      have "desc_ok ?s' j e (Fo e)"
      proof (rule desc_ok_frame [OF ok j(1)])
        show "descs ?s' e = descs s e" using False by simp
        show "bd_page (desc_of s e) \<in> used_pages ?s'" using u g(4) by simp
        show "mem ?s' y = mem s y" if "in_page (bd_page (desc_of s e)) y" for y
          using kept u that unfolding mem_kept_def by blast
      qed
      then show ?thesis using False by simp
    qed
    have "p \<notin> obj_pages s C" using ops p(1) by auto
    then show "inj_on (\<lambda>e. bd_page (desc_of ?s' e)) (busy (C(k := d # C k)))"
      unfolding bC using D(9) oth dd dnb by (auto simp: inj_on_def obj_pages_def)
  qed
  then show ?thesis using ex kept dd dnb by (intro exI [of _ ?s'] exI [of _ p]) auto
qed

section \<open>Taking and returning an object\<close>

lemma chain_desc: "km_rel s C Fd Fo \<Longrightarrow> k < 9 \<Longrightarrow> d \<in> set (C k) \<Longrightarrow> \<exists>v. descs s d = Some v \<and> d \<noteq> NULL"
  using km_relD(4) [of s C Fd Fo k] dchain_nodes by fastforce

lemma km_rel_object:
  assumes R: "km_rel s C Fd Fo" and k: "k < 9" "d \<in> set (C k)" and v: "descs s d = Some v"
    and s': "s' = s\<lparr>mem := m', descs := (descs s)(d \<mapsto> v')\<rparr>"
    and v': "bd_next v' = bd_next v" "bd_page v' = bd_page v"
    and m': "\<And>y. \<not> in_page (bd_page v) y \<Longrightarrow> m' y = mem s y" and ok: "desc_ok s' k d fo"
  shows "km_rel s' C Fd (Fo(d := fo))" and "bd_page (desc_of s' e) = bd_page (desc_of s e)"
proof -
  note D = km_relD [OF R]
  have dv: "desc_of s d = v" using v by (simp add: desc_of_def)
  show pages: "bd_page (desc_of s' e) = bd_page (desc_of s e)" for e
    using v v' s' by (auto simp: desc_of_def)
  have op: "obj_pages s' C = obj_pages s C" by (simp add: obj_pages_def pages)
  have frame: "dchain (descs s') q ds" if "dchain (descs s) q ds" for q ds
    using that v v' dchain_nodes [OF that] s' by (auto elim!: dchain_frame)
  show "km_rel s' C Fd (Fo(d := fo))"
    unfolding km_rel_def
  proof (intro conjI allI impI ballI)
    show "mm_inv s'" using D(1) s' by simp
    show "map bk_size (bucket_dir s') = bucket_sizes" "C 9 = []" "busy C \<inter> set Fd = {}"
      using D s' by auto
    show "dchain (descs s') (bk_chain (bucket_dir s' ! j)) (C j)" if "j < 10" for j
      using frame [OF D(4) [OF that]] s' by simp
    show "dchain (descs s') (free_bucket_desc s') Fd" using frame [OF D(5)] s' by simp
    show "\<exists>p \<in> used_pages s'. in_page p e \<and> p \<notin> obj_pages s' C" if "e \<in> busy C \<union> set Fd" for e
      using D(7) [OF that] op s' by simp
    show "inj_on (\<lambda>e. bd_page (desc_of s' e)) (busy C)" using D(9) by (simp add: pages)
    show "desc_ok s' j e ((Fo(d := fo)) e)" if j: "j < 9" "e \<in> set (C j)" for j e
    proof (cases "e = d")
      case True
      then show ?thesis using one_bucket [OF R j(1) k(1)] j(2) k(2) ok by auto
    next
      case False
      note eok = D(8) [OF j]
      have "desc_ok s' j e (Fo e)"
      proof (rule desc_ok_frame [OF eok j(1)])
        show "descs s' e = descs s e" using False s' by simp
        show "bd_page (desc_of s e) \<in> used_pages s'" using eok s' by (simp add: desc_ok_def)
        fix y assume y: "in_page (bd_page (desc_of s e)) y"
        have "bd_page (desc_of s e) \<noteq> bd_page v"
          using D(9) False busyI [of k d C, OF k] busyI [of j e C, OF j] dv by (metis inj_onD)
        moreover have "bd_page (desc_of s e) \<in> page_pool" "bd_page v \<in> page_pool"
          using eok D(8) [OF k] dv used_pool_page by (auto simp: desc_ok_def)
        ultimately have "\<not> in_page (bd_page v) y" using pages_disjoint y by blast
        then show "mem s' y = mem s y" using m' s' by simp
      qed
      then show ?thesis using False by simp
    qed
  qed
qed

lemma take_object_rel:
  assumes R: "km_rel s C Fd Fo" and k: "k < 9" "d \<in> set (C k)" and fo: "Fo d = x # xs"
  shows "\<exists>s'. take_object d s = Inr (x, s') \<and> km_rel s' C Fd (Fo(d := xs)) \<and> mem_kept s s' \<and>
    used_pages s' = used_pages s \<and> (\<forall>e. bd_page (desc_of s' e) = bd_page (desc_of s e))"
proof -
  obtain v where v: "descs s d = Some v" using chain_desc [OF R k] by blast
  have dv: "desc_of s d = v" using v by (simp add: desc_of_def)
  note ok = km_relD(8) [OF R k, unfolded desc_ok_def fo dv]
  have x: "bd_freeptr v = x" "x \<noteq> NULL" "fchain (mem s) (load64 (mem s) x) xs" using ok by auto
  let ?v = "v\<lparr>bd_freeptr := load64 (mem s) x, bd_refcnt := bd_refcnt v + 1\<rparr>"
  let ?s' = "s\<lparr>mem := mem s, descs := (descs s)(d \<mapsto> ?v)\<rparr>"
  have "unat (bd_refcnt v) + 1 \<le> 256" using ok slot_count_bounds [OF k(1)] by simp
  then have "unat (bd_refcnt v + 1) = unat (bd_refcnt v) + 1" by (simp add: unat_word_ariths)
  then have "desc_ok ?s' k d xs" using ok x(3) by (simp add: desc_ok_def desc_of_def)
  then have "km_rel ?s' C Fd (Fo(d := xs))" "\<forall>e. bd_page (desc_of ?s' e) = bd_page (desc_of s e)"
    using km_rel_object [OF R k v, where s' = ?s' and m' = "mem s" and v' = ?v and fo = xs] by simp_all
  moreover have "take_object d s = Inr (x, ?s')"
    using v x by (simp add: take_object_def upd_desc_eq)
  ultimately show ?thesis by (intro exI [of _ ?s']) (simp add: mem_kept_def)
qed

lemma slot_list_distinct:
  assumes "k < 9" "page_aligned p"
  shows "distinct (slot_list p k)"
proof -
  have "inj_on (\<lambda>j. p + of_nat (j * obj_size k)) {0..<slot_count k}"
  proof (rule inj_onI)
    fix i j assume ij: "i \<in> {0..<slot_count k}" "j \<in> {0..<slot_count k}"
      "p + of_nat (i * obj_size k) = p + (of_nat (j * obj_size k) :: u64)"
    then have "unat p + i * obj_size k = unat p + j * obj_size k"
      using unat_slot [OF assms, of i] unat_slot [OF assms, of j] by simp
    then show "i = j" using obj_size_bounds(1) [of k] by auto
  qed
  then show ?thesis by (simp add: slot_list_def distinct_map)
qed

lemma store64_block:
  assumes "\<not> in_block x (obj_size k) y"
  shows "store64 m x w y = m y"
  using assms obj_size_bounds(1) [of k] by (simp add: store64_def in_block_def word_less_nat_alt)

lemma put_object_rel:
  assumes R: "km_rel s C Fd Fo" and k: "k < 9" "d \<in> set (C k)" and v: "descs s d = Some v"
    and x: "x \<in> set (slot_list (bd_page v) k)" "x \<notin> set (Fo d)"
    and s': "s' = s\<lparr>mem := store64 (mem s) x (bd_freeptr v),
      descs := (descs s)(d \<mapsto> v\<lparr>bd_freeptr := x, bd_refcnt := bd_refcnt v - 1\<rparr>)\<rparr>"
  shows "km_rel s' C Fd (Fo(d := x # Fo d))" and "bd_page (desc_of s' e) = bd_page (desc_of s e)"
proof -
  have dv: "desc_of s d = v" using v by (simp add: desc_of_def)
  note ok = km_relD(8) [OF R k, unfolded desc_ok_def dv]
  have pool: "bd_page v \<in> page_pool" using ok used_pool_page by blast
  have "length (x # Fo d) \<le> length (slot_list (bd_page v) k)"
    using x ok fchain_distinct [of "mem s"] slot_list_distinct [OF k(1) page_aligned_pool [OF pool]]
    by (metis (no_types, lifting) card_mono distinct.simps(2) distinct_card finite_set insert_subset list.simps(15))
  then have "length (Fo d) < slot_count k" by (simp add: slot_list_def)
  then have "1 \<le> unat (bd_refcnt v)" using ok by simp
  then have rc: "unat (bd_refcnt v - 1) + 1 = unat (bd_refcnt v)"
    by (metis le_add_diff_inverse2 not_one_le_zero unat_eq_zero unat_minus_one)
  have ld: "load64 (store64 (mem s) x (bd_freeptr v)) y = load64 (mem s) y" if "y \<in> set (Fo d)" for y
  proof (rule load64_slot [OF k(1)])
    show ys: "y \<in> set (slot_list (bd_page v) k)" using ok that by auto
    show "store64 (mem s) x (bd_freeptr v) z = mem s z" if "in_block y (obj_size k) z" for z
      using blocks_disjoint [OF k(1) ys x(1) _ that] x(2) \<open>y \<in> set (Fo d)\<close> by (metis store64_block)
  qed
  have "fchain (mem s') x (x # Fo d)"
    using ok fchain_frame [OF _ ld, of "bd_freeptr v" "Fo d"] slot_nonzero [OF k(1) pool x(1)] s' by simp
  then have dok: "desc_ok s' k d (x # Fo d)"
    using ok x(1) rc s' by (simp add: desc_ok_def desc_of_def)
  have out: "store64 (mem s) x (bd_freeptr v) y = mem s y" if "\<not> in_page (bd_page v) y" for y
    using block_in_page [OF k(1) x(1)] that by (metis store64_block)
  show "km_rel s' C Fd (Fo(d := x # Fo d))" "bd_page (desc_of s' e) = bd_page (desc_of s e)"
    using km_rel_object [OF R k v s' _ _ out dok] by simp_all
qed

section \<open>Returning a page\<close>

lemma dchain_unlink:
  assumes "dchain h p (as @ a # d # bs)"
  shows "dchain (h(a \<mapsto> (the (h a))\<lparr>bd_next := bd_next (the (h d))\<rparr>)) p (as @ a # bs)"
  using assms dchain_distinct [OF assms]
proof (induction as arbitrary: p)
  case Nil
  let ?h = "h(a \<mapsto> (the (h a))\<lparr>bd_next := bd_next (the (h d))\<rparr>)"
  have c: "dchain h (bd_next (the (h d))) bs" "a \<notin> set bs" using Nil by auto
  have "dchain ?h (bd_next (the (h d))) bs"
    using c dchain_nodes [OF c(1)] by (auto elim!: dchain_frame)
  then show ?case using Nil by (simp del: fun_upd_apply add: fun_upd_same)
next
  case (Cons x as)
  then show ?case by auto
qed

text \<open>The state after the descriptor was unlinked from its bucket, before its page is freed.\<close>

definition unlink_desc :: "nat \<Rightarrow> u64 \<Rightarrow> u64 \<Rightarrow> 'a km_state_scheme \<Rightarrow> 'a km_state_scheme" where
  "unlink_desc k prev d s =
     (if prev \<noteq> NULL
      then s\<lparr>descs := (descs s)(prev \<mapsto> (desc_of s prev)\<lparr>bd_next := bd_next (desc_of s d)\<rparr>)\<rparr>
      else s\<lparr>bucket_dir := (bucket_dir s)[k := (bucket_dir s ! k)\<lparr>bk_chain := bd_next (desc_of s d)\<rparr>]\<rparr>)"

lemma chain_prev:
  assumes R: "km_rel s C Fd Fo" and k: "k < 9" and C: "C k = as @ d # bs"
  defines "prev \<equiv> last (NULL # as)"
  shows "prev \<noteq> NULL \<Longrightarrow> \<exists>v. descs s prev = Some v \<and> bd_next v = d"
    and "prev = NULL \<Longrightarrow> as = [] \<and> bk_chain (bucket_dir s ! k) = d"
    and "prev \<noteq> d"
proof -
  have c: "dchain (descs s) (bk_chain (bucket_dir s ! k)) (as @ d # bs)"
    using km_relD(4) [OF R, of k] k C by simp
  show "\<exists>v. descs s prev = Some v \<and> bd_next v = d" if ne: "prev \<noteq> NULL"
  proof -
    obtain bs' a where as: "as = bs' @ [a]" "prev = a" using ne by (cases as rule: rev_cases) (auto simp: prev_def)
    then have "dchain (descs s) a (a # d # bs)"
      using dchain_suffix [of "descs s" "bk_chain (bucket_dir s ! k)" bs' a "d # bs"] c by simp
    then show ?thesis using as(2) by auto
  qed
  show "as = [] \<and> bk_chain (bucket_dir s ! k) = d" if "prev = NULL"
  proof (cases as rule: rev_cases)
    case Nil
    then show ?thesis using c by simp
  next
    case (snoc bs' a)
    then have "a = NULL" using that by (simp add: prev_def)
    then show ?thesis using dchain_nodes [OF c, of a] snoc by simp
  qed
  show "prev \<noteq> d"
    using dchain_distinct [OF c] dchain_nodes [OF c, of d] by (auto simp: prev_def)
qed

lemma unlink_desc_chains:
  assumes R: "km_rel s C Fd Fo" and k: "k < 9" and C: "C k = as @ d # bs"
  defines "s' \<equiv> unlink_desc k (last (NULL # as)) d s"
  shows "j < 10 \<Longrightarrow> dchain (descs s') (bk_chain (bucket_dir s' ! j)) ((C(k := as @ bs)) j)"
    and "dchain (descs s') (free_bucket_desc s') Fd"
    and "map bk_size (bucket_dir s') = bucket_sizes" "used_pages s' = used_pages s" "mm_inv s' = mm_inv s"
    and "mem s' = mem s" "DAIF s' = DAIF s" "descs s' d = descs s d" "free_bucket_desc s' = free_bucket_desc s"
    and "descs s' e \<noteq> None \<longleftrightarrow> descs s e \<noteq> None"
    and "desc_of s' e = (desc_of s e)\<lparr>bd_next := bd_next (desc_of s' e)\<rparr>"
proof -
  note D = km_relD [OF R] and P = chain_prev [OF R k C] and dir = dir_facts [OF R]
  let ?prev = "last (NULL # as)"
  show "used_pages s' = used_pages s" "mm_inv s' = mm_inv s" "mem s' = mem s" "DAIF s' = DAIF s"
    "free_bucket_desc s' = free_bucket_desc s"
    by (simp_all add: s'_def unlink_desc_def)
  show "descs s' d = descs s d" using P(3) by (auto simp: s'_def unlink_desc_def)
  show "descs s' e \<noteq> None \<longleftrightarrow> descs s e \<noteq> None" using P(1) by (auto simp: s'_def unlink_desc_def)
  show "desc_of s' e = (desc_of s e)\<lparr>bd_next := bd_next (desc_of s' e)\<rparr>"
    using P(1) by (auto simp: s'_def unlink_desc_def desc_of_def)
  have "map bk_size ((bucket_dir s)[k := (bucket_dir s ! k)\<lparr>bk_chain := q\<rparr>]) = map bk_size (bucket_dir s)" for q
    using dir(1) k by (simp add: map_update list_update_same_conv)
  then show "map bk_size (bucket_dir s') = bucket_sizes"
    using D(2) by (simp add: s'_def unlink_desc_def)
  have pb: "?prev \<in> set (C k)" if "?prev \<noteq> NULL"
    using that C by (cases as rule: rev_cases) auto
  have frame: "dchain (descs s') q ds" if "dchain (descs s) q ds" "?prev \<noteq> NULL \<Longrightarrow> ?prev \<notin> set ds" for q ds
    using that dchain_nodes [OF that(1)] by (auto simp: s'_def unlink_desc_def elim!: dchain_frame)
  have "?prev \<noteq> NULL \<Longrightarrow> ?prev \<notin> set Fd" using pb busyI [of k ?prev C] k D(6) by blast
  then have "dchain (descs s') (free_bucket_desc s) Fd" by (rule frame [OF D(5)])
  moreover have "free_bucket_desc s' = free_bucket_desc s" by (simp add: s'_def unlink_desc_def)
  ultimately show "dchain (descs s') (free_bucket_desc s') Fd" by simp
  show "dchain (descs s') (bk_chain (bucket_dir s' ! j)) ((C(k := as @ bs)) j)" if j: "j < 10"
  proof (cases "j = k")
    case True
    have c: "dchain (descs s) (bk_chain (bucket_dir s ! k)) (as @ d # bs)" using D(4) [OF j] True C by simp
    show ?thesis
    proof (cases "?prev = NULL")
      case pn: True
      have as: "as = []" using P(2) [OF pn] by blast
      have "dchain (descs s) (bd_next (desc_of s d)) bs" using c unfolding as by (simp add: desc_of_def)
      then show ?thesis
        using k dir(1) unfolding True s'_def as by (simp add: unlink_desc_def)
    next
      case False
      then obtain as' a where "as = as' @ [a]" by (cases as rule: rev_cases) auto
      then show ?thesis
        using dchain_unlink [of "descs s" "bk_chain (bucket_dir s ! k)" as' a d bs] c True False
        by (simp add: s'_def unlink_desc_def desc_of_def)
    qed
  next
    case False
    have "?prev \<noteq> NULL \<Longrightarrow> ?prev \<notin> set (C j)"
    proof
      assume "?prev \<noteq> NULL" "?prev \<in> set (C j)"
      moreover from this have "j < 9" using j D(3) by (cases "j = 9") auto
      ultimately show False using one_bucket [OF R _ k _ pb] False by blast
    qed
    then show ?thesis using frame [OF D(4) [OF j]] False by (auto simp: s'_def unlink_desc_def)
  qed
qed

lemma release_desc_run:
  assumes R: "km_rel s C Fd Fo" and k: "k < 9" and C: "C k = as @ d # bs"
    and f: "set_page_flags (pa_of (bd_page (desc_of s d))) PG_free (unlink_desc k (last (NULL # as)) d s) = Inr s1"
    and g: "free_page (bd_page (desc_of s d)) s1 = Inr s2" "descs s2 d = descs s d"
  shows "release_desc k (last (NULL # as)) d s =
    Inr (s2\<lparr>descs := (descs s2)(d \<mapsto> (desc_of s d)\<lparr>bd_next := free_bucket_desc s2\<rparr>), free_bucket_desc := d\<rparr>)"
proof -
  note P = chain_prev [OF R k C]
  obtain v where v: "descs s d = Some v" using chain_desc [OF R k, of d] C by auto
  have dv: "desc_of s d = v" using v by (simp add: desc_of_def)
  show ?thesis
  proof (cases "last (NULL # as) = NULL")
    case True
    then show ?thesis
      using P(2) v f g unfolding release_desc_def dv
      by (simp add: unlink_desc_def dv upd_desc_eq del: last.simps)
  next
    case False
    then obtain w where w: "descs s (last (NULL # as)) = Some w" "bd_next w = d" using P(1) by blast
    then show ?thesis
      using False v f g unfolding release_desc_def dv
      by (simp add: unlink_desc_def dv upd_desc_eq desc_of_def del: last.simps)
  qed
qed

lemma release_desc_rel:
  assumes R: "km_rel s C Fd Fo" and k: "k < 9" and C: "C k = as @ d # bs"
  shows "\<exists>s'. release_desc k (last (NULL # as)) d s = Inr s' \<and> km_rel s' (C(k := as @ bs)) (d # Fd) Fo \<and>
    mem s' = mem s \<and> DAIF s' = DAIF s \<and> used_pages s' = used_pages s - {bd_page (desc_of s d)} \<and>
    (\<forall>e. bd_page (desc_of s' e) = bd_page (desc_of s e))"
proof -
  note D = km_relD [OF R]
  define s0 where "s0 = unlink_desc k (last (NULL # as)) d s"
  note U = unlink_desc_chains [OF R k C, folded s0_def]
  have dC: "d \<in> set (C k)" using C by simp
  let ?p = "bd_page (desc_of s d)"
  have p: "?p \<in> used_pages s" using D(8) [OF k dC] by (simp add: desc_ok_def)
  have inv0: "mm_inv s0" using U(5) D(1) by simp
  obtain s1 where f: "set_page_flags (pa_of ?p) PG_free s0 = Inr s1" "mm_inv s1" "used_pages s1 = used_pages s0"
      "mem s1 = mem s0" "descs s1 = descs s0" "bucket_dir s1 = bucket_dir s0"
      "free_bucket_desc s1 = free_bucket_desc s0" "DAIF s1 = DAIF s0"
    using set_page_flags_law [OF inv0 used_pool_page [OF p]] by blast
  have p1: "?p \<in> used_pages s1" using p f(3) U(4) by simp
  obtain s2 where g: "free_page ?p s1 = Inr s2" "mm_inv s2" "used_pages s2 = used_pages s1 - {?p}"
      "mem s2 = mem s1" "descs s2 = descs s1" "bucket_dir s2 = bucket_dir s1"
      "free_bucket_desc s2 = free_bucket_desc s1" "DAIF s2 = DAIF s1"
    using free_page_law [OF f(2) p1] by blast
  let ?s' = "s2\<lparr>descs := (descs s2)(d \<mapsto> (desc_of s d)\<lparr>bd_next := free_bucket_desc s2\<rparr>), free_bucket_desc := d\<rparr>"
  have ex: "release_desc k (last (NULL # as)) d s = Inr ?s'"
    using release_desc_run [OF R k C f(1) [unfolded s0_def] g(1)] g(5) f(5) U(8) by simp
  have d0: "d \<noteq> NULL" using chain_desc [OF R k dC] by blast
  have fields: "desc_of ?s' e = (desc_of s e)\<lparr>bd_next := bd_next (desc_of ?s' e)\<rparr>" for e
    using U(11) [of e] g(5) f(5) by (simp add: desc_of_def)
  have pages: "bd_page (desc_of ?s' e) = bd_page (desc_of s e)" for e
    by (subst fields) simp
  have dist: "distinct (as @ d # bs)" using dchain_distinct D(4) [of k] k C by fastforce
  have bC: "busy (C(k := as @ bs)) = busy C - {d}"
  proof -
    have "d \<notin> set (C j)" if "j < 9" "j \<noteq> k" for j using one_bucket [OF R that(1) k _ dC] that(2) by blast
    then have "set ((C(k := as @ bs)) j) = set (C j) - {d}" if "j < 9" for j
      using that dist C by (cases "j = k") auto
    then show ?thesis by (auto simp: busy_def)
  qed
  have dnf: "d \<notin> set Fd" using D(6) busyI [of k d C, OF k dC] by auto
  have frame: "dchain (descs ?s') q ds" if "dchain (descs s0) q ds" "d \<notin> set ds" for q ds
    using that dchain_nodes [OF that(1)] g(5) f(5) by (auto elim!: dchain_frame)
  have op: "obj_pages ?s' (C(k := as @ bs)) = obj_pages s C - {?p}"
  proof -
    have "(\<lambda>e. bd_page (desc_of s e)) ` (busy C - {d}) = obj_pages s C - {?p}"
      using D(9) busyI [of k d C, OF k dC] by (auto simp: obj_pages_def inj_on_def)
    then show ?thesis by (simp add: obj_pages_def bC pages)
  qed
  have "km_rel ?s' (C(k := as @ bs)) (d # Fd) Fo"
    unfolding km_rel_def
  proof (intro conjI allI impI ballI)
    show "mm_inv ?s'" using g(2) by simp
    show "map bk_size (bucket_dir ?s') = bucket_sizes" using U(3) g(6) f(6) by simp
    show "(C(k := as @ bs)) 9 = []" using D(3) k by simp
    show "dchain (descs ?s') (bk_chain (bucket_dir ?s' ! j)) ((C(k := as @ bs)) j)" if j: "j < 10" for j
    proof -
      have "d \<notin> set ((C(k := as @ bs)) j)"
      proof (cases "j = 9")
        case True
        then show ?thesis using D(3) k by simp
      next
        case False
        then have "j < 9" using j by simp
        moreover have "d \<notin> busy (C(k := as @ bs))" unfolding bC by simp
        ultimately show ?thesis using busyI by blast
      qed
      then show ?thesis using frame [OF U(1) [OF j]] g(6) f(6) by simp
    qed
    show "dchain (descs ?s') (free_bucket_desc ?s') (d # Fd)"
      using frame [OF U(2) dnf] d0 g(7) f(7) U(9) by simp
    show "busy (C(k := as @ bs)) \<inter> set (d # Fd) = {}" using bC D(6) by auto
    show "\<exists>q \<in> used_pages ?s'. in_page q e \<and> q \<notin> obj_pages ?s' (C(k := as @ bs))"
      if "e \<in> busy (C(k := as @ bs)) \<union> set (d # Fd)" for e
    proof -
      have "e \<in> busy C \<union> set Fd" using that bC busyI [of k d C, OF k dC] by auto
      then obtain q where "q \<in> used_pages s" "in_page q e" "q \<notin> obj_pages s C" using D(7) by blast
      moreover have "?p \<in> obj_pages s C" using busyI [of k d C, OF k dC] by (auto simp: obj_pages_def)
      ultimately show ?thesis using op g(3) f(3) U(4) by auto
    qed
    show "inj_on (\<lambda>e. bd_page (desc_of ?s' e)) (busy (C(k := as @ bs)))"
      using D(9) unfolding bC by (simp add: pages inj_on_diff)
    show "desc_ok ?s' j e (Fo e)" if j: "j < 9" "e \<in> set ((C(k := as @ bs)) j)" for j e
    proof -
      have e: "e \<in> busy C" "e \<noteq> d" using busyI [of j e "C(k := as @ bs)", OF j] bC by auto
      have eC: "e \<in> set (C j)" using j(2) C by (auto split: if_splits)
      have "bd_page (desc_of s e) \<noteq> ?p" using D(9) e busyI [of k d C, OF k dC] by (metis inj_onD)
      then have u: "bd_page (desc_of s e) \<in> used_pages ?s'"
        using D(8) [OF j(1) eC] g(3) f(3) U(4) by (simp add: desc_ok_def)
      have eq: "bd_bucket_size (desc_of ?s' e) = bd_bucket_size (desc_of s e)"
        "bd_freeptr (desc_of ?s' e) = bd_freeptr (desc_of s e)" "bd_refcnt (desc_of ?s' e) = bd_refcnt (desc_of s e)"
        by (subst fields, simp)+
      show ?thesis
        using D(8) [OF j(1) eC] u g(4) f(4) U(6) unfolding desc_ok_def pages eq by simp
    qed
  qed
  then show ?thesis
    using ex pages g(3,4,8) f(3,4,8) U(4,6,7) by (intro exI [of _ ?s']) simp
qed

section \<open>Live objects\<close>

text \<open>The objects handed out, each with its size: objects of a bucket page that are not free.\<close>

definition live :: "'a km_state_scheme \<Rightarrow> (u64 \<times> nat) set" where
  "live s = {(x, n). \<exists>k < 9. n = obj_size k \<and>
     (\<exists>d. dreach (descs s) (bk_chain (bucket_dir s ! k)) d \<and> x \<in> set (slot_list (bd_page (desc_of s d)) k) \<and>
        \<not> freach (mem s) (bd_freeptr (desc_of s d)) x)}"

lemma live_iff:
  assumes "km_rel s C Fd Fo"
  shows "(x, n) \<in> live s \<longleftrightarrow> (\<exists>k < 9. n = obj_size k \<and>
    (\<exists>d \<in> set (C k). x \<in> set (slot_list (bd_page (desc_of s d)) k) \<and> x \<notin> set (Fo d)))"
proof -
  have "dreach (descs s) (bk_chain (bucket_dir s ! k)) d \<longleftrightarrow> d \<in> set (C k)" if "k < 9" for k d
    using that km_relD(4) [OF assms, of k] by (intro dreach_iff) simp
  moreover have "freach (mem s) (bd_freeptr (desc_of s d)) x \<longleftrightarrow> x \<in> set (Fo d)" if "k < 9" "d \<in> set (C k)" for k d
    using km_relD(8) [OF assms that] by (intro freach_iff) (simp add: desc_ok_def)
  ultimately show ?thesis unfolding live_def by (simp cong: conj_cong) blast
qed

text \<open>A live object determines its descriptor and its bucket.\<close>

lemma same_page_desc:
  assumes R: "km_rel s C Fd Fo" and "j < 9" "e \<in> set (C j)" "k < 9" "d \<in> set (C k)"
    and "x \<in> set (slot_list (bd_page (desc_of s e)) j)" "x \<in> set (slot_list (bd_page (desc_of s d)) k)"
  shows "e = d \<and> j = k"
proof -
  have al: "page_aligned (bd_page (desc_of s f))" if "i < 9" "f \<in> set (C i)" for i f
    using km_relD(8) [OF R that] used_pool_page page_aligned_pool by (auto simp: desc_ok_def)
  have "bd_page (desc_of s e) = bd_page (desc_of s d)"
    using page_of_slot [OF assms(2) al [OF assms(2,3)] assms(6)] page_of_slot [OF assms(4) al [OF assms(4,5)] assms(7)]
    by simp
  then have "e = d" using km_relD(9) [OF R] busyI assms(2-5) by (metis inj_onD)
  then show ?thesis using one_bucket [OF R assms(2,4)] assms(3,5) by blast
qed

lemma live_disjoint:
  assumes R: "km_rel s C Fd Fo" and "(x, m) \<in> live s" "(y, n) \<in> live s" "x \<noteq> y" "in_block x m z"
  shows "\<not> in_block y n z"
proof
  assume yz: "in_block y n z"
  obtain j e where j: "j < 9" "m = obj_size j" "e \<in> set (C j)" "x \<in> set (slot_list (bd_page (desc_of s e)) j)"
    using assms(2) live_iff [OF R] by auto
  obtain k d where k: "k < 9" "n = obj_size k" "d \<in> set (C k)" "y \<in> set (slot_list (bd_page (desc_of s d)) k)"
    using assms(3) live_iff [OF R] by auto
  have in1: "in_page (bd_page (desc_of s e)) z" using block_in_page [OF j(1,4)] assms(5) j(2) by simp
  have in2: "in_page (bd_page (desc_of s d)) z" using block_in_page [OF k(1,4)] yz k(2) by simp
  have "bd_page (desc_of s e) \<in> page_pool" "bd_page (desc_of s d) \<in> page_pool"
    using km_relD(8) [OF R j(1,3)] km_relD(8) [OF R k(1,3)] used_pool_page by (auto simp: desc_ok_def)
  then have pp: "bd_page (desc_of s e) = bd_page (desc_of s d)" using pages_disjoint in1 in2 by blast
  then have "e = d" using km_relD(9) [OF R] busyI j(1,3) k(1,3) by (metis inj_onD)
  then have "j = k" using one_bucket [OF R j(1) k(1)] j(3) k(3) by blast
  then show False using blocks_disjoint [OF k(1) _ k(4) assms(4)] j(2,4) k(2) pp assms(5) yz by metis
qed

lemma live_functional:
  assumes R: "km_rel s C Fd Fo" and "(x, m) \<in> live s" "(x, n) \<in> live s"
  shows "m = n"
proof -
  obtain j e where j: "j < 9" "m = obj_size j" "e \<in> set (C j)" "x \<in> set (slot_list (bd_page (desc_of s e)) j)"
    using assms(2) live_iff [OF R] by auto
  obtain k d where k: "k < 9" "n = obj_size k" "d \<in> set (C k)" "x \<in> set (slot_list (bd_page (desc_of s d)) k)"
    using assms(3) live_iff [OF R] by auto
  show ?thesis using same_page_desc [OF R j(1,3) k(1,3) j(4) k(4)] j(2) k(2) by simp
qed

lemma live_after_take:
  assumes R: "km_rel s C Fd Fo" and k: "k < 9" "d \<in> set (C k)" and fo: "Fo d = x # xs"
    and R': "km_rel s' C Fd (Fo(d := xs))" and pages: "\<forall>e. bd_page (desc_of s' e) = bd_page (desc_of s e)"
  shows "live s' = insert (x, obj_size k) (live s)" and "(x, n) \<notin> live s"
proof -
  have ok: "desc_ok s k d (x # xs)" using km_relD(8) [OF R k] fo by simp
  have x: "x \<in> set (slot_list (bd_page (desc_of s d)) k)" "x \<notin> set xs"
    using ok fchain_distinct [of "mem s" _ "x # xs"] by (auto simp: desc_ok_def)
  show nl: "(x, n) \<notin> live s" for n
  proof
    assume "(x, n) \<in> live s"
    then obtain j e where j: "j < 9" "e \<in> set (C j)" "x \<in> set (slot_list (bd_page (desc_of s e)) j)" "x \<notin> set (Fo e)"
      using live_iff [OF R] by auto
    then have "e = d" using same_page_desc [OF R j(1,2) k j(3) x(1)] by blast
    then show False using j(4) fo by simp
  qed
  have "(y, n) \<in> live s' \<longleftrightarrow> (y, n) \<in> insert (x, obj_size k) (live s)" for y n
  proof (cases "y = x")
    case True
    have "(x, n) \<in> live s' \<longleftrightarrow> n = obj_size k"
    proof
      assume "(x, n) \<in> live s'"
      then obtain j e where j: "j < 9" "n = obj_size j" "e \<in> set (C j)" "x \<in> set (slot_list (bd_page (desc_of s e)) j)"
        using live_iff [OF R'] pages by auto
      then show "n = obj_size k" using same_page_desc [OF R j(1,3) k j(4) x(1)] by blast
    next
      assume "n = obj_size k"
      then show "(x, n) \<in> live s'" using live_iff [OF R', of x n] pages k x by auto
    qed
    then show ?thesis using True nl by auto
  next
    case False
    have "y \<in> set ((Fo(d := xs)) e) \<longleftrightarrow> y \<in> set (Fo e)" for e using False fo by auto
    then show ?thesis using False live_iff [OF R, of y n] live_iff [OF R', of y n] pages by auto
  qed
  then show "live s' = insert (x, obj_size k) (live s)" by auto
qed

text \<open>A new page with all its objects free changes no live object.\<close>

lemma live_after_new:
  assumes R: "km_rel s C Fd Fo" and R': "km_rel s' (C(k := d # C k)) Fd' (Fo(d := slot_list p k))"
    and "k < 9" "bd_page (desc_of s' d) = p" "\<forall>e \<in> busy C. descs s' e = descs s e" "d \<notin> busy C"
  shows "live s' = live s"
proof -
  have eq: "desc_of s' e = desc_of s e" if "e \<in> busy C" for e using assms(5) that by (simp add: desc_of_def)
  have "(y, n) \<in> live s' \<longleftrightarrow> (y, n) \<in> live s" for y n
  proof -
    have "(\<exists>e \<in> set ((C(k := d # C k)) j). y \<in> set (slot_list (bd_page (desc_of s' e)) j) \<and>
          y \<notin> set ((Fo(d := slot_list p k)) e)) \<longleftrightarrow>
        (\<exists>e \<in> set (C j). y \<in> set (slot_list (bd_page (desc_of s e)) j) \<and> y \<notin> set (Fo e))" if "j < 9" for j
    proof -
      have b: "e \<in> busy C" if "e \<in> set (C j)" for e using busyI [of j e C] \<open>j < 9\<close> that by blast
      have ne: "e \<noteq> d" if "e \<in> set (C j)" for e using b [OF that] assms(6) by blast
      have "(\<exists>e \<in> set (C j). y \<in> set (slot_list (bd_page (desc_of s' e)) j) \<and>
          y \<notin> set ((Fo(d := slot_list p k)) e)) \<longleftrightarrow>
        (\<exists>e \<in> set (C j). y \<in> set (slot_list (bd_page (desc_of s e)) j) \<and> y \<notin> set (Fo e))"
        using eq b ne by (intro bex_cong) auto
      then show ?thesis using assms(4) by (cases "j = k") auto
    qed
    then show ?thesis unfolding live_iff [OF R] live_iff [OF R'] by blast
  qed
  then show ?thesis by auto
qed

section \<open>\<^verbatim>\<open>kmalloc\<close>\<close>

lemma km_DAIF [simp]:
  "km_rel (s\<lparr>DAIF := w\<rparr>) C Fd Fo = km_rel s C Fd Fo" "live (s\<lparr>DAIF := w\<rparr>) = live s"
  "desc_of (s\<lparr>DAIF := w\<rparr>) d = desc_of s d"
  by (simp_all add: km_rel_def desc_ok_def desc_of_def obj_pages_def live_def)

lemma km_enable_irqsave [simp]:
  "km_rel (enable_irqsave f s) C Fd Fo = km_rel s C Fd Fo" "live (enable_irqsave f s) = live s"
  "mem (enable_irqsave f s) = mem s" "used_pages (enable_irqsave f s) = used_pages s"
  by (simp_all add: enable_irqsave_def msr_DAIFClr_def)

lemma km_disable_irqsave [simp]:
  "km_rel (snd (disable_irqsave s)) C Fd Fo = km_rel s C Fd Fo" "live (snd (disable_irqsave s)) = live s"
  "mem (snd (disable_irqsave s)) = mem s" "used_pages (snd (disable_irqsave s)) = used_pages s"
  "descs (snd (disable_irqsave s)) = descs s" "bucket_dir (snd (disable_irqsave s)) = bucket_dir s"
  by (simp_all add: disable_irqsave_def msr_DAIFSet_def)

lemma find_bucket_nth:
  "j < length bs \<Longrightarrow> bk_size (bs ! j) = 0 \<or> len \<le> bk_size (bs ! j) \<Longrightarrow>
   \<exists>k \<le> j. find_bucket bs len = Inr k \<and> (bk_size (bs ! k) = 0 \<or> len \<le> bk_size (bs ! k)) \<and>
     (\<forall>i < k. bk_size (bs ! i) \<noteq> 0 \<and> \<not> len \<le> bk_size (bs ! i))"
proof (induction bs arbitrary: j)
  case Nil
  then show ?case by simp
next
  case (Cons b bs)
  show ?case
  proof (cases "bk_size b = 0 \<or> len \<le> bk_size b")
    case True
    then show ?thesis by (intro exI [of _ 0]) auto
  next
    case False
    then obtain i where i: "j = Suc i" using Cons.prems by (cases j) auto
    then obtain k where "k \<le> i" "find_bucket bs len = Inr k" "bk_size (bs ! k) = 0 \<or> len \<le> bk_size (bs ! k)"
        "\<forall>i < k. bk_size (bs ! i) \<noteq> 0 \<and> \<not> len \<le> bk_size (bs ! i)"
      using Cons.IH [of i] Cons.prems by auto
    then show ?thesis using False i
      by (intro exI [of _ "Suc k"]) (auto simp: less_Suc_eq_0_disj)
  qed
qed

lemma find_bucket_fits:
  assumes R: "km_rel s C Fd Fo" and "len \<le> 4096"
  shows "\<exists>k < 9. find_bucket (bucket_dir s) len = Inr k \<and> unat len \<le> obj_size k"
proof -
  note dir = dir_facts [OF R]
  have "unat (bk_size (bucket_dir s ! 8)) = 4096" using dir(2) [of 8] by (simp add: obj_size_def)
  then have "len \<le> bk_size (bucket_dir s ! 8)" using assms(2) by (simp add: word_le_nat_alt)
  then obtain k where k: "k \<le> 8" "find_bucket (bucket_dir s) len = Inr k"
      "bk_size (bucket_dir s ! k) = 0 \<or> len \<le> bk_size (bucket_dir s ! k)"
    using find_bucket_nth [of 8 "bucket_dir s" len] dir(1) by auto
  have "unat (bk_size (bucket_dir s ! k)) = obj_size k" using dir(2) [of k] k(1) by simp
  moreover have "bk_size (bucket_dir s ! k) \<noteq> 0" using calculation obj_size_bounds(1) [of k] by auto
  ultimately show ?thesis using k by (intro exI [of _ k]) (auto simp: word_le_nat_alt)
qed

lemma room_card: "Suc n \<le> card (page_pool - used_pages s) \<Longrightarrow> used_pages s \<noteq> page_pool"
  by auto

lemma card_pool_insert:
  assumes "p \<in> page_pool - used_pages s"
  shows "Suc (card (page_pool - insert p (used_pages s))) = card (page_pool - used_pages s)"
proof -
  have "page_pool - insert p (used_pages s) = (page_pool - used_pages s) - {p}" by auto
  moreover have "finite page_pool" by (simp add: page_pool_def)
  ultimately show ?thesis using card_Suc_Diff1 [of "page_pool - used_pages s" p] assms by simp
qed

lemma new_desc_full:
  assumes R: "km_rel s C Fd Fo" and k: "k < 9" and room: "2 \<le> card (page_pool - used_pages s)"
  shows "\<exists>d s' p Fd'. new_desc k s = Inr (d, s') \<and> km_rel s' (C(k := d # C k)) Fd' (Fo(d := slot_list p k)) \<and>
    mem_kept s s' \<and> live s' = live s"
proof (cases Fd)
  case (Cons d Fd')
  obtain s' p where n: "new_desc k s = Inr (d, s')" "km_rel s' (C(k := d # C k)) Fd' (Fo(d := slot_list p k))"
      "mem_kept s s'" "bd_page (desc_of s' d) = p" "d \<notin> busy C" "\<forall>e \<in> busy C. descs s' e = descs s e"
    using new_desc_rel [OF R [unfolded Cons] k] room by fastforce
  show ?thesis using n live_after_new [OF R n(2) k n(4,6,5)] by blast
next
  case Nil
  have f: "free_bucket_desc s = NULL" using km_relD(5) [OF R] Nil by simp
  obtain s1 Fd1 q where i: "init_bucket_desc s = Inr s1" "km_rel s1 C Fd1 Fo" "Fd1 \<noteq> []" "mem_kept s s1"
      "q \<in> page_pool - used_pages s" "used_pages s1 = insert q (used_pages s)" "bucket_dir s1 = bucket_dir s"
      "\<forall>d \<in> busy C. descs s1 d = descs s d"
    using init_bucket_desc_rel [OF R] room room_card [of 1] by fastforce
  obtain d Fd' where d: "Fd1 = d # Fd'" using i(3) by (cases Fd1) auto
  have fb: "free_bucket_desc s1 \<noteq> NULL" using km_relD(5) [OF i(2)] d by auto
  have run: "new_desc k s = new_desc k s1" using f fb i(1) by (simp add: new_desc_def)
  have room1: "used_pages s1 \<noteq> page_pool"
    using card_pool_insert [OF i(5)] room i(6) by auto
  obtain s' p where n: "new_desc k s1 = Inr (d, s')" "km_rel s' (C(k := d # C k)) Fd' (Fo(d := slot_list p k))"
      "mem_kept s1 s'" "bd_page (desc_of s' d) = p" "d \<notin> busy C" "\<forall>e \<in> busy C. descs s' e = descs s1 e"
    using new_desc_rel [OF i(2) [unfolded d] k room1] by blast
  have e: "\<forall>e \<in> busy C. descs s' e = descs s e" using n(6) i(8) by simp
  show ?thesis
    using run n mem_kept_trans [OF i(4) n(3)] live_after_new [OF R n(2) k n(4) e n(5)] by metis
qed

lemma kmalloc_run:
  assumes "find_bucket (bucket_dir s) len = Inr k" "s0 = snd (disable_irqsave s)"
    and "find_desc desc_fuel (descs s0) (bk_chain (bucket_dir s0 ! k)) = Inr q"
    and "(if q = NULL then new_desc k s0 else Inr (q, s0)) = Inr (d, s1)" "take_object d s1 = Inr (x, s2)"
  shows "kmalloc len s = Inr (x, enable_irqsave (fst (disable_irqsave s)) s2)"
proof -
  obtain f where "disable_irqsave s = (f, s0)" using assms(2) by (cases "disable_irqsave s") simp
  then show ?thesis using assms(1,3-5) by (cases "q = NULL") (simp_all add: kmalloc_def)
qed

lemma kmalloc_rel:
  assumes R: "km_rel s C Fd Fo" and len: "len \<le> 4096" and room: "2 \<le> card (page_pool - used_pages s)"
  shows "\<exists>x n s' C' Fd' Fo'. kmalloc len s = Inr (x, s') \<and> km_rel s' C' Fd' Fo' \<and> unat len \<le> n \<and>
    live s' = insert (x, n) (live s) \<and> (\<forall>m. (x, m) \<notin> live s) \<and> mem_kept s s' \<and> x \<noteq> NULL"
proof -
  obtain k where k: "k < 9" "find_bucket (bucket_dir s) len = Inr k" "unat len \<le> obj_size k"
    using find_bucket_fits [OF R len] by blast
  define s0 where "s0 = snd (disable_irqsave s)"
  have R0: "km_rel s0 C Fd Fo" and room0: "2 \<le> card (page_pool - used_pages s0)" and l0: "live s0 = live s"
    using R room by (simp_all add: s0_def)
  have c: "dchain (descs s0) (bk_chain (bucket_dir s0 ! k)) (C k)" using km_relD(4) [OF R0, of k] k(1) by simp
  let ?r = "find (\<lambda>d. bd_freeptr (the (descs s0 d)) \<noteq> NULL) (C k)"
  have fd: "find_desc desc_fuel (descs s0) (bk_chain (bucket_dir s0 ! k)) = Inr (case ?r of None \<Rightarrow> NULL | Some d \<Rightarrow> d)"
    by (rule find_desc_chain [OF c dchain_length [OF c]])
  have "\<exists>d s1 C1 Fd1 Fo1. (if (case ?r of None \<Rightarrow> NULL | Some d \<Rightarrow> d) = NULL then new_desc k s0
        else Inr (case ?r of None \<Rightarrow> NULL | Some d \<Rightarrow> d, s0)) = Inr (d, s1) \<and> km_rel s1 C1 Fd1 Fo1 \<and>
      d \<in> set (C1 k) \<and> Fo1 d \<noteq> [] \<and> mem_kept s0 s1 \<and> live s1 = live s0"
  proof (cases ?r)
    case None
    obtain d s1 p Fd' where n: "new_desc k s0 = Inr (d, s1)" "km_rel s1 (C(k := d # C k)) Fd' (Fo(d := slot_list p k))"
        "mem_kept s0 s1" "live s1 = live s0"
      using new_desc_full [OF R0 k(1) room0] by blast
    then show ?thesis
      using None slot_count_bounds [OF k(1)]
      by (intro exI [of _ d] exI [of _ s1] exI [of _ "C(k := d # C k)"] exI [of _ Fd']
          exI [of _ "Fo(d := slot_list p k)"]) (simp add: slot_list_def)
  next
    case (Some d)
    then have d: "d \<in> set (C k)" "bd_freeptr (the (descs s0 d)) \<noteq> NULL"
      by (auto simp: find_Some_iff)
    then have "d \<noteq> NULL" "Fo d \<noteq> []"
      using dchain_nodes [OF c] km_relD(8) [OF R0 k(1) d(1)] by (auto simp: desc_ok_def desc_of_def)
    then show ?thesis using Some d(1) R0
      by (intro exI [of _ d] exI [of _ s0] exI [of _ C] exI [of _ Fd] exI [of _ Fo]) simp
  qed
  then obtain d s1 C1 Fd1 Fo1 where b: "(if (case ?r of None \<Rightarrow> NULL | Some d \<Rightarrow> d) = NULL then new_desc k s0
        else Inr (case ?r of None \<Rightarrow> NULL | Some d \<Rightarrow> d, s0)) = Inr (d, s1)" "km_rel s1 C1 Fd1 Fo1"
      "d \<in> set (C1 k)" "Fo1 d \<noteq> []" "mem_kept s0 s1" "live s1 = live s0"
    by blast
  obtain x xs where x: "Fo1 d = x # xs" using b(4) by (cases "Fo1 d") auto
  obtain s2 where t: "take_object d s1 = Inr (x, s2)" "km_rel s2 C1 Fd1 (Fo1(d := xs))" "mem_kept s1 s2"
      "\<forall>e. bd_page (desc_of s2 e) = bd_page (desc_of s1 e)"
    using take_object_rel [OF b(2) k(1) b(3) x] by blast
  note L = live_after_take [OF b(2) k(1) b(3) x t(2,4)]
  let ?s' = "enable_irqsave (fst (disable_irqsave s)) s2"
  have run: "kmalloc len s = Inr (x, ?s')"
    by (rule kmalloc_run [OF k(2) s0_def fd b(1) t(1)])
  have "mem_kept s0 s2" using b(5) t(3) by (rule mem_kept_trans)
  then have "mem_kept s ?s'"
    using enable_irqsave_restores [of s2 s] by (simp add: mem_kept_def s0_def)
  moreover have "live ?s' = insert (x, obj_size k) (live s)" "\<forall>m. (x, m) \<notin> live s"
    using L b(6) l0 by simp_all
  moreover have "x \<noteq> NULL"
    using km_relD(8) [OF b(2) k(1) b(3)] x by (auto simp: desc_ok_def)
  ultimately show ?thesis
    using run t(2) k(3)
    by (intro exI [of _ x] exI [of _ "obj_size k"] exI [of _ ?s'] exI [of _ C1] exI [of _ Fd1] exI [of _ "Fo1(d := xs)"])
      simp
qed

section \<open>\<^verbatim>\<open>free_s\<close>\<close>

lemma search_dir_nth:
  assumes "k < length bs" "\<forall>j \<le> k. bk_size (bs ! j) \<noteq> 0 \<and> \<not> sint (bk_size (bs ! j)) < sint sz"
    and "\<forall>j < k. find_page desc_fuel h page NULL (bk_chain (bs ! j)) = Inr None"
    and "find_page desc_fuel h page NULL (bk_chain (bs ! k)) = Inr (Some (prev, p))"
  shows "search_dir h page sz bs = Inr (Some (k, prev, p))"
  using assms
proof (induction bs arbitrary: k)
  case Nil
  then show ?case by simp
next
  case (Cons b bs)
  have b: "bk_size b \<noteq> 0" "\<not> sint (bk_size b) < sint sz" using Cons.prems(2) by (auto dest!: spec [of _ 0])
  show ?case
  proof (cases k)
    case 0
    then show ?thesis using Cons.prems(4) b by simp
  next
    case (Suc i)
    have "find_page desc_fuel h page NULL (bk_chain b) = Inr None"
      using Cons.prems(3) Suc by (auto dest!: spec [of _ 0])
    moreover have "search_dir h page sz bs = Inr (Some (i, prev, p))"
    proof (rule Cons.IH)
      show "\<forall>j \<le> i. bk_size (bs ! j) \<noteq> 0 \<and> \<not> sint (bk_size (bs ! j)) < sint sz"
        using Cons.prems(2) Suc by (metis Suc_le_mono nth_Cons_Suc)
      show "\<forall>j < i. find_page desc_fuel h page NULL (bk_chain (bs ! j)) = Inr None"
        using Cons.prems(3) Suc by (metis Suc_less_eq nth_Cons_Suc)
    qed (use Cons.prems Suc in simp_all)
    ultimately show ?thesis using b Suc by simp
  qed
qed

lemma bucket_sizes_pos:
  assumes "k < 9"
  shows "bucket_sizes ! k \<noteq> 0 \<and> 0 \<le> sint (bucket_sizes ! k)"
  using less_9_cases [OF assms] by (elim disjE) (simp_all add: bucket_sizes_def)

lemma search_finds:
  assumes R: "km_rel s C Fd Fo" and k: "k < 9" and C: "C k = as @ d # bs"
    and x: "x \<in> set (slot_list (bd_page (desc_of s d)) k)"
  shows "search_dir (descs s) (x AND NOT (PAGE_SIZE - 1)) 0 (bucket_dir s) = Inr (Some (k, last (NULL # as), d))"
proof (rule search_dir_nth)
  note D = km_relD [OF R] and dir = dir_facts [OF R]
  have d: "d \<in> set (C k)" using C by simp
  let ?p = "x AND NOT (PAGE_SIZE - 1)"
  have p: "?p = bd_page (desc_of s d)"
    using page_of_slot [OF k _ x] D(8) [OF k d] used_pool_page page_aligned_pool by (auto simp: desc_ok_def)
  have ne: "bd_page (the (descs s e)) \<noteq> ?p" if "e \<in> busy C" "e \<noteq> d" for e
    using D(9) busyI [of k d C, OF k d] that p by (metis desc_of_def inj_onD)
  show "k < length (bucket_dir s)" using dir(1) k by simp
  have sz: "bk_size (bucket_dir s ! j) = bucket_sizes ! j" if "j < 9" for j
    using D(2) dir(1) that nth_map [of j "bucket_dir s" bk_size] by simp
  show "\<forall>j \<le> k. bk_size (bucket_dir s ! j) \<noteq> 0 \<and> \<not> sint (bk_size (bucket_dir s ! j)) < sint 0"
  proof (intro allI impI)
    fix j assume "j \<le> k"
    then have "j < 9" using k by simp
    then show "bk_size (bucket_dir s ! j) \<noteq> 0 \<and> \<not> sint (bk_size (bucket_dir s ! j)) < sint 0"
      using sz [of j] bucket_sizes_pos [of j] by simp
  qed
  show "\<forall>j < k. find_page desc_fuel (descs s) ?p NULL (bk_chain (bucket_dir s ! j)) = Inr None"
  proof (intro allI impI)
    fix j assume j: "j < k"
    have c: "dchain (descs s) (bk_chain (bucket_dir s ! j)) (C j)" using D(4) [of j] j k by simp
    have "\<forall>e \<in> set (C j). bd_page (the (descs s e)) \<noteq> ?p"
    proof
      fix e assume e: "e \<in> set (C j)"
      have "j < 9" using j k by simp
      then have "e \<noteq> d" using one_bucket [OF R _ k e] j d by blast
      then show "bd_page (the (descs s e)) \<noteq> ?p" using ne busyI [of j e C] e j k by simp
    qed
    then show "find_page desc_fuel (descs s) ?p NULL (bk_chain (bucket_dir s ! j)) = Inr None"
      by (rule find_page_none [OF c dchain_length [OF c]])
  qed
  have c: "dchain (descs s) (bk_chain (bucket_dir s ! k)) (as @ d # bs)" using D(4) [of k] k C by simp
  have "\<forall>e \<in> set as. bd_page (the (descs s e)) \<noteq> ?p"
    using ne busyI [of k _ C] k C dchain_distinct [OF c] by auto
  then show "find_page desc_fuel (descs s) ?p NULL (bk_chain (bucket_dir s ! k)) = Inr (Some (last (NULL # as), d))"
    using p by (intro find_page_chain [OF c dchain_length [OF c]]) (simp_all add: desc_of_def)
qed

lemma live_after_put:
  assumes R: "km_rel s C Fd Fo" and k: "k < 9" "d \<in> set (C k)" and x: "x \<in> set (slot_list (bd_page (desc_of s d)) k)"
    and R': "km_rel s' C Fd (Fo(d := x # Fo d))" and pages: "\<forall>e. bd_page (desc_of s' e) = bd_page (desc_of s e)"
  shows "live s' = live s - {(x, obj_size k)}"
proof -
  have "(y, n) \<in> live s' \<longleftrightarrow> (y, n) \<in> live s - {(x, obj_size k)}" for y n
  proof (cases "y = x")
    case True
    have "(x, n) \<notin> live s'"
    proof
      assume "(x, n) \<in> live s'"
      then obtain j e where j: "j < 9" "e \<in> set (C j)" "x \<in> set (slot_list (bd_page (desc_of s e)) j)"
          "x \<notin> set ((Fo(d := x # Fo d)) e)"
        using live_iff [OF R', of x n] pages by auto
      then have "e = d" using same_page_desc [OF R j(1,2) k j(3) x] by blast
      then show False using j(4) by simp
    qed
    moreover have "n = obj_size k" if l: "(x, n) \<in> live s"
    proof -
      obtain j e where j: "j < 9" "n = obj_size j" "e \<in> set (C j)" "x \<in> set (slot_list (bd_page (desc_of s e)) j)"
        using l live_iff [OF R, of x n] by auto
      then show ?thesis using same_page_desc [OF R j(1,3) k j(4) x] by blast
    qed
    ultimately show ?thesis using True by auto
  next
    case False
    have "y \<in> set ((Fo(d := x # Fo d)) e) \<longleftrightarrow> y \<in> set (Fo e)" for e using False by auto
    then show ?thesis using False live_iff [OF R, of y n] live_iff [OF R', of y n] pages by auto
  qed
  then show ?thesis by auto
qed

text \<open>Releasing a descriptor with no live object changes no live object.\<close>

lemma live_after_release:
  assumes R: "km_rel s C Fd Fo" and k: "k < 9" and C: "C k = as @ d # bs"
    and R': "km_rel s' (C(k := as @ bs)) Fd' Fo" and pages: "\<forall>e. bd_page (desc_of s' e) = bd_page (desc_of s e)"
    and full: "set (slot_list (bd_page (desc_of s d)) k) \<subseteq> set (Fo d)"
  shows "live s' = live s"
proof -
  have "(\<exists>e \<in> set ((C(k := as @ bs)) j). y \<in> set (slot_list (bd_page (desc_of s' e)) j) \<and> y \<notin> set (Fo e)) \<longleftrightarrow>
      (\<exists>e \<in> set (C j). y \<in> set (slot_list (bd_page (desc_of s e)) j) \<and> y \<notin> set (Fo e))" for j y
    using pages full C by (cases "j = k") auto
  then have "(y, n) \<in> live s' \<longleftrightarrow> (y, n) \<in> live s" for y n
    unfolding live_iff [OF R] live_iff [OF R'] by simp
  then show ?thesis by auto
qed

lemma full_free_list:
  assumes R: "km_rel s C Fd Fo" and k: "k < 9" "d \<in> set (C k)" and z: "bd_refcnt (desc_of s d) = 0"
  shows "set (slot_list (bd_page (desc_of s d)) k) \<subseteq> set (Fo d)"
proof -
  note ok = km_relD(8) [OF R k, unfolded desc_ok_def]
  have d: "distinct (Fo d)" using ok fchain_distinct by blast
  have l: "length (Fo d) = slot_count k" using ok z by simp
  have "set (Fo d) = set (slot_list (bd_page (desc_of s d)) k)"
  proof (rule card_subset_eq)
    show "set (Fo d) \<subseteq> set (slot_list (bd_page (desc_of s d)) k)" using ok by blast
    have "card (set (slot_list (bd_page (desc_of s d)) k)) = slot_count k"
      using slot_list_distinct [OF k(1), of "bd_page (desc_of s d)"] ok used_pool_page page_aligned_pool
      by (metis distinct_card length_map length_upt minus_nat.diff_0 slot_list_def)
    then show "card (set (Fo d)) = card (set (slot_list (bd_page (desc_of s d)) k))"
      using d l by (simp add: distinct_card)
  qed simp
  then show ?thesis by simp
qed

lemma free_s_run:
  assumes "search_dir (descs s) (x AND NOT (PAGE_SIZE - 1)) sz (bucket_dir s) = Inr (Some (k, prev, d))"
    and "disable_irqsave s = (f, s0)" "descs s0 d = Some v"
    and "s1 = s0\<lparr>mem := store64 (mem s0) x (bd_freeptr v),
      descs := (descs s0)(d \<mapsto> v\<lparr>bd_freeptr := x, bd_refcnt := bd_refcnt v - 1\<rparr>)\<rparr>"
    and "(if bd_refcnt v - 1 = 0 then release_desc k prev d s1 else Inr s1) = Inr s2"
  shows "free_s x sz s = Inr (enable_irqsave f s2)"
  using assms(1,2,3,5) unfolding free_s_def assms(4)
  by (cases "bd_refcnt v - 1 = 0") (simp_all add: upd_desc_eq Let_def del: eq_iff_diff_eq_0 right_minus_eq)

lemma free_s_rel:
  assumes R: "km_rel s C Fd Fo" and l: "(x, n) \<in> live s"
  shows "\<exists>s' C' Fd' Fo'. free_s x 0 s = Inr s' \<and> km_rel s' C' Fd' Fo' \<and>
    live s' = live s - {(x, n)} \<and> DAIF s' = DAIF s \<and> used_pages s' \<subseteq> used_pages s \<and>
    (\<forall>y. \<not> in_block x n y \<longrightarrow> mem s' y = mem s y)"
proof -
  obtain k d where k: "k < 9" "n = obj_size k" "d \<in> set (C k)" "x \<in> set (slot_list (bd_page (desc_of s d)) k)" "x \<notin> set (Fo d)"
    using l live_iff [OF R] by auto
  obtain as bs where C: "C k = as @ d # bs" using split_list [OF k(3)] by blast
  note F = search_finds [OF R k(1) C k(4)]
  obtain f s0 where dis: "disable_irqsave s = (f, s0)" by fastforce
  have s0: "s0 = snd (disable_irqsave s)" "f = fst (disable_irqsave s)" using dis by simp_all
  have R0: "km_rel s0 C Fd Fo" and l0: "live s0 = live s" and m0: "mem s0 = mem s" "used_pages s0 = used_pages s"
    and pg0: "desc_of s0 e = desc_of s e" for e
    using R by (simp_all add: s0 desc_of_def)
  obtain v where v: "descs s0 d = Some v" using chain_desc [OF R0 k(1,3)] by blast
  have dv: "desc_of s0 d = v" "bd_page v = bd_page (desc_of s d)" using v pg0 [of d] by (simp_all add: desc_of_def)
  define s1 where "s1 = s0\<lparr>mem := store64 (mem s0) x (bd_freeptr v),
    descs := (descs s0)(d \<mapsto> v\<lparr>bd_freeptr := x, bd_refcnt := bd_refcnt v - 1\<rparr>)\<rparr>"
  have xs: "x \<in> set (slot_list (bd_page v) k)" using k(4) dv(2) by simp
  note P = put_object_rel [OF R0 k(1,3) v xs k(5) s1_def]
  have R1: "km_rel s1 C Fd (Fo(d := x # Fo d))" using P(1) .
  have pg1: "\<forall>e. bd_page (desc_of s1 e) = bd_page (desc_of s0 e)" using P(2) by blast
  have L1: "live s1 = live s - {(x, n)}"
    using live_after_put [OF R0 k(1,3) _ R1 pg1] k(4) dv(2) l0 k(2) pg0 by simp
  have m1: "mem s1 y = mem s y" if "\<not> in_block x n y" for y
    using store64_block [of x k y] that k(2) m0 by (simp add: s1_def)
  have "\<exists>s2 C2 Fd2. (if bd_refcnt v - 1 = 0 then release_desc k (last (NULL # as)) d s1 else Inr s1) = Inr s2 \<and>
      km_rel s2 C2 Fd2 (Fo(d := x # Fo d)) \<and> live s2 = live s1 \<and> mem s2 = mem s1 \<and> DAIF s2 = DAIF s1 \<and>
      used_pages s2 \<subseteq> used_pages s1"
  proof (cases "bd_refcnt v - 1 = 0")
    case True
    obtain s2 where r: "release_desc k (last (NULL # as)) d s1 = Inr s2"
        "km_rel s2 (C(k := as @ bs)) (d # Fd) (Fo(d := x # Fo d))" "mem s2 = mem s1" "DAIF s2 = DAIF s1"
        "used_pages s2 = used_pages s1 - {bd_page (desc_of s1 d)}"
        "\<forall>e. bd_page (desc_of s2 e) = bd_page (desc_of s1 e)"
      using release_desc_rel [OF R1 k(1) C] by blast
    have z: "bd_refcnt (desc_of s1 d) = 0" using True by (simp add: s1_def desc_of_def)
    have "live s2 = live s1"
      by (rule live_after_release [OF R1 k(1) C r(2,6) full_free_list [OF R1 k(1,3) z]])
    then show ?thesis using r True by auto
  next
    case False
    then show ?thesis using R1 by auto
  qed
  then obtain s2 C2 Fd2 where e: "(if bd_refcnt v - 1 = 0 then release_desc k (last (NULL # as)) d s1 else Inr s1) = Inr s2"
      "km_rel s2 C2 Fd2 (Fo(d := x # Fo d))" "live s2 = live s1" "mem s2 = mem s1" "DAIF s2 = DAIF s1"
      "used_pages s2 \<subseteq> used_pages s1" by blast
  have run: "free_s x 0 s = Inr (enable_irqsave f s2)"
    using free_s_run [OF F dis v s1_def e(1)] .
  have "DAIF (enable_irqsave f s2) = DAIF s"
    using enable_irqsave_restores [of s2 s] e(5) by (simp add: s0 s1_def)
  moreover have "used_pages s1 = used_pages s" using m0(2) by (simp add: s1_def)
  ultimately show ?thesis
    using run e L1 m1
    by (intro exI [of _ "enable_irqsave f s2"] exI [of _ C2] exI [of _ Fd2] exI [of _ "Fo(d := x # Fo d)"]) simp
qed

section \<open>The contract\<close>

text \<open>
  What the kernel relies on: \<open>objs s\<close> are the live objects with their sizes, \<open>enough s\<close> says that an
  allocation cannot run out of pages.
\<close>

locale object_allocator =
  fixes alloc :: "u32 \<Rightarrow> 's \<Rightarrow> (u64 \<times> 's) res"
    and release :: "u64 \<Rightarrow> 's \<Rightarrow> 's res"
    and objs :: "'s \<Rightarrow> (u64 \<times> nat) set"
    and contents :: "'s \<Rightarrow> memory"
    and good :: "'s \<Rightarrow> bool"
    and enough :: "'s \<Rightarrow> bool"
    and max_len :: u32
  assumes objs_apart: "good s \<Longrightarrow> (x, m) \<in> objs s \<Longrightarrow> (y, n) \<in> objs s \<Longrightarrow> x \<noteq> y \<Longrightarrow>
      \<not> (in_block x m z \<and> in_block y n z)"
    and objs_functional: "good s \<Longrightarrow> (x, m) \<in> objs s \<Longrightarrow> (x, n) \<in> objs s \<Longrightarrow> m = n"
    and alloc_law: "good s \<Longrightarrow> enough s \<Longrightarrow> len \<le> max_len \<Longrightarrow>
      \<exists>x n s'. alloc len s = Inr (x, s') \<and> good s' \<and> x \<noteq> NULL \<and> unat len \<le> n \<and>
        (\<forall>m. (x, m) \<notin> objs s) \<and> objs s' = insert (x, n) (objs s) \<and>
        (\<forall>y m z. (y, m) \<in> objs s \<longrightarrow> in_block y m z \<longrightarrow> contents s' z = contents s z)"
    and release_law: "good s \<Longrightarrow> (x, n) \<in> objs s \<Longrightarrow>
      \<exists>s'. release x s = Inr s' \<and> good s' \<and> objs s' = objs s - {(x, n)} \<and>
        (\<forall>z. \<not> in_block x n z \<longrightarrow> contents s' z = contents s z)"
begin

text \<open>Releasing an object leaves the bytes of every other one alone.\<close>

lemma release_others:
  assumes "good s" "(x, n) \<in> objs s" "(y, m) \<in> objs s" "y \<noteq> x" "in_block y m z" "release x s = Inr s'"
  shows "contents s' z = contents s z"
proof -
  have "\<not> in_block x n z" using objs_apart [OF assms(1) assms(3,2,4)] assms(5) by blast
  then show ?thesis using release_law [OF assms(1,2)] assms(6) by auto
qed

text \<open>Allocating and releasing gives the live objects back.\<close>

lemma alloc_release:
  assumes "good s" "enough s" "len \<le> max_len"
  shows "\<exists>x s' s''. alloc len s = Inr (x, s') \<and> release x s' = Inr s'' \<and> good s'' \<and> objs s'' = objs s"
proof -
  obtain x n s' where a: "alloc len s = Inr (x, s')" "good s'" "\<forall>m. (x, m) \<notin> objs s" "objs s' = insert (x, n) (objs s)"
    using alloc_law [OF assms] by blast
  then obtain s'' where "release x s' = Inr s''" "good s''" "objs s'' = objs s' - {(x, n)}"
    using release_law [of s' x n] by auto
  then show ?thesis using a by (intro exI [of _ x] exI [of _ s'] exI [of _ s'']) auto
qed

text \<open>Two objects allocated one after the other do not overlap.\<close>

lemma alloc_twice:
  assumes "good s" "alloc l1 s = Inr (x, s1)" "enough s" "l1 \<le> max_len" "alloc l2 s1 = Inr (y, s2)" "enough s1" "l2 \<le> max_len"
  shows "\<not> (in_block x (unat l1) z \<and> in_block y (unat l2) z)"
proof -
  obtain n where n: "good s1" "unat l1 \<le> n" "objs s1 = insert (x, n) (objs s)"
    using alloc_law [OF assms(1,3,4)] assms(2) by auto
  obtain m where m: "good s2" "unat l2 \<le> m" "objs s2 = insert (y, m) (objs s1)" "(y, n) \<notin> objs s1"
    using alloc_law [OF n(1) assms(6,7)] assms(5) by auto
  have "x \<noteq> y" using n(3) m(4) by auto
  then have "\<not> (in_block x n z \<and> in_block y m z)"
    using objs_apart [OF m(1)] m(3) n(3) by blast
  then show ?thesis using n(2) m(2) by (auto simp: in_block_def)
qed

end

definition km_inv :: "'a km_state_scheme \<Rightarrow> bool" where
  "km_inv s \<longleftrightarrow> (\<exists>C Fd Fo. km_rel s C Fd Fo)"

definition km_enough :: "'a km_state_scheme \<Rightarrow> bool" where
  "km_enough s \<longleftrightarrow> 2 \<le> card (page_pool - used_pages s)"

lemma live_block_used:
  assumes "km_rel s C Fd Fo" "(y, m) \<in> live s" "in_block y m z"
  shows "\<exists>q \<in> used_pages s. in_page q z"
proof -
  obtain k d where k: "k < 9" "m = obj_size k" "d \<in> set (C k)" "y \<in> set (slot_list (bd_page (desc_of s d)) k)"
    using assms(2) live_iff [OF assms(1)] by auto
  then show ?thesis
    using km_relD(8) [OF assms(1) k(1,3)] block_in_page [OF k(1,4)] assms(3) by (auto simp: desc_ok_def)
qed

interpretation km: object_allocator kmalloc kfree live mem km_inv km_enough 4096
proof (unfold_locales, goal_cases)
  case (1 s x m y n z)
  then show ?case unfolding km_inv_def using live_disjoint by blast
next
  case (2 s x m n)
  then show ?case unfolding km_inv_def using live_functional by blast
next
  case (3 s len)
  then obtain C Fd Fo where R: "km_rel s C Fd Fo" by (auto simp: km_inv_def)
  obtain x n s' C' Fd' Fo' where r: "kmalloc len s = Inr (x, s')" "km_rel s' C' Fd' Fo'" "unat len \<le> n"
      "live s' = insert (x, n) (live s)" "\<forall>m. (x, m) \<notin> live s" "mem_kept s s'" "x \<noteq> NULL"
    using kmalloc_rel [OF R 3(3)] 3(2) unfolding km_enough_def by blast
  have "mem s' z = mem s z" if "(y, m) \<in> live s" "in_block y m z" for y m z
    using live_block_used [OF R that] r(6) by (auto simp: mem_kept_def)
  then show ?case using r by (auto simp: km_inv_def)
next
  case (4 s x n)
  then obtain C Fd Fo where R: "km_rel s C Fd Fo" by (auto simp: km_inv_def)
  show ?case using free_s_rel [OF R 4(2)] unfolding kfree_def km_inv_def by blast
qed

section \<open>The allocator touches no other part of the state\<close>

lemma more_irq [simp]:
  "km_state.more (snd (disable_irqsave s)) = km_state.more s"
  "km_state.more (enable_irqsave f s) = km_state.more s"
  by (simp_all add: disable_irqsave_def enable_irqsave_def msr_DAIFSet_def msr_DAIFClr_def)

lemma disable_irqsave_more: "disable_irqsave s = (f, s') \<Longrightarrow> km_state.more s' = km_state.more s"
  using more_irq(1) [of s] by simp

lemma get_free_page_more:
  fixes s :: "'a km_state_scheme"
  shows "get_free_page fl s = Inr (p, s') \<Longrightarrow> km_state.more s' = km_state.more s"
  by (auto simp: get_free_page_eq took_page_def split: option.splits)

lemma set_page_flags_more:
  fixes s :: "'a km_state_scheme"
  shows "set_page_flags p fl s = Inr s' \<Longrightarrow> km_state.more s' = km_state.more s"
  by (auto simp: set_page_flags_def Let_def split: if_splits)

lemma free_page_more:
  fixes s :: "'a km_state_scheme"
  shows "free_page p s = Inr s' \<Longrightarrow> km_state.more s' = km_state.more s"
  by (auto simp: free_page_def free_page_desc_def split: if_splits)

lemma init_bucket_desc_more: "init_bucket_desc s = Inr s' \<Longrightarrow> km_state.more s' = km_state.more s"
  by (auto simp: init_bucket_desc_def bindR_eq_Inr dest!: get_free_page_more set_page_flags_more)

lemma new_desc_more:
  assumes "new_desc k s = Inr (d, s')"
  shows "km_state.more s' = km_state.more s"
proof -
  obtain s1 where s1: "(if free_bucket_desc s = NULL then init_bucket_desc s else Inr s) = Inr s1"
    using assms unfolding new_desc_def bindR_eq_Inr by blast
  then have "km_state.more s1 = km_state.more s" using init_bucket_desc_more by (auto split: if_splits)
  moreover have "km_state.more s' = km_state.more s1"
    using assms s1 unfolding new_desc_def
    by (auto simp: bindR_eq_Inr Let_def split: if_splits dest!: get_free_page_more)
  ultimately show ?thesis by simp
qed

lemma take_object_more: "take_object d s = Inr (x, s') \<Longrightarrow> km_state.more s' = km_state.more s"
  by (auto simp: take_object_def bindR_eq_Inr Let_def split: if_splits)

lemma kmalloc_more:
  assumes "kmalloc len s = Inr (x, s')"
  shows "km_state.more s' = km_state.more s"
proof -
  obtain f s0 where d: "disable_irqsave s = (f, s0)" by fastforce
  obtain k q e s1 s2 where r: "(if q = NULL then new_desc k s0 else Inr (q, s0)) = Inr (e, s1)"
      "take_object e s1 = Inr (x, s2)" "s' = enable_irqsave f s2"
    using assms d unfolding kmalloc_def by (auto simp: bindR_eq_Inr)
  have "km_state.more s1 = km_state.more s0" using r(1) new_desc_more by (auto split: if_splits)
  then show ?thesis using take_object_more [OF r(2)] r(3) disable_irqsave_more [OF d] by simp
qed

lemma release_desc_more: "release_desc k prev d s = Inr s' \<Longrightarrow> km_state.more s' = km_state.more s"
  unfolding release_desc_def
  by (auto simp: bindR_eq_Inr split: if_splits dest!: set_page_flags_more free_page_more)

lemma free_s_more:
  assumes "free_s x sz s = Inr s'"
  shows "km_state.more s' = km_state.more s"
proof -
  obtain f s0 where d: "disable_irqsave s = (f, s0)" by fastforce
  show ?thesis
    using assms d disable_irqsave_more [OF d] unfolding free_s_def
    by (auto simp: bindR_eq_Inr Let_def split: option.splits if_splits dest!: release_desc_more)
qed

section \<open>Properties\<close>

text \<open>C5: \<^verbatim>\<open>kmalloc\<close> of at most 4096 bytes, with two pages free, returns an object that is at least as
  large as asked for, was not live, and overlaps no live object; the invariant holds again, no
  byte of a live object changes, and the interrupt mask is as before.\<close>

theorem kmalloc_contract:
  assumes "km_inv s" "2 \<le> card (page_pool - used_pages s)" "len \<le> 4096"
  shows "\<exists>x n s'. kmalloc len s = Inr (x, s') \<and> km_inv s' \<and> x \<noteq> NULL \<and> unat len \<le> n \<and>
    live s' = insert (x, n) (live s) \<and> DAIF s' = DAIF s \<and>
    (\<forall>y m z. (y, m) \<in> live s \<longrightarrow> in_block y m z \<longrightarrow> \<not> in_block x n z \<and> mem s' z = mem s z)"
proof -
  obtain C Fd Fo where R: "km_rel s C Fd Fo" using assms(1) by (auto simp: km_inv_def)
  obtain x n s' C' Fd' Fo' where r: "kmalloc len s = Inr (x, s')" "km_rel s' C' Fd' Fo'" "unat len \<le> n"
      "live s' = insert (x, n) (live s)" "\<forall>m. (x, m) \<notin> live s" "mem_kept s s'" "x \<noteq> NULL"
    using kmalloc_rel [OF R assms(3,2)] by blast
  have "\<not> in_block x n z \<and> mem s' z = mem s z" if "(y, m) \<in> live s" "in_block y m z" for y m z
    using live_block_used [OF R that] r(6) live_disjoint [OF r(2), of y m x n z] r(4,5) that
    by (auto simp: mem_kept_def)
  then show ?thesis using r by (auto simp: km_inv_def mem_kept_def)
qed

text \<open>C17: \<^verbatim>\<open>kfree\<close> of a live object returns, removes exactly that object from the live ones, changes
  no byte of another live object, and restores the interrupt mask and the invariant.\<close>

theorem kfree_contract:
  assumes "km_inv s" "(x, n) \<in> live s"
  shows "\<exists>s'. kfree x s = Inr s' \<and> km_inv s' \<and> live s' = live s - {(x, n)} \<and> DAIF s' = DAIF s \<and>
    used_pages s' \<subseteq> used_pages s \<and>
    (\<forall>y m z. (y, m) \<in> live s \<longrightarrow> y \<noteq> x \<longrightarrow> in_block y m z \<longrightarrow> mem s' z = mem s z)"
proof -
  obtain C Fd Fo where R: "km_rel s C Fd Fo" using assms(1) by (auto simp: km_inv_def)
  obtain s' C' Fd' Fo' where r: "free_s x 0 s = Inr s'" "km_rel s' C' Fd' Fo'" "live s' = live s - {(x, n)}"
      "DAIF s' = DAIF s" "used_pages s' \<subseteq> used_pages s" "\<forall>y. \<not> in_block x n y \<longrightarrow> mem s' y = mem s y"
    using free_s_rel [OF R assms(2)] by blast
  have "mem s' z = mem s z" if "(y, m) \<in> live s" "y \<noteq> x" "in_block y m z" for y m z
    using km.release_others [OF assms(1,2) that(1,2,3)] r(1) by (simp add: kfree_def)
  then show ?thesis using r by (auto simp: km_inv_def kfree_def)
qed

text \<open>Allocating an object and freeing it again gives the same set of live objects, and two
  consecutive allocations never overlap.\<close>

theorem kmalloc_kfree_roundtrip:
  assumes "km_inv s" "2 \<le> card (page_pool - used_pages s)" "len \<le> 4096"
  shows "\<exists>x s' s''. kmalloc len s = Inr (x, s') \<and> kfree x s' = Inr s'' \<and> km_inv s'' \<and> live s'' = live s \<and>
    (\<forall>l2 y t z. 2 \<le> card (page_pool - used_pages s') \<longrightarrow> l2 \<le> 4096 \<longrightarrow> kmalloc l2 s' = Inr (y, t) \<longrightarrow>
      \<not> (in_block x (unat len) z \<and> in_block y (unat l2) z))"
proof -
  have e: "km_enough s" using assms(2) by (simp add: km_enough_def)
  obtain x s' s'' where r: "kmalloc len s = Inr (x, s')" "kfree x s' = Inr s''" "km_inv s''" "live s'' = live s"
    using km.alloc_release [OF assms(1) e assms(3)] by blast
  then show ?thesis
    using km.alloc_twice [OF assms(1) r(1) e assms(3)] by (auto simp: km_enough_def)
qed

text \<open>The allocator before its first use.\<close>

lemma km_start_rel:
  assumes "mm_inv s" "bucket_dir s = init_bucket_dir" "free_bucket_desc s = NULL"
  shows "km_rel s (\<lambda>_. []) [] (\<lambda>_. [])"
proof -
  have "map bk_size init_bucket_dir = bucket_sizes" by (simp add: init_bucket_dir_def o_def)
  moreover have "bk_chain (init_bucket_dir ! k) = NULL" if "k < 10" for k
    using that unfolding init_bucket_dir_def by (subst nth_map) (simp_all add: bucket_sizes_def)
  ultimately show ?thesis using assms by (simp add: km_rel_def busy_def)
qed

lemma km_start:
  assumes "mm_inv s" "bucket_dir s = init_bucket_dir" "free_bucket_desc s = NULL"
  shows "km_inv s" "live s = {}"
  using km_start_rel [OF assms] live_iff [OF km_start_rel [OF assms]] by (auto simp: km_inv_def)

text \<open>The allocator of a freshly booted system.\<close>

definition fresh_km :: km_state where
  "fresh_km = mm_state.extend (mm_state.truncate fresh_mm) (km_state.fields init_bucket_dir Map.empty NULL)"

lemma fresh_km_fields:
  "bucket_dir fresh_km = init_bucket_dir" "descs fresh_km = Map.empty" "free_bucket_desc fresh_km = NULL"
  "mm_inv fresh_km" "used_pages fresh_km = {}"
  using fresh_mm_inv fresh_mm_used
  by (simp_all add: fresh_km_def km_state.defs mm_state.defs mm_inv_def used_pages_def)

lemma fresh_km_rel: "km_rel fresh_km (\<lambda>_. []) [] (\<lambda>_. [])"
  by (rule km_start_rel) (simp_all add: fresh_km_fields)

lemma fresh_km_inv: "km_inv fresh_km"
  using fresh_km_rel by (auto simp: km_inv_def)

lemma fresh_km_live: "live fresh_km = {}"
  using live_iff [OF fresh_km_rel] by auto

lemma fresh_km_room: "card (page_pool - used_pages fresh_km) = 3840"
proof -
  have "inj_on page_va {..<PAGING_PAGES}" using page_va_inj by (auto intro: inj_onI)
  then have "card page_pool = PAGING_PAGES" unfolding page_pool_def by (simp add: card_image)
  then show ?thesis by (simp add: fresh_km_fields PAGING_PAGES_eq)
qed

theorem kmalloc_contract_witness:
  "\<exists>x n s'. kmalloc 100 fresh_km = Inr (x, s') \<and> 100 \<le> n \<and> live s' = {(x, n)}"
  using kmalloc_contract [OF fresh_km_inv, of 100] by (auto simp: fresh_km_room fresh_km_live)

theorem kfree_contract_witness:
  "\<exists>x n s' s''. kmalloc 100 fresh_km = Inr (x, s') \<and> live s' = {(x, n)} \<and> kfree x s' = Inr s'' \<and> live s'' = {}"
proof -
  obtain x n s' where a: "kmalloc 100 fresh_km = Inr (x, s')" "km_inv s'" "live s' = {(x, n)}"
    using km.alloc_law [OF fresh_km_inv, of 100] by (auto simp: km_enough_def fresh_km_room fresh_km_live)
  then show ?thesis using kfree_contract [OF a(2), of x n] by auto
qed

theorem kmalloc_kfree_roundtrip_witness:
  "\<exists>x s' s''. kmalloc 4096 fresh_km = Inr (x, s') \<and> kfree x s' = Inr s'' \<and> live s'' = {}"
  using kmalloc_kfree_roundtrip [OF fresh_km_inv, of 4096] by (auto simp: fresh_km_room fresh_km_live)

text \<open>\<^verbatim>\<open>kmalloc\<close> of more than 4096 bytes prints its message but goes on with the end marker of the
  bucket table, and divides by its size 0.\<close>

theorem kmalloc_too_large:
  assumes "km_inv s" "2 \<le> card (page_pool - used_pages s)" "4096 < len"
  shows "kmalloc len s = Inl Div_by_zero"
proof -
  obtain C Fd Fo where R: "km_rel s C Fd Fo" using assms(1) by (auto simp: km_inv_def)
  note dir = dir_facts [OF R]
  have big: "\<not> len \<le> bk_size (bucket_dir s ! i)" if "i < 9" for i
    using assms(3) dir(2) [OF that] obj_size_bounds(2) [OF that] by (simp add: word_le_nat_alt word_less_nat_alt)
  obtain k where "k \<le> 9" "find_bucket (bucket_dir s) len = Inr k"
      "bk_size (bucket_dir s ! k) = 0 \<or> len \<le> bk_size (bucket_dir s ! k)"
    using find_bucket_nth [of 9 "bucket_dir s" len] dir(1,3) by auto
  moreover have "bk_size (bucket_dir s ! i) \<noteq> 0" if "i < 9" for i
    using dir(2) [OF that] obj_size_bounds(1) [of i] by auto
  ultimately have k: "find_bucket (bucket_dir s) len = Inr 9" using big by (cases "k = 9") auto
  obtain f s0 where dis: "disable_irqsave s = (f, s0)" by fastforce
  have s0: "s0 = snd (disable_irqsave s)" using dis by simp
  have R0: "km_rel s0 C Fd Fo" and room0: "2 \<le> card (page_pool - used_pages s0)"
    using R assms(2) by (simp_all add: s0)
  have "bk_chain (bucket_dir s0 ! 9) = NULL" using km_relD(3) [OF R0] km_relD(4) [OF R0, of 9] by simp
  then have fd: "find_desc desc_fuel (descs s0) (bk_chain (bucket_dir s0 ! 9)) = Inr NULL"
    by (subst find_desc.simps) (simp add: desc_fuel_def)
  have div: "new_desc 9 t = Inl Div_by_zero"
    if t: "km_rel t C (d # Fd') Fo" "used_pages t \<noteq> page_pool" for t d Fd'
  proof -
    obtain v where v: "descs t d = Some v" "d \<noteq> NULL" "free_bucket_desc t = d" using km_relD(5) [OF t(1)] by auto
    have z: "bk_size (bucket_dir t ! 9) = 0" using dir_facts(3) [OF t(1)] .
    let ?t = "t\<lparr>free_bucket_desc := bd_next v, descs := (descs t)(d \<mapsto> v\<lparr>bd_refcnt := 0, bd_bucket_size := 0\<rparr>)\<rparr>"
    have "mm_inv ?t" "used_pages ?t \<noteq> page_pool" using km_relD(1) [OF t(1)] t(2) by simp_all
    then obtain p t1 where g: "get_free_page GFP_KERNEL ?t = Inr (p, t1)" using pg.get_law [of ?t] by blast
    then show ?thesis
      using v z get_free_page_frame(1) [OF g] by (simp add: new_desc_def upd_desc_eq Let_def)
  qed
  have "new_desc 9 s0 = Inl Div_by_zero"
  proof (cases Fd)
    case (Cons d Fd')
    have "used_pages s0 \<noteq> page_pool" using room0 by auto
    then show ?thesis using div [of s0 d Fd'] R0 Cons by simp
  next
    case Nil
    have f0: "free_bucket_desc s0 = NULL" using km_relD(5) [OF R0] Nil by simp
    obtain s1 Fd1 q where i: "init_bucket_desc s0 = Inr s1" "km_rel s1 C Fd1 Fo" "Fd1 \<noteq> []"
        "q \<in> page_pool - used_pages s0" "used_pages s1 = insert q (used_pages s0)"
      using init_bucket_desc_rel [OF R0] room0 by fastforce
    obtain d Fd' where d: "Fd1 = d # Fd'" using i(3) by (cases Fd1) auto
    have fb: "free_bucket_desc s1 \<noteq> NULL" using km_relD(5) [OF i(2)] d by auto
    have "used_pages s1 \<noteq> page_pool" using card_pool_insert [OF i(4)] room0 i(5) by auto
    then show ?thesis using f0 fb i(1) div [of s1 d Fd'] i(2) d by (simp add: new_desc_def)
  qed
  then show ?thesis using k dis fd by (simp add: kmalloc_def)
qed

theorem kmalloc_too_large_witness: "kmalloc 5000 fresh_km = Inl Div_by_zero"
  by (rule kmalloc_too_large) (simp_all add: fresh_km_inv fresh_km_room)

end
