(* ===== verification/Linked_List.thy ===== *)
theory Linked_List
  imports Prelude
begin

text \<open>
  \<^verbatim>\<open>include/list.h\<close>: circular doubly linked lists whose nodes are embedded in the objects
  they link. The two pointer fields of \<^verbatim>\<open>struct list_head\<close> are two partial maps from the
  address of a node; a node outside their domain does not exist and touching it is a
  fault. The operations are translated store by store, in the order of the C text.

  The abstraction relation \<open>dlist h l xs\<close> says that the nodes reached from the head
  \<open>l\<close> are exactly \<open>xs\<close>, that following \<^verbatim>\<open>prev\<close> undoes \<^verbatim>\<open>next\<close>, and that no node occurs
  twice. The locale \<open>intrusive_list\<close> is the contract the users of the header rely on.
\<close>

section \<open>The header\<close>

record list_heap =
  prv :: "u64 \<rightharpoonup> u64"
  nxt :: "u64 \<rightharpoonup> u64"

definition set_next :: "u64 \<Rightarrow> u64 \<Rightarrow> list_heap \<Rightarrow> list_heap res" where
  "set_next p v h = bindR (assign p v (nxt h)) (\<lambda>n. Inr (h\<lparr>nxt := n\<rparr>))"

definition set_prev :: "u64 \<Rightarrow> u64 \<Rightarrow> list_heap \<Rightarrow> list_heap res" where
  "set_prev p v h = bindR (assign p v (prv h)) (\<lambda>n. Inr (h\<lparr>prv := n\<rparr>))"

definition INIT_LIST_HEAD :: "u64 \<Rightarrow> list_heap \<Rightarrow> list_heap res" where
  "INIT_LIST_HEAD list h = bindR (set_next list list h) (set_prev list list)"

text \<open>\<^verbatim>\<open>__list_add\<close>.\<close>

definition list_add_between :: "u64 \<Rightarrow> u64 \<Rightarrow> u64 \<Rightarrow> list_heap \<Rightarrow> list_heap res" where
  "list_add_between new prev next h =
     bindR (set_prev next new h) (\<lambda>h.
     bindR (set_next new next h) (\<lambda>h.
     bindR (set_prev new prev h) (\<lambda>h.
     set_next prev new h)))"

definition list_add :: "u64 \<Rightarrow> u64 \<Rightarrow> list_heap \<Rightarrow> list_heap res" where
  "list_add new head h =
     bindR (deref (nxt h) head) (\<lambda>n. list_add_between new head n h)"

definition list_add_tail :: "u64 \<Rightarrow> u64 \<Rightarrow> list_heap \<Rightarrow> list_heap res" where
  "list_add_tail new head h =
     bindR (deref (prv h) head) (\<lambda>p. list_add_between new p head h)"

definition list_del :: "u64 \<Rightarrow> list_heap \<Rightarrow> list_heap res" where
  "list_del entry h =
     bindR (deref (prv h) entry) (\<lambda>prev.
     bindR (deref (nxt h) entry) (\<lambda>next.
     bindR (set_prev next prev h) (\<lambda>h.
     bindR (set_next prev next h) (\<lambda>h.
     bindR (set_prev entry NULL h) (\<lambda>h.
     set_next entry NULL h)))))"

definition list_empty :: "u64 \<Rightarrow> list_heap \<Rightarrow> bool res" where
  "list_empty head h = bindR (deref (nxt h) head) (\<lambda>n. Inr (n = head))"

text \<open>
  \<^verbatim>\<open>list_for_each(pos, head)\<close> with a body that may change the state and may leave the
  enclosing function (\<open>Some r\<close>: \<^verbatim>\<open>return r\<close>). The successor of \<open>pos\<close> is read from the
  state \<^emph>\<open>after\<close> the body ran, as the \<^verbatim>\<open>for\<close> header does. The walk of a damaged list need
  not end, so the loop has fuel; \<open>list_fuel\<close> exceeds the number of nodes that can exist
  in a 64-bit address space.
\<close>

function for_each_loop ::
  "nat \<Rightarrow> ('s \<Rightarrow> list_heap) \<Rightarrow> u64 \<Rightarrow> (u64 \<Rightarrow> 's \<Rightarrow> ('r option \<times> 's) res) \<Rightarrow> u64 \<Rightarrow> 's
     \<Rightarrow> ('r option \<times> 's) res" where
  "for_each_loop fuel lh head body pos s =
     (if fuel = 0 then Inl Out_of_fuel
      else if pos = head then Inr (None, s)
      else bindR (body pos s) (\<lambda>(r, s').
        case r of
          Some v \<Rightarrow> Inr (Some v, s')
        | None \<Rightarrow> bindR (deref (nxt (lh s')) pos) (\<lambda>p.
            for_each_loop (fuel - 1) lh head body p s')))"
  by pat_completeness auto
termination
  by (relation "measure (\<lambda>(fuel, _). fuel)") auto

declare for_each_loop.simps [simp del]

definition list_fuel :: nat where
  "list_fuel = 2 ^ 64"

definition list_for_each ::
  "('s \<Rightarrow> list_heap) \<Rightarrow> u64 \<Rightarrow> (u64 \<Rightarrow> 's \<Rightarrow> ('r option \<times> 's) res) \<Rightarrow> 's
     \<Rightarrow> ('r option \<times> 's) res" where
  "list_for_each lh head body s =
     bindR (deref (nxt (lh s)) head) (\<lambda>p. for_each_loop list_fuel lh head body p s)"

section \<open>Abstraction to sequences\<close>

fun chain :: "list_heap \<Rightarrow> u64 \<Rightarrow> u64 list \<Rightarrow> u64 \<Rightarrow> bool" where
  "chain h a [] b \<longleftrightarrow> nxt h a = Some b \<and> prv h b = Some a"
| "chain h a (x # xs) b \<longleftrightarrow> nxt h a = Some x \<and> prv h x = Some a \<and> chain h x xs b"

definition dlist :: "list_heap \<Rightarrow> u64 \<Rightarrow> u64 list \<Rightarrow> bool" where
  "dlist h l xs \<longleftrightarrow> chain h l xs l \<and> distinct (l # xs)"

definition node :: "list_heap \<Rightarrow> u64 \<Rightarrow> bool" where
  "node h p \<longleftrightarrow> nxt h p \<noteq> None \<and> prv h p \<noteq> None"

lemma chain_append: "chain h a (xs @ y # ys) b \<longleftrightarrow> chain h a xs y \<and> chain h y ys b"
  by (induction xs arbitrary: a) auto

lemma chain_split:
  assumes "chain h a (xs @ ys) b"
  shows "(\<exists>y. chain h a xs y) \<and> (\<exists>x. chain h x ys b)"
proof
  show "\<exists>y. chain h a xs y"
    using assms by (cases ys) (auto simp: chain_append)
  show "\<exists>x. chain h x ys b"
    using assms by (cases xs rule: rev_cases) (auto simp: chain_append)
qed

lemma chain_frame:
  assumes "\<And>p. p \<in> set (a # xs) \<Longrightarrow> nxt h' p = nxt h p"
    and "\<And>p. p \<in> set (xs @ [b]) \<Longrightarrow> prv h' p = prv h p"
  shows "chain h' a xs b \<longleftrightarrow> chain h a xs b"
  using assms by (induction xs arbitrary: a) auto

lemma chain_nodes:
  assumes "chain h a xs b"
  shows "\<forall>p \<in> set (a # xs). nxt h p \<noteq> None" and "\<forall>p \<in> set (xs @ [b]). prv h p \<noteq> None"
  using assms by (induction xs arbitrary: a) auto

lemma chain_last: "chain h a xs b \<Longrightarrow> prv h b = Some (last (a # xs))"
  by (induction xs arbitrary: a) auto

lemma chain_hd: "chain h a xs b \<Longrightarrow> nxt h a = Some (hd (xs @ [b]))"
  by (cases xs) auto

lemma dlist_distinct: "dlist h l xs \<Longrightarrow> distinct (l # xs)"
  by (simp add: dlist_def)

lemma dlist_node: "dlist h l xs \<Longrightarrow> p \<in> set (l # xs) \<Longrightarrow> node h p"
  using chain_nodes [of h l xs l] by (auto simp: dlist_def node_def)

lemma dlist_length: "dlist h l xs \<Longrightarrow> length xs < list_fuel"
  using distinct_words_length [of "l # xs"] by (simp add: dlist_def list_fuel_def)

lemma dlist_unique: "dlist h l xs \<Longrightarrow> dlist h l ys \<Longrightarrow> xs = ys"
proof -
  have "chain h a xs b \<Longrightarrow> chain h a ys b \<Longrightarrow> b \<notin> set xs \<Longrightarrow> b \<notin> set ys \<Longrightarrow> xs = ys" for a b
    by (induction xs arbitrary: a ys) (case_tac ys; auto)+
  then show "dlist h l xs \<Longrightarrow> dlist h l ys \<Longrightarrow> xs = ys"
    by (auto simp: dlist_def)
qed

lemma chain_retarget:
  assumes "chain h a xs b"
    and "nxt h' (last (a # xs)) = Some c" and "prv h' c = Some (last (a # xs))"
    and "\<And>p. p \<in> set (butlast (a # xs)) \<Longrightarrow> nxt h' p = nxt h p"
    and "\<And>p. p \<in> set xs \<Longrightarrow> prv h' p = prv h p"
  shows "chain h' a xs c"
  using assms
proof (induction xs arbitrary: a)
  case Nil
  then show ?case by simp
next
  case (Cons x xs)
  have "chain h' x xs c"
    using Cons.prems by (intro Cons.IH) auto
  then show ?case using Cons.prems by auto
qed

lemma chain_resource:
  assumes "chain h a xs b"
    and "nxt h' c = Some (hd (xs @ [b]))" and "prv h' (hd (xs @ [b])) = Some c"
    and "\<And>p. p \<in> set xs \<Longrightarrow> nxt h' p = nxt h p"
    and "\<And>p. p \<in> set (tl (xs @ [b])) \<Longrightarrow> prv h' p = prv h p"
  shows "chain h' c xs b"
proof (cases xs)
  case Nil
  then show ?thesis using assms by simp
next
  case (Cons x ys)
  have "chain h' x ys b \<longleftrightarrow> chain h x ys b"
    using assms Cons by (intro chain_frame) auto
  then show ?thesis using assms Cons by simp
qed

section \<open>What the operations do to a list\<close>

text \<open>The heap after a node was linked between two neighbours, and after it was unlinked.\<close>

definition linked :: "u64 \<Rightarrow> u64 \<Rightarrow> u64 \<Rightarrow> list_heap \<Rightarrow> list_heap" where
  "linked new p n h =
     h\<lparr>prv := (prv h)(n \<mapsto> new, new \<mapsto> p), nxt := (nxt h)(new \<mapsto> n, p \<mapsto> new)\<rparr>"

definition unlinked :: "u64 \<Rightarrow> u64 \<Rightarrow> u64 \<Rightarrow> list_heap \<Rightarrow> list_heap" where
  "unlinked x p n h =
     h\<lparr>prv := (prv h)(n \<mapsto> p, x \<mapsto> NULL), nxt := (nxt h)(p \<mapsto> n, x \<mapsto> NULL)\<rparr>"

lemma node_linked: "node h new \<Longrightarrow> node h p \<Longrightarrow> node h n \<Longrightarrow> node (linked new p n h) q = node h q"
  by (auto simp: node_def linked_def)

lemma node_unlinked: "node h x \<Longrightarrow> node h p \<Longrightarrow> node h n \<Longrightarrow> node (unlinked x p n h) q = node h q"
  by (auto simp: node_def unlinked_def)

lemma list_add_between_eq:
  assumes "node h new" "node h p" "node h n"
  shows "list_add_between new p n h = Inr (linked new p n h)"
  using assms
  by (simp add: list_add_between_def set_next_def set_prev_def node_def linked_def)

lemma dlist_linked:
  assumes d: "dlist h l (as @ bs)" and new: "new \<notin> set (l # as @ bs)"
  shows "dlist (linked new (last (l # as)) (hd (bs @ [l])) h) l (as @ new # bs)"
proof -
  let ?p = "last (l # as)" and ?n = "hd (bs @ [l])"
  let ?h' = "linked new ?p ?n h"
  have dist: "distinct (l # as @ bs)" using d by (rule dlist_distinct)
  have p: "?p \<in> set (l # as)" "?p \<notin> set (butlast (l # as))" "?p \<notin> set bs"
    using dist by (cases as rule: rev_cases; auto)+
  have n: "?n \<in> set (bs @ [l])" "?n \<notin> set as" "?n \<notin> set (tl (bs @ [l]))"
    using dist by (cases bs; auto)+
  have new': "new \<notin> set (tl (bs @ [l]))"
    using new by (cases bs) auto
  have c: "chain h l (as @ bs) l" using d by (simp add: dlist_def)
  obtain a b where ca: "chain h l as b" and cb: "chain h a bs l"
    using chain_split [OF c] by blast
  have "chain ?h' l as new"
    by (rule chain_retarget [OF ca]) (use p n new in \<open>auto simp: linked_def dest: in_set_butlastD\<close>)
  moreover have "chain ?h' new bs l"
    by (rule chain_resource [OF cb]) (use p n new new' in \<open>auto simp: linked_def dest: in_set_butlastD\<close>)
  ultimately show ?thesis
    using dist new by (auto simp: dlist_def chain_append)
qed

lemma list_del_eq:
  assumes "node h x" "prv h x = Some p" "nxt h x = Some n" "node h p" "node h n"
  shows "list_del x h = Inr (unlinked x p n h)"
  using assms
  by (simp add: list_del_def set_next_def set_prev_def node_def unlinked_def)

lemma dlist_unlinked:
  assumes d: "dlist h l (as @ x # bs)"
  shows "dlist (unlinked x (last (l # as)) (hd (bs @ [l])) h) l (as @ bs)"
proof -
  let ?p = "last (l # as)" and ?n = "hd (bs @ [l])"
  let ?h' = "unlinked x ?p ?n h"
  have dist: "distinct (l # as @ x # bs)" using d by (rule dlist_distinct)
  have p: "?p \<in> set (l # as)" "?p \<notin> set (butlast (l # as))" "?p \<notin> set bs"
    using dist by (cases as rule: rev_cases; auto)+
  have n: "?n \<in> set (bs @ [l])" "?n \<notin> set as" "?n \<notin> set (tl (bs @ [l]))"
    using dist by (cases bs; auto)+
  have ca: "chain h l as x" and cb: "chain h x bs l"
    using d by (auto simp: dlist_def chain_append)
  have A: "chain ?h' l as ?n"
    by (rule chain_retarget [OF ca])
      (use p n dist in \<open>auto simp: unlinked_def dest: in_set_butlastD\<close>)
  have "chain ?h' l (as @ bs) l"
  proof (cases bs)
    case Nil
    then show ?thesis using A by simp
  next
    case (Cons b bs')
    then have "chain ?h' b bs' l \<longleftrightarrow> chain h b bs' l"
      using p n dist by (intro chain_frame) (auto simp: unlinked_def)
    then show ?thesis using A cb Cons by (simp add: chain_append)
  qed
  then show ?thesis using dist by (auto simp: dlist_def)
qed

lemma dlist_frame:
  assumes "dlist h l xs"
    and "\<And>p. p \<in> set (l # xs) \<Longrightarrow> nxt h' p = nxt h p \<and> prv h' p = prv h p"
  shows "dlist h' l xs"
  using assms chain_frame [of l xs h' h l] by (auto simp: dlist_def)

lemma dlist_linked_other:
  "dlist h k ys \<Longrightarrow> {x, p, n} \<inter> set (k # ys) = {} \<Longrightarrow> dlist (linked x p n h) k ys"
  by (erule dlist_frame) (auto simp: linked_def)

lemma dlist_unlinked_other:
  "dlist h k ys \<Longrightarrow> {x, p, n} \<inter> set (k # ys) = {} \<Longrightarrow> dlist (unlinked x p n h) k ys"
  by (erule dlist_frame) (auto simp: unlinked_def)

lemma dlist_ends:
  assumes "dlist h l xs"
  shows "prv h l = Some (last (l # xs))" and "nxt h l = Some (hd (xs @ [l]))"
  using assms chain_last [of h l xs l] chain_hd [of h l xs l] by (auto simp: dlist_def)

lemma dlist_neighbours:
  assumes "dlist h l (as @ x # bs)"
  shows "prv h x = Some (last (l # as))" and "nxt h x = Some (hd (bs @ [l]))"
  using assms chain_last [of h l as x] chain_hd [of h x bs l]
  by (auto simp: dlist_def chain_append)

lemma last_hd_in: "last (l # as) \<in> set (l # as @ bs)" "hd (bs @ [l]) \<in> set (l # as @ bs)"
  by (cases as rule: rev_cases; auto) (cases bs; auto)

text \<open>
  The contract: what a user of the header may rely on, over any representation of
  sequences of nodes. \<open>repr h l xs\<close>: the list with head \<open>l\<close> holds \<open>xs\<close>; \<open>live h p\<close>: \<open>p\<close>
  is a node of the heap. Every operation succeeds, has its effect on the list it is
  given, keeps the set of nodes, and leaves every list that shares no node with it alone.
\<close>

locale intrusive_list =
  fixes repr :: "'h \<Rightarrow> 'p \<Rightarrow> 'p list \<Rightarrow> bool"
    and live :: "'h \<Rightarrow> 'p \<Rightarrow> bool"
    and add :: "'p \<Rightarrow> 'p \<Rightarrow> 'h \<Rightarrow> 'h res"
    and add_tail :: "'p \<Rightarrow> 'p \<Rightarrow> 'h \<Rightarrow> 'h res"
    and del :: "'p \<Rightarrow> 'h \<Rightarrow> 'h res"
    and is_empty :: "'p \<Rightarrow> 'h \<Rightarrow> bool res"
  assumes repr_distinct: "repr h l xs \<Longrightarrow> distinct (l # xs)"
    and repr_live: "repr h l xs \<Longrightarrow> p \<in> set (l # xs) \<Longrightarrow> live h p"
    and add_law: "repr h l xs \<Longrightarrow> live h x \<Longrightarrow> x \<notin> set (l # xs) \<Longrightarrow>
      \<exists>h'. add x l h = Inr h' \<and> repr h' l (x # xs) \<and> (\<forall>p. live h' p = live h p) \<and>
        (\<forall>k ys. repr h k ys \<longrightarrow> set (k # ys) \<inter> set (x # l # xs) = {} \<longrightarrow> repr h' k ys)"
    and add_tail_law: "repr h l xs \<Longrightarrow> live h x \<Longrightarrow> x \<notin> set (l # xs) \<Longrightarrow>
      \<exists>h'. add_tail x l h = Inr h' \<and> repr h' l (xs @ [x]) \<and> (\<forall>p. live h' p = live h p) \<and>
        (\<forall>k ys. repr h k ys \<longrightarrow> set (k # ys) \<inter> set (x # l # xs) = {} \<longrightarrow> repr h' k ys)"
    and del_law: "repr h l xs \<Longrightarrow> x \<in> set xs \<Longrightarrow>
      \<exists>h'. del x h = Inr h' \<and> repr h' l (remove1 x xs) \<and> (\<forall>p. live h' p = live h p) \<and>
        (\<forall>k ys. repr h k ys \<longrightarrow> set (k # ys) \<inter> set (l # xs) = {} \<longrightarrow> repr h' k ys)"
    and is_empty_law: "repr h l xs \<Longrightarrow> is_empty l h = Inr (xs = [])"
begin

lemma add_del_cancel:
  assumes "repr h l xs" "live h x" "x \<notin> set (l # xs)"
  shows "\<exists>h'. bindR (add x l h) (del x) = Inr h' \<and> repr h' l xs"
proof -
  obtain h1 where h1: "add x l h = Inr h1" "repr h1 l (x # xs)"
    using add_law [OF assms] by blast
  obtain h2 where "del x h1 = Inr h2" "repr h2 l (remove1 x (x # xs))"
    using del_law [OF h1(2), of x] by auto
  then show ?thesis using h1 by auto
qed

lemma add_tail_all:
  assumes "repr h l xs" "\<forall>y \<in> set ys. live h y" "distinct ys" "set ys \<inter> set (l # xs) = {}"
  shows "\<exists>h'. foldl (\<lambda>m y. bindR m (add_tail y l)) (Inr h) ys = Inr h' \<and> repr h' l (xs @ ys)"
  using assms
proof (induction ys arbitrary: h xs)
  case Nil
  then show ?case by simp
next
  case (Cons y ys)
  obtain h1 where h1: "add_tail y l h = Inr h1" "repr h1 l (xs @ [y])" "\<forall>p. live h1 p = live h p"
    using add_tail_law [of h l xs y] Cons.prems by auto
  then have "\<exists>h'. foldl (\<lambda>m y. bindR m (add_tail y l)) (Inr h1) ys = Inr h' \<and>
      repr h' l ((xs @ [y]) @ ys)"
    using Cons.prems by (intro Cons.IH) auto
  then show ?case using h1 by simp
qed

end

interpretation ll: intrusive_list dlist node list_add list_add_tail list_del list_empty
proof (unfold_locales, goal_cases)
  case (1 h l xs)
  then show ?case by (rule dlist_distinct)
next
  case (2 h l xs p)
  then show ?case by (rule dlist_node)
next
  case (3 h l xs x)
  let ?h' = "linked x l (hd (xs @ [l])) h"
  have nodes: "node h l" "node h (hd (xs @ [l]))"
    using dlist_node [OF 3(1)] last_hd_in(2) [where l = l and bs = xs and as = "[]"] by auto
  have "list_add x l h = Inr ?h'"
    using dlist_ends [OF 3(1)] nodes 3(2) by (simp add: list_add_def list_add_between_eq)
  moreover have "dlist ?h' l (x # xs)"
    using dlist_linked [where as = "[]"] 3 by fastforce
  moreover have "dlist ?h' k ys" if "dlist h k ys" "set (k # ys) \<inter> set (x # l # xs) = {}" for k ys
    using that last_hd_in(2) [where l = l and bs = xs and as = "[]"]
    by (intro dlist_linked_other) auto
  ultimately show ?case using nodes 3(2) by (auto simp: node_linked)
next
  case (4 h l xs x)
  let ?h' = "linked x (last (l # xs)) l h"
  have nodes: "node h l" "node h (last (l # xs))"
    using dlist_node [OF 4(1)] last_hd_in(1) [where l = l and as = xs and bs = "[]"] by auto
  have "list_add_tail x l h = Inr ?h'"
    using dlist_ends [OF 4(1)] nodes 4(2) by (simp add: list_add_tail_def list_add_between_eq)
  moreover have "dlist ?h' l (xs @ [x])"
    using dlist_linked [where bs = "[]"] 4 by fastforce
  moreover have "dlist ?h' k ys" if "dlist h k ys" "set (k # ys) \<inter> set (x # l # xs) = {}" for k ys
    using that last_hd_in(1) [where l = l and as = xs and bs = "[]"]
    by (intro dlist_linked_other) auto
  ultimately show ?case using nodes 4(2) by (auto simp: node_linked)
next
  case (5 h l xs x)
  obtain as bs where xs: "xs = as @ x # bs" using split_list [OF 5(2)] by blast
  have x: "x \<notin> set as" using dlist_distinct [OF 5(1)] xs by auto
  let ?p = "last (l # as)" and ?n = "hd (bs @ [l])"
  let ?h' = "unlinked x ?p ?n h"
  have nodes: "node h x" "node h ?p" "node h ?n"
    using dlist_node [OF 5(1)] last_hd_in [where l = l and as = as and bs = bs] xs by auto
  have "list_del x h = Inr ?h'"
    using dlist_neighbours [of h l as x bs] 5(1) xs nodes by (simp add: list_del_eq)
  moreover have "dlist ?h' l (remove1 x xs)"
    using dlist_unlinked [of h l as x bs] 5(1) x by (simp add: xs remove1_append)
  moreover have "dlist ?h' k ys" if "dlist h k ys" "set (k # ys) \<inter> set (l # xs) = {}" for k ys
  proof (rule dlist_unlinked_other [OF that(1)])
    have "{x, ?p, ?n} \<subseteq> set (l # xs)"
      using last_hd_in [where l = l and as = as and bs = bs] xs by auto
    then show "{x, ?p, ?n} \<inter> set (k # ys) = {}" using that(2) by blast
  qed
  ultimately show ?case using nodes by (auto simp: node_unlinked)
next
  case (6 h l xs)
  then show ?case
    using dlist_ends(2) [OF 6] dlist_distinct [OF 6] by (cases xs) (auto simp: list_empty_def)
qed

section \<open>Walking a list\<close>

text \<open>The loop of \<^verbatim>\<open>list_for_each\<close> over the sequence a list represents.\<close>

primrec iter_body ::
  "(u64 \<Rightarrow> 's \<Rightarrow> ('r option \<times> 's) res) \<Rightarrow> u64 list \<Rightarrow> 's \<Rightarrow> ('r option \<times> 's) res" where
  "iter_body body [] s = Inr (None, s)"
| "iter_body body (x # xs) s =
     bindR (body x s) (\<lambda>(r, s').
       case r of Some v \<Rightarrow> Inr (Some v, s') | None \<Rightarrow> iter_body body xs s')"

lemma for_each_loop_iter:
  assumes "chain (lh s) a xs l" "l \<notin> set xs" "length xs < fuel"
    and keep: "\<And>x t r t'. x \<in> set xs \<Longrightarrow> lh t = lh s \<Longrightarrow> body x t = Inr (r, t') \<Longrightarrow> lh t' = lh s"
  shows "for_each_loop fuel lh l body (hd (xs @ [l])) s = iter_body body xs s"
  using assms
proof (induction xs arbitrary: a s fuel)
  case Nil
  then show ?case by (simp add: for_each_loop.simps)
next
  case (Cons x xs)
  have step: "for_each_loop (fuel - 1) lh l body (hd (xs @ [l])) t = iter_body body xs t"
    if "body x s = Inr (None, t)" for t
  proof -
    have t: "lh t = lh s" using Cons.prems(4) [of x s None t] that by simp
    show ?thesis
      by (rule Cons.IH [of t x]) (use Cons.prems t in auto)
  qed
  have nx: "nxt (lh t) x = Some (hd (xs @ [l]))" if "body x s = Inr (None, t)" for t
    using Cons.prems(4) [of x s None t] that chain_hd [of "lh s" x xs l] Cons.prems(1) by simp
  show ?case
    using Cons.prems(2,3) step nx
    by (auto simp: for_each_loop.simps [of fuel] bindR_def split: sum.splits option.splits)
qed

lemma list_for_each_iter:
  assumes "dlist (lh s) l xs"
    and "\<And>x t r t'. x \<in> set xs \<Longrightarrow> lh t = lh s \<Longrightarrow> body x t = Inr (r, t') \<Longrightarrow> lh t' = lh s"
  shows "list_for_each lh l body s = iter_body body xs s"
proof -
  have "chain (lh s) l xs l" "l \<notin> set xs"
    using assms(1) by (simp_all add: dlist_def)
  then have "for_each_loop list_fuel lh l body (hd (xs @ [l])) s = iter_body body xs s"
    using dlist_length [OF assms(1)] assms(2) by (rule for_each_loop_iter)
  then show ?thesis
    using dlist_ends(2) [OF assms(1)] by (simp add: list_for_each_def)
qed

text \<open>
  A body that unlinks the node it is given leaves the walk at that node with a null
  successor: unless the body also returns, the next turn of the loop runs on \<open>NULL\<close>.
\<close>

lemma list_del_next_null:
  assumes "dlist h l xs" "x \<in> set xs"
  shows "\<exists>h'. list_del x h = Inr h' \<and> nxt h' x = Some NULL"
proof -
  obtain as bs where xs: "xs = as @ x # bs" using split_list [OF assms(2)] by blast
  have nodes: "node h x" "node h (last (l # as))" "node h (hd (bs @ [l]))"
    using dlist_node [OF assms(1)] last_hd_in [where l = l and as = as and bs = bs] xs by auto
  then show ?thesis
    using dlist_neighbours [of h l as x bs] assms(1) xs
    by (simp add: list_del_eq unlinked_def)
qed

section \<open>Properties\<close>

text \<open>Inserting a detached node with \<^verbatim>\<open>list_add\<close> or \<^verbatim>\<open>list_add_tail\<close> never faults and puts the
  node first, respectively last, in the sequence of the list; no other node appears or
  disappears and every list without a common node is unchanged.\<close>

theorem list_insert_refines:
  assumes "dlist h l xs" "node h x" "x \<notin> set (l # xs)"
  shows "\<exists>h1 h2. list_add x l h = Inr h1 \<and> dlist h1 l (x # xs) \<and>
      list_add_tail x l h = Inr h2 \<and> dlist h2 l (xs @ [x]) \<and>
      (\<forall>k ys. dlist h k ys \<longrightarrow> set (k # ys) \<inter> set (x # l # xs) = {} \<longrightarrow> dlist h1 k ys \<and> dlist h2 k ys)"
  using ll.add_law [OF assms] ll.add_tail_law [OF assms] by blast

theorem list_insert_refines_witness:
  "\<exists>h1 h2. list_add 16 8 \<lparr>prv = [8 \<mapsto> 8, 16 \<mapsto> 0], nxt = [8 \<mapsto> 8, 16 \<mapsto> 0]\<rparr> = Inr h1 \<and> dlist h1 8 [16] \<and>
     list_add_tail 16 8 \<lparr>prv = [8 \<mapsto> 8, 16 \<mapsto> 0], nxt = [8 \<mapsto> 8, 16 \<mapsto> 0]\<rparr> = Inr h2 \<and> dlist h2 8 [16]"
  using list_insert_refines [of "\<lparr>prv = [8 \<mapsto> 8, 16 \<mapsto> 0], nxt = [8 \<mapsto> 8, 16 \<mapsto> 0]\<rparr>" 8 "[]" 16]
  by (auto simp: dlist_def node_def)

text \<open>C26: \<^verbatim>\<open>list_del\<close> of a node of a list never faults, removes exactly that node from the
  sequence, leaves disjoint lists alone, and undoes a preceding \<^verbatim>\<open>list_add\<close>.\<close>

theorem list_del_refines:
  assumes "dlist h l xs"
  shows "(x \<in> set xs \<longrightarrow> (\<exists>h'. list_del x h = Inr h' \<and> dlist h' l (remove1 x xs) \<and>
      (\<forall>k ys. dlist h k ys \<longrightarrow> set (k # ys) \<inter> set (l # xs) = {} \<longrightarrow> dlist h' k ys))) \<and>
    (node h y \<and> y \<notin> set (l # xs) \<longrightarrow>
      (\<exists>h'. bindR (list_add y l h) (list_del y) = Inr h' \<and> dlist h' l xs))"
  using ll.del_law [OF assms, of x] ll.add_del_cancel [OF assms, of y] by blast

theorem list_del_refines_witness:
  "\<exists>h'. list_del 16 \<lparr>prv = [8 \<mapsto> 24, 16 \<mapsto> 8, 24 \<mapsto> 16], nxt = [8 \<mapsto> 16, 16 \<mapsto> 24, 24 \<mapsto> 8]\<rparr> = Inr h' \<and>
     dlist h' 8 [24]"
  using list_del_refines
    [of "\<lparr>prv = [8 \<mapsto> 24, 16 \<mapsto> 8, 24 \<mapsto> 16], nxt = [8 \<mapsto> 16, 16 \<mapsto> 24, 24 \<mapsto> 8]\<rparr>" 8 "[16, 24]" 16 0]
  by (auto simp: dlist_def)

text \<open>A \<^verbatim>\<open>list_for_each\<close> whose body leaves the links alone runs its body on every node of
  the list, in order, and ends (or returns early from the body).\<close>

theorem list_for_each_visits:
  assumes "dlist (lh s) l xs"
    and "\<And>x t r t'. x \<in> set xs \<Longrightarrow> lh t = lh s \<Longrightarrow> body x t = Inr (r, t') \<Longrightarrow> lh t' = lh s"
  shows "list_for_each lh l body s = iter_body body xs s"
  using assms by (rule list_for_each_iter)

theorem list_for_each_visits_witness:
  "list_for_each fst 8 (\<lambda>p (h, c). Inr (None :: unit option, (h, p # c)))
     (\<lparr>prv = [8 \<mapsto> 16, 16 \<mapsto> 8], nxt = [8 \<mapsto> 16, 16 \<mapsto> 8]\<rparr>, []) =
   Inr (None, (\<lparr>prv = [8 \<mapsto> 16, 16 \<mapsto> 8], nxt = [8 \<mapsto> 16, 16 \<mapsto> 8]\<rparr>, [16]))"
  by (subst list_for_each_visits [where xs = "[16]"]) (auto simp: dlist_def)

text \<open>A \<^verbatim>\<open>list_for_each\<close> whose body deletes the node it visits and goes on reaches the null
  address next: with no node there, the loop ends in a fault of the body on \<open>NULL\<close>.\<close>

theorem list_for_each_del_faults:
  assumes "dlist (lh s) l (x # xs)" "l \<noteq> NULL"
    and "body x s = Inr (None, s')" "list_del x (lh s) = Inr (lh s')" "body NULL s' = Inl e"
  shows "list_for_each lh l body s = Inl e"
proof -
  have b: "nxt (lh s') x = Some NULL"
    using assms(4) list_del_next_null [OF assms(1), of x] by auto
  have x: "nxt (lh s) l = Some x" "x \<noteq> l"
    using dlist_ends(2) [OF assms(1)] dlist_distinct [OF assms(1)] by auto
  have step: "for_each_loop (Suc (Suc n)) lh l body x s = Inl e" for n
    using x b assms(2,3,5) by (simp add: for_each_loop.simps)
  have "list_fuel = Suc (Suc (2 ^ 64 - 2))" by (simp add: list_fuel_def)
  then have "for_each_loop list_fuel lh l body x s = Inl e" using step by metis
  then show ?thesis using x(1) by (simp add: list_for_each_def)
qed

theorem list_for_each_del_faults_witness:
  "list_for_each id 8 (\<lambda>p h. bindR (list_del p h) (\<lambda>h'. Inr (None :: unit option, h')))
     \<lparr>prv = [8 \<mapsto> 16, 16 \<mapsto> 8], nxt = [8 \<mapsto> 16, 16 \<mapsto> 8]\<rparr> = Inl Null_deref"
  by (rule list_for_each_del_faults [where x = 16 and xs = "[]" and
        s' = "\<lparr>prv = [8 \<mapsto> 8, 16 \<mapsto> 0], nxt = [8 \<mapsto> 8, 16 \<mapsto> 0]\<rparr>"])
    (auto simp: dlist_def list_del_def set_next_def set_prev_def deref_def assign_def bad_ptr_def
      fun_upd_twist)

end
