(* ===== verification/Soft_Timer.thy ===== *)
theory Soft_Timer
  imports Kmalloc_Correct Linked_List
begin

text \<open>
  \<^verbatim>\<open>kernel/soft_timer.c\<close>: the list of software timers. A timer is an object of the kernel
  allocator; its fields are a typed heap, its list node (at offset 0) is a node of the list
  heap. Freeing a timer removes both, so that a later access through the old pointer is a
  fault. The body of a timer is a function pointer: calling it is the parameter \<open>run\<close>.
\<close>

section \<open>State\<close>

record timer =
  tm_count :: u64
  tm_goal :: u64
  tm_main :: u64
  tm_mode :: u64

record timer_state = km_state +
  lists :: list_heap
  timers :: "u64 \<rightharpoonup> timer"
  jiffies :: u64
  timer_head :: u64

definition ONESHOT :: u64 where "ONESHOT = 0"
definition PERIODIC :: u64 where "PERIODIC = 1"
definition sizeof_timer :: u32 where "sizeof_timer = 48"

text \<open>The list node of a fresh object; the code assigns both links before it reads them.\<close>

definition make_node :: "u64 \<Rightarrow> list_heap \<Rightarrow> list_heap" where
  "make_node p h = h\<lparr>prv := (prv h)(p \<mapsto> 0), nxt := (nxt h)(p \<mapsto> 0)\<rparr>"

definition drop_node :: "u64 \<Rightarrow> list_heap \<Rightarrow> list_heap" where
  "drop_node p h = h\<lparr>prv := (prv h)(p := None), nxt := (nxt h)(p := None)\<rparr>"

section \<open>Operations\<close>

definition timer_add :: "u64 \<Rightarrow> u64 \<Rightarrow> u64 \<Rightarrow> 'a timer_state_scheme \<Rightarrow> 'a timer_state_scheme res" where
  "timer_add count main mode s =
     bindR (kmalloc sizeof_timer s) (\<lambda>(new, s).
     let s = s\<lparr>timers := (timers s)(new \<mapsto>
               \<lparr>tm_count = count, tm_goal = jiffies s + count, tm_main = main, tm_mode = mode\<rparr>),
               lists := make_node new (lists s)\<rparr> in
     bindR (list_add new (timer_head s) (lists s)) (\<lambda>h. Inr (s\<lparr>lists := h\<rparr>)))"

definition timer_delete :: "u64 \<Rightarrow> 'a timer_state_scheme \<Rightarrow> 'a timer_state_scheme res" where
  "timer_delete t s =
     bindR (list_del t (lists s)) (\<lambda>h.
     bindR (kfree t (s\<lparr>lists := h\<rparr>)) (\<lambda>s.
     Inr (s\<lparr>timers := (timers s)(t := None), lists := drop_node t (lists s)\<rparr>)))"

text \<open>The body of the loop of \<^verbatim>\<open>walk_timer_list\<close>.\<close>

definition walk_body ::
  "(u64 \<Rightarrow> 'a timer_state_scheme \<Rightarrow> 'a timer_state_scheme res) \<Rightarrow> u64 \<Rightarrow> 'a timer_state_scheme
     \<Rightarrow> (unit option \<times> 'a timer_state_scheme) res" where
  "walk_body run pos s =
     bindR (deref (timers s) pos) (\<lambda>t.
     if tm_goal t < jiffies s then Inr (None, s)
     else
       bindR (if tm_main t \<noteq> NULL then run (tm_main t) s else Inr s) (\<lambda>s.
       bindR (deref (timers s) pos) (\<lambda>t.
       if tm_mode t = PERIODIC
       then Inr (None, s\<lparr>timers := (timers s)(pos \<mapsto> t\<lparr>tm_goal := jiffies s + tm_count t\<rparr>)\<rparr>)
       else bindR (timer_delete pos s) (\<lambda>s. Inr (None, s)))))"

definition walk_timer_list ::
  "(u64 \<Rightarrow> 'a timer_state_scheme \<Rightarrow> 'a timer_state_scheme res) \<Rightarrow> 'a timer_state_scheme
     \<Rightarrow> 'a timer_state_scheme res" where
  "walk_timer_list run s =
     bindR (list_for_each lists (timer_head s) (walk_body run) s) (\<lambda>(_, s). Inr s)"

text \<open>\<^verbatim>\<open>init_timer\<close> adds the periodic timer of \<^verbatim>\<open>timer_handler0\<close>, whose address is \<open>handler0\<close>.\<close>

definition init_timer :: "u64 \<Rightarrow> 'a timer_state_scheme \<Rightarrow> 'a timer_state_scheme res" where
  "init_timer handler0 s = timer_add 100 handler0 PERIODIC s"

section \<open>Invariant\<close>

text \<open>
  The timer list holds live timers; its head, a static variable, lies outside the pages of
  the allocators.
\<close>

definition timer_inv :: "'a timer_state_scheme \<Rightarrow> u64 list \<Rightarrow> bool" where
  "timer_inv s ts \<longleftrightarrow> km_inv s \<and> dlist (lists s) (timer_head s) ts \<and>
     (\<forall>p \<in> page_pool. \<not> in_page p (timer_head s)) \<and>
     (\<forall>t \<in> set ts. timers s t \<noteq> None \<and> t \<in> fst ` live s)"

lemma km_more [simp]:
  fixes s :: "'a timer_state_scheme"
  shows "km_inv (s\<lparr>lists := h\<rparr>) = km_inv s" "km_inv (s\<lparr>timers := m\<rparr>) = km_inv s"
    and "live (s\<lparr>lists := h\<rparr>) = live s" "live (s\<lparr>timers := m\<rparr>) = live s"
    and "used_pages (s\<lparr>lists := h\<rparr>) = used_pages s" "used_pages (s\<lparr>timers := m\<rparr>) = used_pages s"
  by (simp_all add: km_inv_def km_rel_def desc_ok_def desc_of_def obj_pages_def live_def used_pages_def mm_inv_def)

lemma more_fields:
  fixes s s' :: "'a timer_state_scheme"
  assumes "km_state.more s' = km_state.more s"
  shows "lists s' = lists s" "timers s' = timers s" "jiffies s' = jiffies s" "timer_head s' = timer_head s"
    and "timer_state.more s' = timer_state.more s"
  using assms by (cases s; cases s'; simp)+

lemma live_in_pool:
  assumes "km_inv s" "(x, n) \<in> live s"
  shows "\<exists>p \<in> page_pool. in_page p x"
proof -
  obtain C Fd Fo where R: "km_rel s C Fd Fo" using assms(1) by (auto simp: km_inv_def)
  obtain k where "n = obj_size k" using assms(2) live_iff [OF R] by auto
  then have "0 < n" using obj_size_bounds(1) [of k] by simp
  then have "in_block x n x" by (simp add: in_block_def)
  then show ?thesis using live_block_used [OF R assms(2)] used_pool_page by blast
qed

lemma dlist_make_node:
  assumes "dlist h l xs" "x \<notin> set (l # xs)"
  shows "dlist (make_node x h) l xs" "node (make_node x h) x"
proof -
  show "dlist (make_node x h) l xs" by (rule dlist_frame [OF assms(1)]) (use assms(2) in \<open>auto simp: make_node_def\<close>)
  show "node (make_node x h) x" by (simp add: node_def make_node_def)
qed

lemma dlist_drop_node:
  assumes "dlist h l xs" "x \<notin> set (l # xs)"
  shows "dlist (drop_node x h) l xs"
  by (rule dlist_frame [OF assms(1)]) (use assms(2) in \<open>auto simp: drop_node_def\<close>)

lemma timer_add_inv:
  assumes I: "timer_inv s ts" and room: "2 \<le> card (page_pool - used_pages s)"
  shows "\<exists>x s'. timer_add count main mode s = Inr s' \<and> timer_inv s' (x # ts) \<and> x \<notin> set ts \<and>
    timers s' = (timers s)(x \<mapsto> \<lparr>tm_count = count, tm_goal = jiffies s + count, tm_main = main, tm_mode = mode\<rparr>) \<and>
    jiffies s' = jiffies s \<and> (\<exists>n. 48 \<le> n \<and> live s' = insert (x, n) (live s) \<and> (\<forall>m. (x, m) \<notin> live s))"
proof -
  have inv: "km_inv s" and d: "dlist (lists s) (timer_head s) ts" using I by (auto simp: timer_inv_def)
  have l: "sizeof_timer \<le> 4096" and e: "km_enough s" using room by (simp_all add: sizeof_timer_def km_enough_def)
  obtain x n s1 where k: "kmalloc sizeof_timer s = Inr (x, s1)" "km_inv s1" "\<forall>m. (x, m) \<notin> live s"
      "live s1 = insert (x, n) (live s)" "48 \<le> n"
    using km.alloc_law [OF inv e l] by (auto simp: sizeof_timer_def)
  note mf = more_fields [OF kmalloc_more [OF k(1)]]
  obtain p where p: "p \<in> page_pool" "in_page p x" using live_in_pool [OF k(2), of x n] k(4) by auto
  have x: "x \<notin> set (timer_head s # ts)" using I k(3) p by (auto simp: timer_inv_def)
  let ?h = "make_node x (lists s)"
  note mk = dlist_make_node [OF d x]
  obtain h' where h': "list_add x (timer_head s) ?h = Inr h'" "dlist h' (timer_head s) (x # ts)"
    using ll.add_law [OF mk x] by blast
  let ?t = "(timers s)(x \<mapsto> \<lparr>tm_count = count, tm_goal = jiffies s + count, tm_main = main, tm_mode = mode\<rparr>)"
  have "timer_add count main mode s = Inr (s1\<lparr>timers := ?t, lists := h'\<rparr>)"
    using k(1) h'(1) mf by (simp add: timer_add_def)
  moreover have "timer_inv (s1\<lparr>timers := ?t, lists := h'\<rparr>) (x # ts)"
    using I k(2,4) h'(2) mf by (auto simp: timer_inv_def)
  moreover have "live (s1\<lparr>timers := ?t, lists := h'\<rparr>) = insert (x, n) (live s)" using k(4) by simp
  ultimately show ?thesis using x k(3,5)
    by (intro exI [of _ x] exI [of _ "s1\<lparr>timers := ?t, lists := h'\<rparr>"]) (auto simp: mf)
qed

text \<open>An address outside the pages of the allocator.\<close>

definition static_addr :: "u64 \<Rightarrow> bool" where
  "static_addr x \<longleftrightarrow> (\<forall>p \<in> page_pool. \<not> in_page p x)"

text \<open>Adding a timer changes no list that lies outside the pages and is not the list of timers.\<close>

lemma timer_add_frame:
  fixes s :: "'a timer_state_scheme"
  assumes I: "timer_inv s ts" and room: "2 \<le> card (page_pool - used_pages s)" and r: "timer_add c m md s = Inr s'"
  shows "timer_state.more s' = timer_state.more s" "DAIF s' = DAIF s"
    and "dlist (lists s) l ys \<Longrightarrow> set (l # ys) \<inter> set (timer_head s # ts) = {} \<Longrightarrow> (\<forall>y \<in> set (l # ys). static_addr y) \<Longrightarrow>
      dlist (lists s') l ys"
proof -
  have inv: "km_inv s" and d: "dlist (lists s) (timer_head s) ts" using I by (auto simp: timer_inv_def)
  obtain C Fd Fo where R: "km_rel s C Fd Fo" using inv by (auto simp: km_inv_def)
  obtain x n s1 C' Fd' Fo' where k: "kmalloc sizeof_timer s = Inr (x, s1)" "km_rel s1 C' Fd' Fo'" "live s1 = insert (x, n) (live s)"
      "\<forall>m. (x, m) \<notin> live s" "mem_kept s s1"
    using kmalloc_rel [OF R _ room, of sizeof_timer] by (auto simp: sizeof_timer_def)
  note mf = more_fields [OF kmalloc_more [OF k(1)]]
  obtain p where p: "p \<in> page_pool" "in_page p x" using live_in_pool [of s1 x n] k(2,3) by (auto simp: km_inv_def)
  have x: "x \<notin> set (timer_head s # ts)" using I k(4) p by (auto simp: timer_inv_def)
  note mk = dlist_make_node [OF d x]
  obtain h' where h': "list_add x (timer_head s) (make_node x (lists s)) = Inr h'"
      "\<And>l ys. dlist (make_node x (lists s)) l ys \<Longrightarrow> set (l # ys) \<inter> set (x # timer_head s # ts) = {} \<Longrightarrow> dlist h' l ys"
    using ll.add_law [OF mk x] by blast
  have s': "s' = s1\<lparr>timers := (timers s)(x \<mapsto> \<lparr>tm_count = c, tm_goal = jiffies s + c, tm_main = m, tm_mode = md\<rparr>), lists := h'\<rparr>"
    using r k(1) h'(1) mf by (simp add: timer_add_def)
  show "timer_state.more s' = timer_state.more s" "DAIF s' = DAIF s" using s' mf k(5) by (simp_all add: mem_kept_def)
  assume a: "dlist (lists s) l ys" "set (l # ys) \<inter> set (timer_head s # ts) = {}" "\<forall>y \<in> set (l # ys). static_addr y"
  then have "x \<notin> set (l # ys)" using p by (auto simp: static_addr_def)
  then have "dlist h' l ys" using a(2) dlist_make_node(1) [OF a(1)] by (intro h'(2)) auto
  then show "dlist (lists s') l ys" using s' by simp
qed

lemma timer_delete_inv:
  assumes I: "timer_inv s ts" and t: "t \<in> set ts"
  shows "\<exists>s'. timer_delete t s = Inr s' \<and> timer_inv s' (remove1 t ts) \<and> nxt (lists s') t = None \<and>
    timers s' = (timers s)(t := None) \<and> (\<exists>n. (t, n) \<in> live s \<and> live s' = live s - {(t, n)})"
proof -
  have inv: "km_inv s" and d: "dlist (lists s) (timer_head s) ts" using I by (auto simp: timer_inv_def)
  obtain h where h: "list_del t (lists s) = Inr h" "dlist h (timer_head s) (remove1 t ts)"
    using ll.del_law [OF d t] by blast
  obtain n where n: "(t, n) \<in> live s" using I t by (auto simp: timer_inv_def)
  have i1: "km_inv (s\<lparr>lists := h\<rparr>)" "(t, n) \<in> live (s\<lparr>lists := h\<rparr>)" using inv n by simp_all
  obtain s1 where k: "kfree t (s\<lparr>lists := h\<rparr>) = Inr s1" "km_inv s1" "live s1 = live s - {(t, n)}"
    using km.release_law [OF i1] by auto
  note mf = more_fields [OF free_s_more [OF k(1) [unfolded kfree_def]]]
  let ?s' = "s1\<lparr>timers := (timers s)(t := None), lists := drop_node t h\<rparr>"
  have dis: "distinct (timer_head s # ts)" using d by (rule dlist_distinct)
  then have nt: "t \<notin> set (timer_head s # remove1 t ts)" using t by auto
  have run: "timer_delete t s = Inr ?s'" using h(1) k(1) mf by (simp add: timer_delete_def)
  have "timers ?s' u \<noteq> None \<and> u \<in> fst ` live ?s'" if "u \<in> set (remove1 t ts)" for u
  proof -
    have u: "u \<in> set ts" "u \<noteq> t" using that dis by auto
    then have "timers s u \<noteq> None" "u \<in> fst ` live s" using I by (auto simp: timer_inv_def)
    moreover have "u \<in> fst ` (live s - {(t, n)})" using calculation(2) u(2) by (auto simp: image_iff)
    ultimately show ?thesis using u k(3) by simp
  qed
  then have "timer_inv ?s' (remove1 t ts)"
    using I k(2) dlist_drop_node [OF h(2) nt] mf by (auto simp: timer_inv_def)
  moreover have "live ?s' = live s - {(t, n)}" using k(3) by simp
  ultimately show ?thesis using run n by (intro exI [of _ ?s']) (auto simp: drop_node_def)
qed

section \<open>Walking the timer list\<close>

text \<open>What one visit does to a periodic timer, and to a log \<open>c\<close> of the calls made.\<close>

definition rearm :: "u64 \<Rightarrow> timer \<Rightarrow> timer" where
  "rearm j t = (if tm_goal t < j then t else t\<lparr>tm_goal := j + tm_count t\<rparr>)"

definition fire :: "(u64 \<Rightarrow> 'c \<Rightarrow> 'c) \<Rightarrow> 'c timer_state_scheme \<Rightarrow> u64 \<Rightarrow> 'c \<Rightarrow> 'c" where
  "fire log s p c =
     (case timers s p of
        None \<Rightarrow> c
      | Some t \<Rightarrow> if tm_goal t < jiffies s \<or> tm_main t = NULL then c else log (tm_main t) c)"

definition logged :: "(u64 \<Rightarrow> 'c \<Rightarrow> 'c) \<Rightarrow> u64 \<Rightarrow> 'c timer_state_scheme \<Rightarrow> 'c timer_state_scheme res" where
  "logged log f s = Inr (timer_state.more_update (log f) s)"

definition visited :: "(u64 \<Rightarrow> 'c \<Rightarrow> 'c) \<Rightarrow> u64 list \<Rightarrow> 'c timer_state_scheme \<Rightarrow> 'c timer_state_scheme" where
  "visited log ts s = timer_state.more_update (fold (fire log s) ts)
     (s\<lparr>timers := (\<lambda>p. if p \<in> set ts then map_option (rearm (jiffies s)) (timers s p) else timers s p)\<rparr>)"

lemma walk_body_periodic:
  assumes "timers s p = Some t" "tm_mode t = PERIODIC"
  shows "walk_body (logged log) p s = Inr (None, visited log [p] s)"
proof -
  have upd: "(\<lambda>q. if q = p then Some v else timers s q) = (timers s)(p \<mapsto> v)" for v by auto
  have "timers s = (timers s)(p \<mapsto> t)" using assms(1) by auto
  then show ?thesis
    using assms by (cases s) (auto simp: walk_body_def visited_def logged_def fire_def rearm_def fun_eq_iff)
qed

lemma visited_fields:
  "lists (visited log ts s) = lists s" "jiffies (visited log ts s) = jiffies s"
  "timers (visited log ts s) p = (if p \<in> set ts then map_option (rearm (jiffies s)) (timers s p) else timers s p)"
  by (cases s; simp add: visited_def)+

lemma visited_Cons:
  assumes "p \<notin> set ts"
  shows "visited log ts (visited log [p] s) = visited log (p # ts) s"
proof -
  have F: "fold (fire log (visited log [p] s)) ts = fold (fire log s) ts"
    using assms by (intro ext fold_cong) (auto simp: fire_def visited_fields fun_eq_iff split: option.splits)
  have T: "(\<lambda>q. if q \<in> set ts then map_option (rearm (jiffies s)) (timers (visited log [p] s) q)
      else timers (visited log [p] s) q) =
    (\<lambda>q. if q \<in> set (p # ts) then map_option (rearm (jiffies s)) (timers s q) else timers s q)"
    using assms by (auto simp: visited_fields fun_eq_iff)
  show ?thesis
    unfolding visited_def [of log ts] F visited_fields(2) T by (cases s) (simp add: visited_def o_def cong: if_cong)
qed

lemma walk_iter:
  assumes "distinct ts" "\<forall>p \<in> set ts. \<exists>t. timers s p = Some t \<and> tm_mode t = PERIODIC"
  shows "iter_body (walk_body (logged log)) ts s = Inr (None, visited log ts s)"
  using assms
proof (induction ts arbitrary: s)
  case Nil
  then show ?case by (cases s) (simp add: visited_def)
next
  case (Cons p ts)
  obtain t where t: "timers s p = Some t" "tm_mode t = PERIODIC" using Cons.prems(2) by auto
  have "\<forall>q \<in> set ts. \<exists>t. timers (visited log [p] s) q = Some t \<and> tm_mode t = PERIODIC"
    using Cons.prems by (auto simp: visited_def)
  then have "iter_body (walk_body (logged log)) ts (visited log [p] s) =
      Inr (None, visited log ts (visited log [p] s))"
    using Cons.prems(1) by (intro Cons.IH) simp_all
  then show ?case
    using walk_body_periodic [OF t, of log] visited_Cons [of p ts log s] Cons.prems(1) by simp
qed

lemma walk_loop:
  assumes "chain (lists t) a xs l" "l \<notin> set xs" "length xs < fuel"
    "\<forall>p \<in> set xs. \<exists>v. timers t p = Some v \<and> tm_mode v = PERIODIC" "distinct xs"
  shows "for_each_loop fuel lists l (walk_body (logged log)) (hd (xs @ [l])) t = iter_body (walk_body (logged log)) xs t"
  using assms
proof (induction xs arbitrary: a t fuel)
  case Nil
  then show ?case by (simp add: for_each_loop.simps)
next
  case (Cons x xs)
  obtain v where v: "timers t x = Some v" "tm_mode v = PERIODIC" using Cons.prems(4) by auto
  let ?t = "visited log [x] t"
  have "for_each_loop (fuel - 1) lists l (walk_body (logged log)) (hd (xs @ [l])) ?t =
      iter_body (walk_body (logged log)) xs ?t"
    using Cons.prems by (intro Cons.IH [of ?t x]) (auto simp: visited_fields rearm_def)
  moreover have "nxt (lists t) x = Some (hd (xs @ [l]))"
    using Cons.prems(1) chain_hd [of "lists t" x xs l] by simp
  ultimately show ?case
    using Cons.prems(2,3) walk_body_periodic [OF v, of log]
    by (subst for_each_loop.simps) (auto simp: visited_fields)
qed

section \<open>Properties\<close>

text \<open>C33: \<^verbatim>\<open>timer_add\<close> returns (two pages being free), allocates one new object, puts it as a timer at the
  head of the list with its goal \<^verbatim>\<open>count\<close> jiffies ahead and keeps every other timer. After that
  \<^verbatim>\<open>timer_delete\<close> of any timer of the list, the new one or an old one, returns; it takes exactly that
  timer out, frees its object and no other, and the list and the allocator stay well formed.\<close>

theorem timer_add_delete:
  assumes "timer_inv s ts" "2 \<le> card (page_pool - used_pages s)"
  shows "\<exists>x n s'. timer_add count main mode s = Inr s' \<and> timer_inv s' (x # ts) \<and> x \<notin> set ts \<and>
    timers s' = (timers s)(x \<mapsto> \<lparr>tm_count = count, tm_goal = jiffies s + count, tm_main = main, tm_mode = mode\<rparr>) \<and>
    48 \<le> n \<and> live s' = insert (x, n) (live s) \<and> (\<forall>m. (x, m) \<notin> live s) \<and>
    (\<forall>y \<in> set (x # ts). \<exists>s'' m. timer_delete y s' = Inr s'' \<and> timer_inv s'' (remove1 y (x # ts)) \<and>
       timers s'' = (timers s')(y := None) \<and> (y, m) \<in> live s' \<and> live s'' = live s' - {(y, m)})"
proof -
  obtain x n s' where a: "timer_add count main mode s = Inr s'" "timer_inv s' (x # ts)" "x \<notin> set ts"
      "timers s' = (timers s)(x \<mapsto> \<lparr>tm_count = count, tm_goal = jiffies s + count, tm_main = main, tm_mode = mode\<rparr>)"
      "48 \<le> n" "live s' = insert (x, n) (live s)" "\<forall>m. (x, m) \<notin> live s"
    using timer_add_inv [OF assms] by blast
  have "\<exists>s'' m. timer_delete y s' = Inr s'' \<and> timer_inv s'' (remove1 y (x # ts)) \<and>
      timers s'' = (timers s')(y := None) \<and> (y, m) \<in> live s' \<and> live s'' = live s' - {(y, m)}" if "y \<in> set (x # ts)" for y
    using timer_delete_inv [OF a(2) that] by blast
  with a show ?thesis by blast
qed

text \<open>C34: On a list of periodic timers \<^verbatim>\<open>walk_timer_list\<close> visits every timer once. It calls the
  bodies of exactly the timers whose goal is \<^emph>\<open>not\<close> yet passed, in list order, and moves their
  goals to \<^verbatim>\<open>jiffies + count\<close>; the timers whose goal is passed it skips.\<close>

theorem walk_timer_list_periodic:
  assumes "timer_inv s ts" "\<forall>p \<in> set ts. \<exists>t. timers s p = Some t \<and> tm_mode t = PERIODIC"
  shows "walk_timer_list (logged log) s = Inr (visited log ts s)"
proof -
  have d: "dlist (lists s) (timer_head s) ts" using assms(1) by (simp add: timer_inv_def)
  have "for_each_loop list_fuel lists (timer_head s) (walk_body (logged log)) (hd (ts @ [timer_head s])) s =
      iter_body (walk_body (logged log)) ts s"
    using d assms(2) dlist_length [OF d] by (intro walk_loop) (auto simp: dlist_def)
  then have "list_for_each lists (timer_head s) (walk_body (logged log)) s = iter_body (walk_body (logged log)) ts s"
    using dlist_ends(2) [OF d] by (simp add: list_for_each_def)
  then show ?thesis
    using walk_iter [OF _ assms(2), of log] dlist_distinct [OF d] by (simp add: walk_timer_list_def)
qed

text \<open>A one-shot timer that fires ends \<^verbatim>\<open>walk_timer_list\<close> in a fault: the loop reads the successor
  of a node that was just freed.\<close>

theorem walk_timer_list_oneshot_faults:
  assumes "timer_inv s (p # ts)" "timers s p = Some t" "tm_mode t \<noteq> PERIODIC" "jiffies s \<le> tm_goal t" "tm_main t = NULL"
  shows "walk_timer_list run s = Inl (bad_ptr p)"
proof -
  have d: "dlist (lists s) (timer_head s) (p # ts)" using assms(1) by (simp add: timer_inv_def)
  obtain s' where s': "timer_delete p s = Inr s'" "nxt (lists s') p = None"
    using timer_delete_inv [OF assms(1), of p] by auto
  have b: "walk_body run p s = Inr (None, s')"
    using assms(2-5) s'(1) by (simp add: walk_body_def not_less)
  have e: "nxt (lists s) (timer_head s) = Some p" "p \<noteq> timer_head s"
    using dlist_ends(2) [OF d] dlist_distinct [OF d] by auto
  have "0 < list_fuel" by (simp add: list_fuel_def)
  then have "for_each_loop list_fuel lists (timer_head s) (walk_body run) p s = Inl (bad_ptr p)"
    using e b s'(2) by (subst for_each_loop.simps) simp
  then show ?thesis using e(1) by (simp add: walk_timer_list_def list_for_each_def)
qed

text \<open>A kernel with an empty timer list whose head is a static variable at \<open>0xffff000000090000\<close>.\<close>

definition fresh_timer :: timer_state where
  "fresh_timer = km_state.extend (km_state.truncate fresh_km) (timer_state.fields
     \<lparr>prv = [0xffff000000090000 \<mapsto> 0xffff000000090000], nxt = [0xffff000000090000 \<mapsto> 0xffff000000090000]\<rparr>
     Map.empty 7 0xffff000000090000)"

lemma km_inv_truncate:
  "km_inv (km_state.extend (km_state.truncate s) m) = km_inv s"
  "live (km_state.extend (km_state.truncate s) m) = live s"
  "used_pages (km_state.extend (km_state.truncate s) m) = used_pages s"
  by (simp_all add: km_inv_def km_rel_def desc_ok_def desc_of_def obj_pages_def live_def used_pages_def
      mm_inv_def km_state.defs)

lemma static_not_pool: "x \<le> 0xffff00000017ffff \<Longrightarrow> p \<in> page_pool \<Longrightarrow> \<not> in_page p x"
  by (auto simp: page_pool_def in_page_unat word_le_nat_alt)

lemma fresh_timer_fields:
  "lists fresh_timer = \<lparr>prv = [0xffff000000090000 \<mapsto> 0xffff000000090000], nxt = [0xffff000000090000 \<mapsto> 0xffff000000090000]\<rparr>"
  "timers fresh_timer = Map.empty" "jiffies fresh_timer = 7" "timer_head fresh_timer = 0xffff000000090000"
  by (simp_all add: fresh_timer_def timer_state.defs km_state.defs)

lemma fresh_timer_inv: "timer_inv fresh_timer []"
proof -
  have "km_inv fresh_timer" unfolding fresh_timer_def km_inv_truncate by (rule fresh_km_inv)
  then show ?thesis using static_not_pool by (simp add: timer_inv_def fresh_timer_fields dlist_def)
qed

lemma fresh_timer_room: "card (page_pool - used_pages fresh_timer) = 3840"
  unfolding fresh_timer_def km_inv_truncate by (rule fresh_km_room)

theorem timer_add_delete_witness:
  "\<exists>x n s' s''. timer_add 100 0 PERIODIC fresh_timer = Inr s' \<and> timer_inv s' [x] \<and> live s' = insert (x, n) (live fresh_timer) \<and>
     timer_delete x s' = Inr s'' \<and> timer_inv s'' [] \<and> live s'' = live fresh_timer"
proof -
  obtain x n s' s'' m where a: "timer_add 100 0 PERIODIC fresh_timer = Inr s'" "timer_inv s' [x]"
      "live s' = insert (x, n) (live fresh_timer)" "\<forall>m. (x, m) \<notin> live fresh_timer"
      "timer_delete x s' = Inr s''" "timer_inv s'' []" "(x, m) \<in> live s'" "live s'' = live s' - {(x, m)}"
    using timer_add_delete [OF fresh_timer_inv, of 100 0 PERIODIC] by (auto simp: fresh_timer_room)
  then have "live s'' = live fresh_timer" by auto
  then show ?thesis using a(1,2,3,5,6) by blast
qed

theorem walk_timer_list_periodic_witness:
  "\<exists>x s s'. timer_add 100 0 PERIODIC fresh_timer = Inr s \<and> walk_timer_list (logged (\<lambda>_ c. c)) s = Inr s' \<and>
     timers s x = Some \<lparr>tm_count = 100, tm_goal = 107, tm_main = 0, tm_mode = PERIODIC\<rparr> \<and> timers s' x \<noteq> None"
proof -
  obtain x s where a: "timer_add 100 0 PERIODIC fresh_timer = Inr s" "timer_inv s [x]"
      "timers s = (timers fresh_timer)(x \<mapsto> \<lparr>tm_count = 100, tm_goal = jiffies fresh_timer + 100, tm_main = 0, tm_mode = PERIODIC\<rparr>)"
    using timer_add_inv [OF fresh_timer_inv, of 100 0 PERIODIC] by (auto simp: fresh_timer_room)
  have "walk_timer_list (logged (\<lambda>_ c. c)) s = Inr (visited (\<lambda>_ c. c) [x] s)"
    by (rule walk_timer_list_periodic [OF a(2)]) (simp add: a(3))
  then show ?thesis using a
    by (intro exI [of _ x] exI [of _ s] exI [of _ "visited (\<lambda>_ c. c) [x] s"])
      (simp add: visited_def fresh_timer_fields)
qed

theorem walk_timer_list_oneshot_faults_witness:
  "\<exists>x s. timer_add 100 0 ONESHOT fresh_timer = Inr s \<and> walk_timer_list (\<lambda>_. Inr) s = Inl (bad_ptr x)"
proof -
  obtain x s where a: "timer_add 100 0 ONESHOT fresh_timer = Inr s" "timer_inv s [x]"
      "timers s = (timers fresh_timer)(x \<mapsto> \<lparr>tm_count = 100, tm_goal = jiffies fresh_timer + 100, tm_main = 0, tm_mode = ONESHOT\<rparr>)"
      "jiffies s = jiffies fresh_timer"
    using timer_add_inv [OF fresh_timer_inv, of 100 0 ONESHOT] by (auto simp: fresh_timer_room)
  have "walk_timer_list (\<lambda>_. Inr) s = Inl (bad_ptr x)"
    by (rule walk_timer_list_oneshot_faults [OF a(2),
          where t = "\<lparr>tm_count = 100, tm_goal = 107, tm_main = 0, tm_mode = ONESHOT\<rparr>"])
      (simp_all add: a(3,4) fresh_timer_fields ONESHOT_def PERIODIC_def)
  then show ?thesis using a(1) by blast
qed

end
