(* ===== verification/Page_Table.thy ===== *)
theory Page_Table
  imports Mm
begin

text \<open>
  The page tables of \<^verbatim>\<open>mm/mm.c\<close>: the 2 MB sections of the kernel (\<^verbatim>\<open>map_kernel_section\<close>)
  and the 4 KB pages of a user address space (\<^verbatim>\<open>alloc_user_page\<close>). Tables are pages of the
  modelled memory; an entry is the 64-bit word at its kernel address. \<open>pt_walk\<close> is the
  translation the hardware makes, and the specification of both routines: what was mapped
  stays mapped to the same frame, and the requested address is mapped afterwards.
\<close>

section \<open>Entries\<close>

definition PGD_SHIFT :: nat where "PGD_SHIFT = 39"
definition PUD_SHIFT :: nat where "PUD_SHIFT = 30"
definition PMD_SHIFT :: nat where "PMD_SHIFT = 21"
definition PTE_SHIFT :: nat where "PTE_SHIFT = 12"
definition TABLE_MASK :: u64 where "TABLE_MASK = push_bit 9 1 - 1"
definition SECTION_SHIFT :: nat where "SECTION_SHIFT = 21"
definition SECTION_SIZE :: u64 where "SECTION_SIZE = push_bit SECTION_SHIFT 1"
definition SECTION_MASK :: u64 where "SECTION_MASK = push_bit SECTION_SHIFT 1 - 1"
definition ENTRY_SHIFT :: nat where "ENTRY_SHIFT = 3"
definition MM_TYPE_PAGE_TABLE :: u64 where "MM_TYPE_PAGE_TABLE = 3"
definition MMU_FLAGS :: u64 where "MMU_FLAGS = push_bit 10 1 OR push_bit 2 1 OR 1"
definition MMU_DEVICE_FLAGS :: u64 where "MMU_DEVICE_FLAGS = push_bit 10 1 OR push_bit 2 0 OR 1"
definition MMU_PTE_FLAGS :: u64 where
  "MMU_PTE_FLAGS = push_bit 10 1 OR push_bit 6 1 OR push_bit 2 1 OR 3"
definition MAX_USER_PAGES :: nat where "MAX_USER_PAGES = 16"
definition MAX_PGTBL_PAGES :: nat where "MAX_PGTBL_PAGES = 8"

definition ENTRY_GET_ADDR :: "u64 \<Rightarrow> u64" where
  "ENTRY_GET_ADDR m = m AND NOT PAGE_MASK"

definition table_index :: "nat \<Rightarrow> u64 \<Rightarrow> u64" where
  "table_index shift addr = drop_bit shift addr AND TABLE_MASK"

text \<open>The address of entry \<open>i\<close> of the table at kernel address \<open>t\<close>.\<close>

definition entry_at :: "u64 \<Rightarrow> u64 \<Rightarrow> u64" where
  "entry_at t i = t + push_bit ENTRY_SHIFT i"

text \<open>
  The step both routines repeat at every level: an empty entry gets a fresh page, whose
  kernel address is returned. Memory is total: an entry at a wrong address is some eight bytes
  and no abort.
\<close>

definition fill_entry ::
  "u64 \<Rightarrow> u64 \<Rightarrow> 'a mm_state_scheme \<Rightarrow> (u64 option \<times> 'a mm_state_scheme) res" where
  "fill_entry e bits s =
     (if load64 (mem s) e = 0
      then bindR (get_free_page GFP_KERNEL s) (\<lambda>(v, s').
             Inr (Some v, s'\<lparr>mem := store64 (mem s') e (pa_of v OR bits)\<rparr>))
      else Inr (None, s))"

section \<open>Kernel sections\<close>

text \<open>
  \<open>pg_tbl_start\<close> is the linker symbol of the kernel's top-level table. The message for a section that
  is mapped already is not printed.
\<close>

definition map_kernel_section ::
  "u64 \<Rightarrow> u64 \<Rightarrow> u64 \<Rightarrow> u64 \<Rightarrow> 'a mm_state_scheme \<Rightarrow> 'a mm_state_scheme res" where
  "map_kernel_section pg_tbl_start p addr flags s =
     (if flags \<noteq> MMU_FLAGS \<and> flags \<noteq> MMU_DEVICE_FLAGS then Inr s
      else
        let pgd_entry = entry_at pg_tbl_start (table_index PGD_SHIFT addr)
        in bindR (fill_entry pgd_entry MM_TYPE_PAGE_TABLE s) (\<lambda>(_, s).
        let pud_entry = entry_at (va_of (ENTRY_GET_ADDR (load64 (mem s) pgd_entry)))
                          (table_index PUD_SHIFT addr)
        in bindR (fill_entry pud_entry MM_TYPE_PAGE_TABLE s) (\<lambda>(_, s).
        let pmd_entry = entry_at (va_of (ENTRY_GET_ADDR (load64 (mem s) pud_entry)))
                          (table_index PMD_SHIFT addr)
        in Inr (if load64 (mem s) pmd_entry = 0
                then s\<lparr>mem := store64 (mem s) pmd_entry ((p AND NOT SECTION_MASK) OR flags)\<rparr>
                else s))))"

text \<open>The loop counter is an \<^verbatim>\<open>int\<close>: shifting it left by 21 overflows from 1024 on.\<close>

function map_kernel_sections_loop ::
  "u64 \<Rightarrow> u64 \<Rightarrow> u64 \<Rightarrow> u64 \<Rightarrow> u64 \<Rightarrow> nat \<Rightarrow> 'a mm_state_scheme \<Rightarrow> 'a mm_state_scheme res" where
  "map_kernel_sections_loop pg_tbl_start p addr flags sz i s =
     (if i < unat sz
      then if 1024 \<le> i then Inl Signed_overflow
           else bindR (map_kernel_section pg_tbl_start (p + push_bit SECTION_SHIFT (of_nat i))
                         (addr + push_bit SECTION_SHIFT (of_nat i)) flags s)
                  (map_kernel_sections_loop pg_tbl_start p addr flags sz (Suc i))
      else Inr s)"
  by pat_completeness auto
termination
  by (relation "measure (\<lambda>(_, _, _, _, sz, i, _). unat sz - i)") auto

declare map_kernel_sections_loop.simps [simp del]

definition map_kernel_sections ::
  "u64 \<Rightarrow> u64 \<Rightarrow> u64 \<Rightarrow> u64 \<Rightarrow> u64 \<Rightarrow> 'a mm_state_scheme \<Rightarrow> 'a mm_state_scheme res" where
  "map_kernel_sections pg_tbl_start p addr bytes flags s =
     (let sz = (if bytes AND (SECTION_SIZE - 1) \<noteq> 0 then drop_bit SECTION_SHIFT bytes + 1
                else drop_bit SECTION_SHIFT bytes)
      in map_kernel_sections_loop pg_tbl_start p addr flags sz 0 s)"

definition PFLASH1_PA_BASE :: u64 where "PFLASH1_PA_BASE = 0x04000000"
definition PFLASH1_BASE :: u64 where "PFLASH1_BASE = 0xffff000400000000"
definition PFLASH1_SIZE :: u64 where "PFLASH1_SIZE = 64 * 1024 * 1024"

text \<open>
  \<^verbatim>\<open>init_mm\<close>: map the flash; the boolean says that the warning about the image size was
  printed (\<open>img_end\<close> is the linker's end of the image).
\<close>

definition init_mm ::
  "u64 \<Rightarrow> u64 \<Rightarrow> 'a mm_state_scheme \<Rightarrow> (bool \<times> 'a mm_state_scheme) res" where
  "init_mm pg_tbl_start img_end s =
     bindR (map_kernel_sections pg_tbl_start PFLASH1_PA_BASE PFLASH1_BASE PFLASH1_SIZE
              MMU_DEVICE_FLAGS s)
       (\<lambda>s. Inr (pa_of img_end > HIGH_MEM, s))"

section \<open>User pages\<close>

text \<open>The first free slot of \<^verbatim>\<open>pgtbl_page\<close>, and storing a new table page there.\<close>

definition first_null :: "u64 list \<Rightarrow> nat" where
  "first_null xs = length (takeWhile (\<lambda>p. p \<noteq> NULL) (take MAX_PGTBL_PAGES xs))"

definition note_pgtbl :: "u64 option \<Rightarrow> mm_struct \<times> nat \<Rightarrow> (mm_struct \<times> nat) res" where
  "note_pgtbl v p =
     (case (v, p) of
        (None, _) \<Rightarrow> Inr p
      | (Some w, (mm, idx)) \<Rightarrow>
          if idx < MAX_PGTBL_PAGES then Inr (mm\<lparr>pgtbl_page := (pgtbl_page mm)[idx := w]\<rparr>, idx + 1)
          else Inl Out_of_bounds)"

text \<open>The last loop of \<^verbatim>\<open>alloc_user_page\<close>: the first slot of \<^verbatim>\<open>vma\<close> with a null \<^verbatim>\<open>pa\<close>.\<close>

fun note_vma :: "u64 \<Rightarrow> u64 \<Rightarrow> vm_area_struct list \<Rightarrow> vm_area_struct list" where
  "note_vma addr p [] = []"
| "note_vma addr p (a # as) =
     (if pa a = 0 then a\<lparr>va := addr, pa := p\<rparr> # as else a # note_vma addr p as)"

definition alloc_user_page ::
  "u64 \<Rightarrow> mm_struct \<Rightarrow> 'a mm_state_scheme \<Rightarrow> (mm_struct \<times> 'a mm_state_scheme) res" where
  "alloc_user_page addr mm s =
     (let pgd_entry = entry_at (va_of (pgd mm)) (table_index PGD_SHIFT addr)
      in bindR (fill_entry pgd_entry MM_TYPE_PAGE_TABLE s) (\<lambda>(v, s).
      bindR (note_pgtbl v (mm, first_null (pgtbl_page mm))) (\<lambda>(mm, idx).
      let pud_entry = entry_at (va_of (ENTRY_GET_ADDR (load64 (mem s) pgd_entry)))
                        (table_index PUD_SHIFT addr)
      in bindR (fill_entry pud_entry MM_TYPE_PAGE_TABLE s) (\<lambda>(v, s).
      bindR (note_pgtbl v (mm, idx)) (\<lambda>(mm, idx).
      let pmd_entry = entry_at (va_of (ENTRY_GET_ADDR (load64 (mem s) pud_entry)))
                        (table_index PMD_SHIFT addr)
      in bindR (fill_entry pmd_entry MM_TYPE_PAGE_TABLE s) (\<lambda>(v, s).
      bindR (note_pgtbl v (mm, idx)) (\<lambda>(mm, idx).
      let pte_entry = entry_at (va_of (ENTRY_GET_ADDR (load64 (mem s) pmd_entry)))
                        (table_index PTE_SHIFT addr)
      in bindR (fill_entry pte_entry MMU_PTE_FLAGS s) (\<lambda>(_, s).
      Inr (mm\<lparr>vma := note_vma addr (ENTRY_GET_ADDR (load64 (mem s) pte_entry)) (vma mm)\<rparr>, s)))))))))"

function alloc_user_pages_loop ::
  "u64 \<Rightarrow> u64 \<Rightarrow> nat \<Rightarrow> mm_struct \<Rightarrow> 'a mm_state_scheme \<Rightarrow> (mm_struct \<times> 'a mm_state_scheme) res" where
  "alloc_user_pages_loop start sz i mm s =
     (if i < unat sz
      then if 2 ^ 19 \<le> i then Inl Signed_overflow
           else bindR (alloc_user_page (start + push_bit PAGE_SHIFT (of_nat i)) mm s)
                  (\<lambda>(mm, s). alloc_user_pages_loop start sz (Suc i) mm s)
      else Inr (mm, s))"
  by pat_completeness auto
termination
  by (relation "measure (\<lambda>(_, sz, i, _, _). unat sz - i)") auto

declare alloc_user_pages_loop.simps [simp del]

definition alloc_user_pages ::
  "u64 \<Rightarrow> u64 \<Rightarrow> mm_struct \<Rightarrow> 'a mm_state_scheme \<Rightarrow> (mm_struct \<times> 'a mm_state_scheme) res" where
  "alloc_user_pages start bytes mm s =
     (let sz = (if bytes AND (PAGE_SIZE - 1) \<noteq> 0 then drop_bit PAGE_SHIFT bytes + 1
                else drop_bit PAGE_SHIFT bytes)
      in alloc_user_pages_loop start sz 0 mm s)"

section \<open>Translation\<close>

text \<open>
  Entry \<open>i\<close> of the table with physical address \<open>t\<close>, and the walk along a list of indices. As in the code of
  the kernel an entry is taken as present when it is not zero; the hardware looks at its type and access bits too.
\<close>

definition pt_entry :: "memory \<Rightarrow> u64 \<Rightarrow> u64 \<Rightarrow> u64" where
  "pt_entry m t i = load64 m (entry_at (va_of t) i)"

fun pt_walk :: "memory \<Rightarrow> u64 \<Rightarrow> u64 list \<Rightarrow> u64 option" where
  "pt_walk m t [] = Some t"
| "pt_walk m t (i # is) =
     (let e = pt_entry m t i in if e = 0 then None else pt_walk m (ENTRY_GET_ADDR e) is)"

definition user_path :: "u64 \<Rightarrow> u64 list" where
  "user_path addr = [table_index PGD_SHIFT addr, table_index PUD_SHIFT addr,
     table_index PMD_SHIFT addr, table_index PTE_SHIFT addr]"

definition section_path :: "u64 \<Rightarrow> u64 list" where
  "section_path addr = [table_index PGD_SHIFT addr, table_index PUD_SHIFT addr,
     table_index PMD_SHIFT addr]"

text \<open>The frame a user address is mapped to.\<close>

definition user_frame :: "memory \<Rightarrow> u64 \<Rightarrow> u64 \<Rightarrow> u64 option" where
  "user_frame m root addr = pt_walk m root (user_path addr)"

section \<open>Tables in memory\<close>

text \<open>
  A frame is settled if its page is aligned and cannot be handed out: it is not a free
  page of the allocator.
\<close>

definition settled :: "'a mm_state_scheme \<Rightarrow> u64 \<Rightarrow> bool" where
  "settled s t \<longleftrightarrow> page_aligned t \<and> va_of t \<notin> page_pool - used_pages s"

lemma unat_entry_at:
  assumes "page_aligned t" "i < 512"
  shows "unat (entry_at t i) = unat t + 8 * unat i"
proof -
  have i: "unat i < 512" using assms(2) by (simp add: word_less_nat_alt)
  have p: "unat (push_bit 3 i) = 8 * unat i"
    using i by (simp add: push_bit_eq_mult unat_word_ariths)
  show ?thesis
    using aligned_offset [OF assms(1), of "push_bit 3 i"] i p
    by (simp add: entry_at_def ENTRY_SHIFT_def)
qed

lemma entry_at_eq:
  assumes "page_aligned t" "page_aligned t'" "i < 512" "j < 512"
  shows "entry_at t i = entry_at t' j \<longleftrightarrow> t = t' \<and> i = j"
proof
  assume "entry_at t i = entry_at t' j"
  then have "unat t + 8 * unat i = unat t' + 8 * unat j"
    using unat_entry_at assms by metis
  moreover have "unat i < 512" "unat j < 512" using assms by (simp_all add: word_less_nat_alt)
  moreover obtain a b where "unat t = 4096 * a" "unat t' = 4096 * b"
    using page_aligned_obtain [OF assms(1)] page_aligned_obtain [OF assms(2)] by metis
  ultimately have "unat t = unat t' \<and> unat i = unat j"
    using aligned_sum_eq [of a "8 * unat i" b "8 * unat j"] by simp
  then show "t = t' \<and> i = j" by (simp add: word_unat_eq_iff)
qed simp

lemma entry_at_apart:
  assumes "page_aligned t" "page_aligned t'" "i < 512" "j < 512" "(t, i) \<noteq> (t', j)"
  shows "apart8 (entry_at t i) (entry_at t' j)"
proof (rule aligned8_apart)
  show "entry_at t i \<noteq> entry_at t' j" using entry_at_eq [OF assms(1-4)] assms(5) by simp
  have *: "unat (entry_at u k) mod 8 = 0" if u: "page_aligned u" "k < 512" for u k
  proof -
    obtain a where a: "unat u = 4096 * a" using page_aligned_obtain [OF u(1)] .
    have "unat (entry_at u k) = 8 * (512 * a + unat k)"
      by (simp add: unat_entry_at [OF u] a)
    then show ?thesis by simp
  qed
  show "unat (entry_at t i) mod 8 = 0" "unat (entry_at t' j) mod 8 = 0"
    using * assms(1-4) by blast+
qed

lemma entry_outside_page:
  assumes "page_aligned t" "page_aligned p" "t \<noteq> p" "i < 512" "k < 8"
  shows "\<not> in_page p (entry_at t i + k)"
proof
  assume "in_page p (entry_at t i + k)"
  then have lt: "unat (entry_at t i + k - p) < 4096"
    by (simp add: in_page_def layout_values word_less_nat_alt)
  have i: "unat i < 512" and k: "unat k < 8"
    using assms by (simp_all add: word_less_nat_alt)
  define d where "d = t - p"
  have d: "page_aligned d" "unat d \<noteq> 0"
    using assms(1-3) by (simp_all add: d_def page_aligned_diff unat_eq_0)
  define off where "off = push_bit 3 i + k"
  have off: "unat off < 4096"
    using i k by (simp add: off_def push_bit_eq_mult unat_word_ariths)
  have "entry_at t i + k - p = d + off"
    by (simp add: entry_at_def ENTRY_SHIFT_def d_def off_def algebra_simps)
  then have "unat d + unat off < 4096"
    using lt aligned_offset [OF d(1) off] by simp
  then show False using d unfolding page_aligned_def by simp
qed

section \<open>Filling an entry\<close>

lemma page_aligned_bits: "page_aligned a \<Longrightarrow> n < 12 \<Longrightarrow> \<not> bit a n"
proof -
  assume "page_aligned a" "n < 12"
  then have "take_bit 12 a = 0"
    by (simp add: word_unat_eq_iff page_aligned_def take_bit_eq_mod unat_mod_distrib)
  then show ?thesis using \<open>n < 12\<close> by (metis bit_take_bit_iff bit_0_eq bot_apply bot_bool_def)
qed

lemma bit_PAGE_MASK: "bit PAGE_MASK n \<longleftrightarrow> n < 12"
proof -
  have m: "PAGE_MASK = mask 12" by (simp add: layout_values mask_eq_exp_minus_1)
  show ?thesis unfolding m bit_mask_iff by auto
qed

text \<open>The attribute bits of an entry fit below the frame address.\<close>

definition attr_bits :: "u64 \<Rightarrow> bool" where
  "attr_bits b \<longleftrightarrow> take_bit 12 b = b \<and> b \<noteq> 0"

lemma attr_bits_used [simp]: "attr_bits MM_TYPE_PAGE_TABLE" "attr_bits MMU_PTE_FLAGS"
  by (simp_all add: attr_bits_def MM_TYPE_PAGE_TABLE_def MMU_PTE_FLAGS_def)

lemma ENTRY_GET_ADDR_or:
  assumes "page_aligned a" "attr_bits b"
  shows "ENTRY_GET_ADDR (a OR b) = a" and "a OR b \<noteq> 0"
proof -
  have b: "bit b n \<Longrightarrow> n < 12" for n
    using assms(2) by (metis attr_bits_def bit_take_bit_iff)
  show "ENTRY_GET_ADDR (a OR b) = a"
    by (rule bit_word_eqI)
      (use page_aligned_bits [OF assms(1)] b in
        \<open>auto simp: ENTRY_GET_ADDR_def bit_and_iff bit_or_iff bit_not_iff bit_PAGE_MASK\<close>)
  show "a OR b \<noteq> 0" using assms(2) by (auto simp: attr_bits_def or_eq_0_iff)
qed

lemma settled_mono: "used_pages s \<subseteq> used_pages s' \<Longrightarrow> settled s t \<Longrightarrow> settled s' t"
  by (auto simp: settled_def)

text \<open>\<open>extends s s'\<close>: pages were taken, and no entry of a settled table was changed once set.\<close>

definition extends :: "'a mm_state_scheme \<Rightarrow> 'a mm_state_scheme \<Rightarrow> bool" where
  "extends s s' \<longleftrightarrow> mm_inv s' \<and> used_pages s \<subseteq> used_pages s' \<and>
     (\<forall>t i. settled s t \<longrightarrow> i < 512 \<longrightarrow> pt_entry (mem s) t i \<noteq> 0 \<longrightarrow>
        pt_entry (mem s') t i = pt_entry (mem s) t i)"

lemma extends_refl: "mm_inv s \<Longrightarrow> extends s s"
  by (simp add: extends_def)

lemma extends_trans:
  assumes "extends s s'" "extends s' s''"
  shows "extends s s''"
  unfolding extends_def
proof (intro conjI allI impI)
  show "mm_inv s''" "used_pages s \<subseteq> used_pages s''"
    using assms by (auto simp: extends_def)
  fix t i assume t: "settled s t" "i < 512" "pt_entry (mem s) t i \<noteq> 0"
  then have "settled s' t" using assms(1) settled_mono by (auto simp: extends_def)
  then show "pt_entry (mem s'') t i = pt_entry (mem s) t i"
    using assms t by (simp add: extends_def)
qed

lemma fill_entry_fresh:
  assumes "mm_inv s" "settled s t" "i < 512" "attr_bits bits"
    and "fill_entry (entry_at (va_of t) i) bits s = Inr (Some p, s')"
  shows "pt_entry (mem s) t i = 0" and "mm_inv s'"
    and "p \<in> page_pool - used_pages s" and "used_pages s' = insert p (used_pages s)"
    and "ENTRY_GET_ADDR (pt_entry (mem s') t i) = pa_of p" and "pt_entry (mem s') t i \<noteq> 0"
    and "j < 512 \<Longrightarrow> pt_entry (mem s') (pa_of p) j = 0"
    and "settled s t' \<Longrightarrow> j < 512 \<Longrightarrow> (t', j) \<noteq> (t, i) \<Longrightarrow> pt_entry (mem s') t' j = pt_entry (mem s) t' j"
proof -
  obtain s1 where z: "pt_entry (mem s) t i = 0" and g: "get_free_page GFP_KERNEL s = Inr (p, s1)"
    and s': "s' = s1\<lparr>mem := store64 (mem s1) (entry_at (va_of t) i) (pa_of p OR bits)\<rparr>"
    using assms(5) by (auto simp: fill_entry_def pt_entry_def bindR_eq_Inr split: if_splits)
  note G = pg.get_Inr [OF assms(1) g]
  show "pt_entry (mem s) t i = 0" by (rule z)
  show "mm_inv s'" using G(1) s' by simp
  show p: "p \<in> page_pool - used_pages s" by (rule G(2))
  show "used_pages s' = insert p (used_pages s)" using G(3) s' by simp
  have pal: "page_aligned p" using p page_aligned_pool by blast
  then have pp: "page_aligned (pa_of p)" by simp
  have e: "pt_entry (mem s') t i = pa_of p OR bits" by (simp add: s' pt_entry_def)
  show "ENTRY_GET_ADDR (pt_entry (mem s') t i) = pa_of p" "pt_entry (mem s') t i \<noteq> 0"
    using ENTRY_GET_ADDR_or [OF pp assms(4)] e by simp_all
  have tp: "page_aligned t" "va_of t \<noteq> p" using assms(2) p by (auto simp: settled_def)
  have other: "pt_entry (mem s') t' j = pt_entry (mem s1) t' j"
    if "page_aligned t'" "j < 512" "(t', j) \<noteq> (t, i)" for t' j
  proof -
    have "(va_of t', j) \<noteq> (va_of t, i)" using that(3) by (metis pa_of_va_of prod.inject)
    then have "apart8 (entry_at (va_of t') j) (entry_at (va_of t) i)"
      using that(1,2) tp(1) assms(3) by (intro entry_at_apart) simp_all
    then show ?thesis by (simp add: s' pt_entry_def load64_store64_apart)
  qed
  show "pt_entry (mem s') (pa_of p) j = 0" if "j < 512"
  proof -
    have "in_page p (entry_at p j + k)" if "k < 8" for k
    proof -
      have uj: "unat j < 512" and uk: "unat k < 8"
        using \<open>j < 512\<close> that by (simp_all add: word_less_nat_alt)
      have e: "entry_at p j + k - p = push_bit 3 j + k"
        by (simp add: entry_at_def ENTRY_SHIFT_def)
      moreover have "unat (push_bit 3 j + k) < 4096"
        using uj uk by (simp add: push_bit_eq_mult unat_word_ariths)
      ultimately show ?thesis unfolding in_page_def e layout_values word_less_nat_alt by simp
    qed
    then have "pt_entry (mem s1) (pa_of p) j = 0"
      using G(4) by (simp add: pt_entry_def load64_zero)
    moreover have "(pa_of p, j) \<noteq> (t, i)" using tp(2) by auto
    ultimately show ?thesis using other [OF pp that] by simp
  qed
  show "pt_entry (mem s') t' j = pt_entry (mem s) t' j"
    if "settled s t'" "j < 512" "(t', j) \<noteq> (t, i)"
  proof -
    have t': "page_aligned t'" "va_of t' \<noteq> p" using that(1) p by (auto simp: settled_def)
    have "\<not> in_page p (entry_at (va_of t') j + k)" if "k < 8" for k
      using t' pal \<open>j < 512\<close> that by (intro entry_outside_page) simp_all
    then have "pt_entry (mem s1) t' j = pt_entry (mem s) t' j"
      using G(4) by (auto simp: pt_entry_def intro!: load64_cong)
    then show ?thesis using other [OF t'(1) that(2,3)] by simp
  qed
qed

lemma fill_entry_None:
  assumes "fill_entry (entry_at (va_of t) i) bits s = Inr (None, s')"
  shows "s' = s" and "pt_entry (mem s) t i \<noteq> 0"
  using assms by (auto simp: fill_entry_def pt_entry_def bindR_eq_Inr split: if_splits)

lemma fill_entry_extends:
  assumes "mm_inv s" "settled s t" "i < 512" "attr_bits bits"
    and "fill_entry (entry_at (va_of t) i) bits s = Inr (v, s')"
  shows "extends s s'" and "pt_entry (mem s') t i \<noteq> 0"
proof -
  have "extends s s' \<and> pt_entry (mem s') t i \<noteq> 0"
  proof (cases v)
    case None
    then show ?thesis using fill_entry_None [of t i bits s s'] assms extends_refl by auto
  next
    case (Some p)
    note F = fill_entry_fresh [OF assms(1-4) assms(5) [unfolded Some]]
    have "pt_entry (mem s') t' j = pt_entry (mem s) t' j"
      if "settled s t'" "j < 512" "pt_entry (mem s) t' j \<noteq> 0" for t' j
      using F(8) [OF that(1,2)] F(1) that(3) by auto
    then show ?thesis using F(2,4,6) by (auto simp: extends_def)
  qed
  then show "extends s s'" and "pt_entry (mem s') t i \<noteq> 0" by auto
qed

section \<open>Walks\<close>

lemma pt_walk_append:
  "pt_walk m t (xs @ ys) = (case pt_walk m t xs of None \<Rightarrow> None | Some p \<Rightarrow> pt_walk m p ys)"
  by (induction xs arbitrary: t) (simp_all add: Let_def)

lemma pt_walk_snoc:
  "pt_walk m t (xs @ [i]) = Some p \<longleftrightarrow>
     (\<exists>q. pt_walk m t xs = Some q \<and> pt_entry m q i \<noteq> 0 \<and> p = ENTRY_GET_ADDR (pt_entry m q i))"
  by (auto simp: pt_walk_append Let_def split: option.splits)

text \<open>
  An address space is sound down to depth \<open>n\<close> if every table and frame its walks reach is
  settled.
\<close>

definition path_ok :: "nat \<Rightarrow> u64 list \<Rightarrow> bool" where
  "path_ok n is \<longleftrightarrow> length is \<le> n \<and> (\<forall>i \<in> set is. i < 512)"

definition space_ok :: "'a mm_state_scheme \<Rightarrow> u64 \<Rightarrow> nat \<Rightarrow> bool" where
  "space_ok s root n \<longleftrightarrow>
     (\<forall>is p. path_ok n is \<longrightarrow> pt_walk (mem s) root is = Some p \<longrightarrow> settled s p)"

lemma path_ok_snoc: "path_ok n (xs @ [i]) \<longleftrightarrow> path_ok n xs \<and> length xs < n \<and> i < 512"
  by (auto simp: path_ok_def)

lemma space_ok_walk: "space_ok s root n \<Longrightarrow> path_ok n xs \<Longrightarrow> pt_walk (mem s) root xs = Some p \<Longrightarrow> settled s p"
  by (auto simp: space_ok_def)

text \<open>Extending a state keeps every translation of a sound address space.\<close>

lemma path_ok_Suc: "path_ok n xs \<Longrightarrow> path_ok (Suc n) xs"
  by (simp add: path_ok_def)

lemma walk_extends:
  assumes "extends s s'" "space_ok s root n" "path_ok (Suc n) xs" "pt_walk (mem s) root xs = Some p"
  shows "pt_walk (mem s') root xs = Some p"
  using assms(3,4)
proof (induction xs arbitrary: p rule: rev_induct)
  case Nil
  then show ?case by simp
next
  case (snoc i xs)
  then obtain q where q: "pt_walk (mem s) root xs = Some q" "pt_entry (mem s) q i \<noteq> 0"
      "p = ENTRY_GET_ADDR (pt_entry (mem s) q i)" and xs: "path_ok n xs" "i < 512"
    by (auto simp: pt_walk_snoc path_ok_def)
  have "settled s q" using assms(2) xs(1) q(1) by (rule space_ok_walk)
  then have "pt_entry (mem s') q i = pt_entry (mem s) q i"
    using assms(1) xs(2) q(2) by (simp add: extends_def)
  then show ?case using snoc.IH [OF path_ok_Suc [OF xs(1)] q(1)] q by (simp add: pt_walk_snoc)
qed

text \<open>After an entry was filled with page \<open>p\<close>, new walks end at \<open>p\<close>; all others are old.\<close>

lemma walk_filled:
  assumes "mm_inv s" "space_ok s root n" "settled s t" "i < 512" "attr_bits bits"
    and "fill_entry (entry_at (va_of t) i) bits s = Inr (Some p, s')"
    and "path_ok n xs" "pt_walk (mem s') root xs = Some q"
  shows "pt_walk (mem s) root xs = Some q \<or> q = pa_of p"
  using assms(7,8)
proof (induction xs arbitrary: q rule: rev_induct)
  case Nil
  then show ?case by simp
next
  case (snoc j xs)
  note F = fill_entry_fresh [OF assms(1,3-6)]
  obtain r where r: "pt_walk (mem s') root xs = Some r" "pt_entry (mem s') r j \<noteq> 0"
      "q = ENTRY_GET_ADDR (pt_entry (mem s') r j)" and xs: "path_ok n xs" "j < 512"
    using snoc.prems by (auto simp: pt_walk_snoc path_ok_snoc)
  have "r \<noteq> pa_of p" using F(7) [OF xs(2)] r(2) by auto
  then have old: "pt_walk (mem s) root xs = Some r" using snoc.IH [OF xs(1) r(1)] by simp
  then have "settled s r" using assms(2) xs(1) by (blast intro: space_ok_walk)
  then show ?case
    using F(5) F(8) [of r j] r old xs(2) by (cases "(r, j) = (t, i)") (auto simp: pt_walk_snoc)
qed

lemma fill_step:
  assumes "mm_inv s" "space_ok s root n" "path_ok n (xs @ [i])"
    and "pt_walk (mem s) root xs = Some t" "attr_bits bits"
    and "fill_entry (entry_at (va_of t) i) bits s = Inr (v, s')"
  shows "extends s s'" and "space_ok s' root n"
    and "pt_walk (mem s') root (xs @ [i]) =
      Some (ENTRY_GET_ADDR (load64 (mem s') (entry_at (va_of t) i)))"
    and "pt_walk (mem s) root (xs @ [i]) = None \<Longrightarrow>
      \<exists>p. v = Some p \<and> p \<in> page_pool - used_pages s \<and> used_pages s' = insert p (used_pages s) \<and>
        pt_walk (mem s') root (xs @ [i]) = Some (pa_of p)"
proof -
  have xs: "path_ok n xs" and i: "i < 512" using assms(3) by (auto simp: path_ok_snoc)
  have t: "settled s t" using assms(2) xs assms(4) by (rule space_ok_walk)
  note E = fill_entry_extends [OF assms(1) t i assms(5,6)]
  show "extends s s'" by (rule E(1))
  have w: "pt_walk (mem s') root xs = Some t"
    using E(1) assms(2) path_ok_Suc [OF xs] assms(4) by (rule walk_extends)
  show W: "pt_walk (mem s') root (xs @ [i]) =
      Some (ENTRY_GET_ADDR (load64 (mem s') (entry_at (va_of t) i)))"
    using w E(2) by (simp add: pt_walk_snoc pt_entry_def)
  show "space_ok s' root n"
  proof (cases v)
    case None
    then show ?thesis using fill_entry_None(1) assms(2,6) by blast
  next
    case (Some p)
    note f = assms(6) [unfolded Some]
    note F = fill_entry_fresh [OF assms(1) t i assms(5) f]
    have "settled s' (pa_of p)" using F(3,4) by (auto simp: settled_def page_aligned_pool)
    then show ?thesis
      using walk_filled [OF assms(1,2) t i assms(5) f] space_ok_walk [OF assms(2)]
        settled_mono [of s s'] F(4) unfolding space_ok_def by blast
  qed
  assume none: "pt_walk (mem s) root (xs @ [i]) = None"
  have z: "pt_entry (mem s) t i = 0"
    using none assms(4) by (simp add: pt_walk_append Let_def split: if_splits)
  then obtain p where v: "v = Some p"
    using fill_entry_None(2) assms(6) by (cases v) blast+
  note F = fill_entry_fresh [OF assms(1) t i assms(5) assms(6) [unfolded v]]
  show "\<exists>p. v = Some p \<and> p \<in> page_pool - used_pages s \<and> used_pages s' = insert p (used_pages s) \<and>
        pt_walk (mem s') root (xs @ [i]) = Some (pa_of p)"
    using v F(3,4,5) W by (auto simp: pt_entry_def)
qed

lemma fill_step_none:
  assumes "mm_inv s" "space_ok s root n" "path_ok n (xs @ [i])"
    and "pt_walk (mem s) root xs = Some t" "attr_bits bits"
    and "fill_entry (entry_at (va_of t) i) bits s = Inr (v, s')"
    and "j < 512" "pt_walk (mem s) root (xs @ [i] @ j # ys) = None"
  shows "pt_walk (mem s') root (xs @ [i] @ j # ys) = None"
proof (cases v)
  case None
  then show ?thesis using fill_entry_None(1) assms(6,8) by blast
next
  case (Some p)
  have xs: "path_ok n xs" and i: "i < 512" using assms(3) by (auto simp: path_ok_snoc)
  have t: "settled s t" using assms(2) xs assms(4) by (rule space_ok_walk)
  note F = fill_entry_fresh [OF assms(1) t i assms(5) assms(6) [unfolded Some]]
  have "pt_walk (mem s') root (xs @ [i]) = Some (pa_of p)"
    using fill_step(3) [OF assms(1-6)] F(5) by (simp add: pt_entry_def)
  then show ?thesis
    using F(7) [OF assms(7)] pt_walk_append [of "mem s'" root "xs @ [i]" "j # ys"] by (simp add: Let_def)
qed

section \<open>Mapping a user page\<close>

lemma table_index_less [simp]: "table_index sh a < 512"
proof -
  have "table_index sh a \<le> TABLE_MASK" by (simp add: table_index_def word_and_le1)
  also have "TABLE_MASK < 512" by (simp add: TABLE_MASK_def)
  finally show ?thesis .
qed

lemma note_pgtbl_frame:
  "note_pgtbl v (mm, idx) = Inr (mm', idx') \<Longrightarrow> pgd mm' = pgd mm \<and> vma mm' = vma mm"
  by (auto simp: note_pgtbl_def split: option.splits if_splits)

lemma alloc_user_page_steps:
  assumes "alloc_user_page addr mm s = Inr (mm', s')"
  obtains v0 s0 v1 s1 v2 s2 v3 e0 e1 e2 e3 where
    "e0 = entry_at (va_of (pgd mm)) (table_index PGD_SHIFT addr)"
    "fill_entry e0 MM_TYPE_PAGE_TABLE s = Inr (v0, s0)"
    "e1 = entry_at (va_of (ENTRY_GET_ADDR (load64 (mem s0) e0))) (table_index PUD_SHIFT addr)"
    "fill_entry e1 MM_TYPE_PAGE_TABLE s0 = Inr (v1, s1)"
    "e2 = entry_at (va_of (ENTRY_GET_ADDR (load64 (mem s1) e1))) (table_index PMD_SHIFT addr)"
    "fill_entry e2 MM_TYPE_PAGE_TABLE s1 = Inr (v2, s2)"
    "e3 = entry_at (va_of (ENTRY_GET_ADDR (load64 (mem s2) e2))) (table_index PTE_SHIFT addr)"
    "fill_entry e3 MMU_PTE_FLAGS s2 = Inr (v3, s')"
    "pgd mm' = pgd mm" "vma mm' = note_vma addr (ENTRY_GET_ADDR (load64 (mem s') e3)) (vma mm)"
  using assms
  by (fastforce simp: alloc_user_page_def Let_def bindR_eq_Inr dest: note_pgtbl_frame)

lemma alloc_user_page_sound:
  assumes "mm_inv s" "space_ok s (pgd mm) 4" "alloc_user_page addr mm s = Inr (mm', s')"
  shows "extends s s'" and "space_ok s' (pgd mm) 4" and "pgd mm' = pgd mm"
    and "\<exists>f. user_frame (mem s') (pgd mm) addr = Some f \<and> vma mm' = note_vma addr f (vma mm) \<and>
      (user_frame (mem s) (pgd mm) addr = None \<longrightarrow> va_of f \<in> page_pool - used_pages s)"
proof -
  let ?i0 = "table_index PGD_SHIFT addr" and ?i1 = "table_index PUD_SHIFT addr"
  let ?i2 = "table_index PMD_SHIFT addr" and ?i3 = "table_index PTE_SHIFT addr"
  obtain v0 s0 v1 s1 v2 s2 v3 e0 e1 e2 e3 where
    e0: "e0 = entry_at (va_of (pgd mm)) ?i0" and f0: "fill_entry e0 MM_TYPE_PAGE_TABLE s = Inr (v0, s0)"
    and e1: "e1 = entry_at (va_of (ENTRY_GET_ADDR (load64 (mem s0) e0))) ?i1"
    and f1: "fill_entry e1 MM_TYPE_PAGE_TABLE s0 = Inr (v1, s1)"
    and e2: "e2 = entry_at (va_of (ENTRY_GET_ADDR (load64 (mem s1) e1))) ?i2"
    and f2: "fill_entry e2 MM_TYPE_PAGE_TABLE s1 = Inr (v2, s2)"
    and e3: "e3 = entry_at (va_of (ENTRY_GET_ADDR (load64 (mem s2) e2))) ?i3"
    and f3: "fill_entry e3 MMU_PTE_FLAGS s2 = Inr (v3, s')"
    and mm': "pgd mm' = pgd mm" "vma mm' = note_vma addr (ENTRY_GET_ADDR (load64 (mem s') e3)) (vma mm)"
    using alloc_user_page_steps [OF assms(3)] by metis
  have p: "path_ok 4 ([] @ [?i0])" "path_ok 4 ([?i0] @ [?i1])" "path_ok 4 ([?i0, ?i1] @ [?i2])"
      "path_ok 4 ([?i0, ?i1, ?i2] @ [?i3])"
    by (simp_all add: path_ok_def)
  note ap = append.simps
  have w: "pt_walk (mem s) (pgd mm) [] = Some (pgd mm)" by simp
  note S0 = fill_step [OF assms(1,2) p(1) w attr_bits_used(1) f0 [unfolded e0], folded e0, unfolded ap]
    and N0 = fill_step_none [OF assms(1,2) p(1) w attr_bits_used(1) f0 [unfolded e0], unfolded ap]
  have inv0: "mm_inv s0" using S0(1) by (simp add: extends_def)
  note S1 = fill_step [OF inv0 S0(2) p(2) S0(3) attr_bits_used(1) f1 [unfolded e1], folded e1, unfolded ap]
    and N1 = fill_step_none [OF inv0 S0(2) p(2) S0(3) attr_bits_used(1) f1 [unfolded e1], unfolded ap]
  have inv1: "mm_inv s1" using S1(1) by (simp add: extends_def)
  note S2 = fill_step [OF inv1 S1(2) p(3) S1(3) attr_bits_used(1) f2 [unfolded e2], folded e2, unfolded ap]
    and N2 = fill_step_none [OF inv1 S1(2) p(3) S1(3) attr_bits_used(1) f2 [unfolded e2], unfolded ap]
  have inv2: "mm_inv s2" using S2(1) by (simp add: extends_def)
  note S3 = fill_step [OF inv2 S2(2) p(4) S2(3) attr_bits_used(2) f3 [unfolded e3], folded e3, unfolded ap]
  have e02: "extends s s2" using S0(1) S1(1) S2(1) extends_trans by blast
  show "extends s s'" using e02 S3(1) extends_trans by blast
  show "space_ok s' (pgd mm) 4" by (rule S3(2))
  show "pgd mm' = pgd mm" by (rule mm'(1))
  have fr: "user_frame (mem s') (pgd mm) addr = Some (ENTRY_GET_ADDR (load64 (mem s') e3))"
    unfolding user_frame_def user_path_def by (rule S3(3))
  have fresh: "va_of (ENTRY_GET_ADDR (load64 (mem s') e3)) \<in> page_pool - used_pages s"
    if none: "user_frame (mem s) (pgd mm) addr = None"
  proof -
    note n = none [unfolded user_frame_def user_path_def]
    note n0 = N0 [OF table_index_less n]
    note n1 = N1 [OF table_index_less n0]
    note n2 = N2 [OF table_index_less n1]
    obtain p where p: "p \<in> page_pool - used_pages s2"
        "pt_walk (mem s') (pgd mm) [?i0, ?i1, ?i2, ?i3] = Some (pa_of p)"
      using S3(4) [OF n2] by blast
    have "Some (ENTRY_GET_ADDR (load64 (mem s') e3)) = Some (pa_of p)"
      by (rule trans [OF S3(3) [symmetric] p(2)])
    moreover have "used_pages s \<subseteq> used_pages s2" using e02 by (simp add: extends_def)
    ultimately show ?thesis using p(1) by auto
  qed
  show "\<exists>f. user_frame (mem s') (pgd mm) addr = Some f \<and> vma mm' = note_vma addr f (vma mm) \<and>
      (user_frame (mem s) (pgd mm) addr = None \<longrightarrow> va_of f \<in> page_pool - used_pages s)"
    by (intro exI conjI impI) (rule fr, rule mm'(2), rule fresh)
qed

lemma user_path_ok [simp]: "path_ok 4 (user_path a)"
  by (simp add: path_ok_def user_path_def)

lemma user_frame_extends:
  "extends s s' \<Longrightarrow> space_ok s root 4 \<Longrightarrow> user_frame (mem s) root a = Some f \<Longrightarrow>
   user_frame (mem s') root a = Some f"
  unfolding user_frame_def by (rule walk_extends [OF _ _ path_ok_Suc [OF user_path_ok]])

lemma alloc_user_pages_loop_sound:
  assumes "mm_inv s" "space_ok s (pgd mm) 4" "alloc_user_pages_loop start sz i mm s = Inr (mm', s')"
  shows "extends s s' \<and> space_ok s' (pgd mm) 4 \<and> pgd mm' = pgd mm \<and>
    (\<forall>j. i \<le> j \<longrightarrow> j < unat sz \<longrightarrow>
      user_frame (mem s') (pgd mm) (start + push_bit PAGE_SHIFT (of_nat j)) \<noteq> None)"
  using assms
proof (induction "unat sz - i" arbitrary: i mm s)
  case 0
  then show ?case
    by (subst (asm) alloc_user_pages_loop.simps) (auto intro: extends_refl)
next
  case (Suc d)
  let ?a = "start + push_bit PAGE_SHIFT (of_nat i)"
  obtain mm1 s1 where A: "alloc_user_page ?a mm s = Inr (mm1, s1)"
      and L: "alloc_user_pages_loop start sz (Suc i) mm1 s1 = Inr (mm', s')"
    using Suc.hyps(2) Suc.prems(3)
    by (subst (asm) alloc_user_pages_loop.simps) (auto simp: bindR_eq_Inr split: if_splits)
  note S = alloc_user_page_sound [OF Suc.prems(1,2) A]
  have inv1: "mm_inv s1" using S(1) by (simp add: extends_def)
  have IH: "extends s1 s' \<and> space_ok s' (pgd mm) 4 \<and> pgd mm' = pgd mm \<and>
      (\<forall>j. Suc i \<le> j \<longrightarrow> j < unat sz \<longrightarrow>
        user_frame (mem s') (pgd mm) (start + push_bit PAGE_SHIFT (of_nat j)) \<noteq> None)"
    using Suc.hyps(1) [of "Suc i" s1 mm1] Suc.hyps(2) inv1 S(2,3) L by simp
  obtain f where "user_frame (mem s1) (pgd mm) ?a = Some f" using S(4) by blast
  then have "user_frame (mem s') (pgd mm) ?a = Some f"
    using user_frame_extends [of s1 s' "pgd mm" ?a f] IH S(2) by blast
  then have "\<forall>j. i \<le> j \<longrightarrow> j < unat sz \<longrightarrow>
      user_frame (mem s') (pgd mm) (start + push_bit PAGE_SHIFT (of_nat j)) \<noteq> None"
    using IH by (metis Suc_leI le_neq_implies_less option.distinct(1))
  then show ?case using IH S(1) extends_trans by blast
qed

text \<open>
  An address space is held if its root and every table and frame its walks reach are pages in use,
  so that a walk reads and writes nothing but pages the allocator gave out.
\<close>

definition held_space :: "'a mm_state_scheme \<Rightarrow> u64 \<Rightarrow> bool" where
  "held_space s root \<longleftrightarrow>
     (\<forall>is p. path_ok 4 is \<longrightarrow> pt_walk (mem s) root is = Some p \<longrightarrow> va_of p \<in> used_pages s)"

lemma held_settled:
  assumes "mm_inv s" "va_of p \<in> used_pages s"
  shows "settled s p"
proof -
  have "page_aligned (va_of p)" using assms pg.used_pool page_aligned_pool by blast
  then show ?thesis using assms(2) by (simp add: settled_def)
qed

lemma held_space_ok: "mm_inv s \<Longrightarrow> held_space s root \<Longrightarrow> space_ok s root 4"
  unfolding held_space_def space_ok_def using held_settled by blast

lemma fill_held:
  assumes "mm_inv s" "held_space s root" "path_ok 4 (xs @ [i])" "pt_walk (mem s) root xs = Some t" "attr_bits bits"
    and "fill_entry (entry_at (va_of t) i) bits s = Inr (v, s')"
  shows "held_space s' root"
proof (cases v)
  case None
  then show ?thesis using fill_entry_None(1) assms(2,6) by blast
next
  case (Some p)
  have xs: "path_ok 4 xs" and i: "i < 512" using assms(3) by (auto simp: path_ok_snoc)
  note sp = held_space_ok [OF assms(1,2)]
  have t: "settled s t" using sp xs assms(4) by (rule space_ok_walk)
  note f = assms(6) [unfolded Some]
  note F = fill_entry_fresh [OF assms(1) t i assms(5) f]
  have "va_of (pa_of p) \<in> used_pages s'" using F(4) by simp
  then show ?thesis
    using walk_filled [OF assms(1) sp t i assms(5) f] assms(2) F(4) unfolding held_space_def by blast
qed

lemma alloc_user_page_held:
  assumes "mm_inv s" "held_space s (pgd mm)" "alloc_user_page addr mm s = Inr (mm', s')"
  shows "held_space s' (pgd mm')"
proof -
  let ?i0 = "table_index PGD_SHIFT addr" and ?i1 = "table_index PUD_SHIFT addr"
  let ?i2 = "table_index PMD_SHIFT addr" and ?i3 = "table_index PTE_SHIFT addr"
  obtain v0 s0 v1 s1 v2 s2 v3 e0 e1 e2 e3 where
    e0: "e0 = entry_at (va_of (pgd mm)) ?i0" and f0: "fill_entry e0 MM_TYPE_PAGE_TABLE s = Inr (v0, s0)"
    and e1: "e1 = entry_at (va_of (ENTRY_GET_ADDR (load64 (mem s0) e0))) ?i1"
    and f1: "fill_entry e1 MM_TYPE_PAGE_TABLE s0 = Inr (v1, s1)"
    and e2: "e2 = entry_at (va_of (ENTRY_GET_ADDR (load64 (mem s1) e1))) ?i2"
    and f2: "fill_entry e2 MM_TYPE_PAGE_TABLE s1 = Inr (v2, s2)"
    and e3: "e3 = entry_at (va_of (ENTRY_GET_ADDR (load64 (mem s2) e2))) ?i3"
    and f3: "fill_entry e3 MMU_PTE_FLAGS s2 = Inr (v3, s')"
    and mm': "pgd mm' = pgd mm"
    using alloc_user_page_steps [OF assms(3)] by metis
  have p: "path_ok 4 ([] @ [?i0])" "path_ok 4 ([?i0] @ [?i1])" "path_ok 4 ([?i0, ?i1] @ [?i2])"
      "path_ok 4 ([?i0, ?i1, ?i2] @ [?i3])"
    by (simp_all add: path_ok_def)
  note ap = append.simps
  have w: "pt_walk (mem s) (pgd mm) [] = Some (pgd mm)" by simp
  note S0 = fill_step [OF assms(1) held_space_ok [OF assms(1,2)] p(1) w attr_bits_used(1) f0 [unfolded e0], folded e0, unfolded ap]
    and H0 = fill_held [OF assms(1,2) p(1) w attr_bits_used(1) f0 [unfolded e0]]
  have inv0: "mm_inv s0" using S0(1) by (simp add: extends_def)
  note S1 = fill_step [OF inv0 S0(2) p(2) S0(3) attr_bits_used(1) f1 [unfolded e1], folded e1, unfolded ap]
    and H1 = fill_held [OF inv0 H0 p(2) S0(3) attr_bits_used(1) f1 [unfolded e1]]
  have inv1: "mm_inv s1" using S1(1) by (simp add: extends_def)
  note S2 = fill_step [OF inv1 S1(2) p(3) S1(3) attr_bits_used(1) f2 [unfolded e2], folded e2, unfolded ap]
    and H2 = fill_held [OF inv1 H1 p(3) S1(3) attr_bits_used(1) f2 [unfolded e2]]
  have inv2: "mm_inv s2" using S2(1) by (simp add: extends_def)
  show ?thesis unfolding mm' by (rule fill_held [OF inv2 H2 p(4) S2(3) attr_bits_used(2) f3 [unfolded e3]])
qed

subsection \<open>The routines return\<close>

definition free_count :: "'a mm_state_scheme \<Rightarrow> nat" where
  "free_count s = card (page_pool - used_pages s)"

lemma finite_page_pool [simp]: "finite page_pool"
  by (simp add: page_pool_def)

lemma fill_entry_total:
  assumes "mm_inv s" "0 < free_count s"
  shows "\<exists>v s'. fill_entry e bits s = Inr (v, s') \<and> mm_inv s' \<and> free_count s \<le> Suc (free_count s')"
proof (cases "load64 (mem s) e = 0")
  case False
  then show ?thesis using assms by (simp add: fill_entry_def)
next
  case True
  have "used_pages s \<noteq> page_pool" using assms(2) by (auto simp: free_count_def)
  then obtain p s1 where g: "get_free_page GFP_KERNEL s = Inr (p, s1)" "mm_inv s1"
      "p \<in> page_pool - used_pages s" "used_pages s1 = insert p (used_pages s)"
    using pg.get_law [OF assms(1)] by blast
  have "page_pool - used_pages s1 = (page_pool - used_pages s) - {p}" using g(4) by auto
  then have "Suc (card (page_pool - used_pages s1)) = card (page_pool - used_pages s)"
    using g(3) card_Suc_Diff1 [of "page_pool - used_pages s" p] by simp
  then show ?thesis
    using True g by (simp add: fill_entry_def free_count_def)
qed

lemma note_pgtbl_total:
  "idx < MAX_PGTBL_PAGES \<Longrightarrow> \<exists>mm' idx'. note_pgtbl v (mm, idx) = Inr (mm', idx') \<and> idx' \<le> Suc idx"
  by (auto simp: note_pgtbl_def split: option.splits)

lemma alloc_user_page_total:
  assumes "mm_inv s" "4 \<le> free_count s" "first_null (pgtbl_page mm) \<le> 5"
  shows "\<exists>mm' s'. alloc_user_page addr mm s = Inr (mm', s')"
proof -
  have M: "MAX_PGTBL_PAGES = 8" by (simp add: MAX_PGTBL_PAGES_def)
  let ?e0 = "entry_at (va_of (pgd mm)) (table_index PGD_SHIFT addr)"
  obtain v0 s0 where s0: "fill_entry ?e0 MM_TYPE_PAGE_TABLE s = Inr (v0, s0)" "mm_inv s0" "3 \<le> free_count s0"
    using fill_entry_total [of s ?e0 MM_TYPE_PAGE_TABLE] assms by fastforce
  obtain mm0 i0 where m0: "note_pgtbl v0 (mm, first_null (pgtbl_page mm)) = Inr (mm0, i0)" "i0 \<le> 6"
    using note_pgtbl_total [of "first_null (pgtbl_page mm)" v0 mm] assms(3) M by fastforce
  let ?e1 = "entry_at (va_of (ENTRY_GET_ADDR (load64 (mem s0) ?e0))) (table_index PUD_SHIFT addr)"
  obtain v1 s1 where s1: "fill_entry ?e1 MM_TYPE_PAGE_TABLE s0 = Inr (v1, s1)" "mm_inv s1" "2 \<le> free_count s1"
    using fill_entry_total [of s0 ?e1 MM_TYPE_PAGE_TABLE] s0 by fastforce
  obtain mm1 i1 where m1: "note_pgtbl v1 (mm0, i0) = Inr (mm1, i1)" "i1 \<le> 7"
    using note_pgtbl_total [of i0 v1 mm0] m0(2) M by fastforce
  let ?e2 = "entry_at (va_of (ENTRY_GET_ADDR (load64 (mem s1) ?e1))) (table_index PMD_SHIFT addr)"
  obtain v2 s2 where s2: "fill_entry ?e2 MM_TYPE_PAGE_TABLE s1 = Inr (v2, s2)" "mm_inv s2" "1 \<le> free_count s2"
    using fill_entry_total [of s1 ?e2 MM_TYPE_PAGE_TABLE] s1 by fastforce
  obtain mm2 i2 where m2: "note_pgtbl v2 (mm1, i1) = Inr (mm2, i2)"
    using note_pgtbl_total [of i1 v2 mm1] m1(2) M by fastforce
  let ?e3 = "entry_at (va_of (ENTRY_GET_ADDR (load64 (mem s2) ?e2))) (table_index PTE_SHIFT addr)"
  obtain v3 s3 where "fill_entry ?e3 MMU_PTE_FLAGS s2 = Inr (v3, s3)"
    using fill_entry_total [of s2 ?e3 MMU_PTE_FLAGS] s2 by fastforce
  then show ?thesis
    using s0(1) m0(1) s1(1) m1(1) s2(1) m2 by (simp add: alloc_user_page_def Let_def)
qed

section \<open>Mapping a kernel section\<close>

lemma store_entry_extends:
  assumes "mm_inv s" "settled s t" "i < 512" "pt_entry (mem s) t i = 0"
  shows "extends s (s\<lparr>mem := store64 (mem s) (entry_at (va_of t) i) w\<rparr>)"
proof -
  have "pt_entry (store64 (mem s) (entry_at (va_of t) i) w) t' j = pt_entry (mem s) t' j"
    if "settled s t'" "j < 512" "pt_entry (mem s) t' j \<noteq> 0" for t' j
  proof -
    have "(va_of t', j) \<noteq> (va_of t, i)" using that(3) assms(4) by (metis pa_of_va_of prod.inject)
    then have "apart8 (entry_at (va_of t') j) (entry_at (va_of t) i)"
      using that(1,2) assms(2,3) by (intro entry_at_apart) (simp_all add: settled_def)
    then show ?thesis by (simp add: pt_entry_def load64_store64_apart)
  qed
  then show ?thesis using assms(1) by (simp add: extends_def)
qed

lemma section_descriptor:
  assumes "flags = MMU_FLAGS \<or> flags = MMU_DEVICE_FLAGS"
  shows "ENTRY_GET_ADDR ((p AND NOT SECTION_MASK) OR flags) = p AND NOT SECTION_MASK"
    and "(p AND NOT SECTION_MASK) OR flags \<noteq> 0"
proof -
  have m: "SECTION_MASK = mask 21"
    by (simp add: SECTION_MASK_def SECTION_SHIFT_def mask_eq_exp_minus_1)
  have "take_bit 12 (p AND NOT SECTION_MASK) = 0"
    by (rule bit_word_eqI) (auto simp: bit_take_bit_iff bit_and_iff bit_not_iff m bit_mask_iff)
  then have "page_aligned (p AND NOT SECTION_MASK)"
    by (simp add: page_aligned_def take_bit_eq_mod word_unat_eq_iff unat_mod_distrib)
  moreover have "attr_bits flags"
    using assms by (auto simp: attr_bits_def MMU_FLAGS_def MMU_DEVICE_FLAGS_def)
  ultimately show "ENTRY_GET_ADDR ((p AND NOT SECTION_MASK) OR flags) = p AND NOT SECTION_MASK"
    and "(p AND NOT SECTION_MASK) OR flags \<noteq> 0"
    using ENTRY_GET_ADDR_or by blast+
qed

lemma map_kernel_section_sound:
  assumes "mm_inv s" "space_ok s (pa_of pgt) 2" "flags = MMU_FLAGS \<or> flags = MMU_DEVICE_FLAGS"
    and "map_kernel_section pgt p addr flags s = Inr s'"
  shows "extends s s'"
    and "pt_walk (mem s') (pa_of pgt) (section_path addr) \<noteq> None"
    and "pt_walk (mem s) (pa_of pgt) (section_path addr) = None \<Longrightarrow>
      pt_walk (mem s') (pa_of pgt) (section_path addr) = Some (p AND NOT SECTION_MASK)"
proof -
  let ?i0 = "table_index PGD_SHIFT addr" and ?i1 = "table_index PUD_SHIFT addr"
  let ?i2 = "table_index PMD_SHIFT addr" and ?r = "pa_of pgt"
  let ?d = "(p AND NOT SECTION_MASK) OR flags"
  define e0 where "e0 = entry_at (va_of ?r) ?i0"
  obtain v0 s0 where f0: "fill_entry e0 MM_TYPE_PAGE_TABLE s = Inr (v0, s0)"
    using assms(3,4) by (auto simp: map_kernel_section_def Let_def bindR_eq_Inr e0_def split: if_splits)
  define e1 where "e1 = entry_at (va_of (ENTRY_GET_ADDR (load64 (mem s0) e0))) ?i1"
  obtain v1 s1 where f1: "fill_entry e1 MM_TYPE_PAGE_TABLE s0 = Inr (v1, s1)"
    using assms(3,4) f0
    by (auto simp: map_kernel_section_def Let_def bindR_eq_Inr e0_def e1_def split: if_splits)
  define t2 where "t2 = ENTRY_GET_ADDR (load64 (mem s1) e1)"
  have s': "s' = (if pt_entry (mem s1) t2 ?i2 = 0
      then s1\<lparr>mem := store64 (mem s1) (entry_at (va_of t2) ?i2) ?d\<rparr> else s1)"
    using assms(3,4) f0 f1
    by (auto simp: map_kernel_section_def Let_def e0_def e1_def t2_def pt_entry_def)
  have ok: "path_ok 2 ([] @ [?i0])" "path_ok 2 ([?i0] @ [?i1])" by (simp_all add: path_ok_def)
  note ap = append.simps
  have w: "pt_walk (mem s) ?r [] = Some ?r" by simp
  note S0 = fill_step [OF assms(1,2) ok(1) w attr_bits_used(1) f0 [unfolded e0_def], folded e0_def, unfolded ap]
    and N0 = fill_step_none [OF assms(1,2) ok(1) w attr_bits_used(1) f0 [unfolded e0_def], unfolded ap]
  have inv0: "mm_inv s0" using S0(1) by (simp add: extends_def)
  note S1 = fill_step [OF inv0 S0(2) ok(2) S0(3) attr_bits_used(1) f1 [unfolded e1_def], folded e1_def,
      folded t2_def, unfolded ap]
    and N1 = fill_step_none [OF inv0 S0(2) ok(2) S0(3) attr_bits_used(1) f1 [unfolded e1_def], unfolded ap]
  have inv1: "mm_inv s1" using S1(1) by (simp add: extends_def)
  have e01: "extends s s1" using S0(1) S1(1) extends_trans by blast
  have t2: "settled s1 t2" using space_ok_walk [OF S1(2) _ S1(3)] ok(2) by simp
  have e12: "extends s1 s'"
    using store_entry_extends [OF inv1 t2 table_index_less] extends_refl [OF inv1] s' by auto
  show "extends s s'" using e01 e12 by (rule extends_trans)
  have ok2: "path_ok (Suc 2) [?i0, ?i1]" by (simp add: path_ok_def)
  have W: "pt_walk (mem s') ?r [?i0, ?i1] = Some t2"
    using e12 S1(2) ok2 S1(3) by (rule walk_extends)
  have sp: "section_path addr = [?i0, ?i1] @ [?i2]" by (simp add: section_path_def)
  have E: "pt_entry (mem s') t2 ?i2 = (if pt_entry (mem s1) t2 ?i2 = 0 then ?d else pt_entry (mem s1) t2 ?i2)"
    by (simp add: s' pt_entry_def)
  show "pt_walk (mem s') ?r (section_path addr) \<noteq> None"
    using W E section_descriptor(2) [OF assms(3)] unfolding sp pt_walk_append by (simp add: Let_def)
  assume "pt_walk (mem s) ?r (section_path addr) = None"
  then have "pt_walk (mem s1) ?r [?i0, ?i1, ?i2] = None"
    using N1 N0 table_index_less unfolding section_path_def by blast
  then have "pt_entry (mem s1) t2 ?i2 = 0"
    using S1(3) pt_walk_append [of "mem s1" ?r "[?i0, ?i1]" "[?i2]"] by (simp add: Let_def split: if_splits)
  then show "pt_walk (mem s') ?r (section_path addr) = Some (p AND NOT SECTION_MASK)"
    using W E section_descriptor [OF assms(3)] unfolding sp pt_walk_append by (simp add: Let_def)
qed

lemma fill_entry_total_le:
  assumes "mm_inv s" "Suc n \<le> free_count s"
  shows "\<exists>v s'. fill_entry e bits s = Inr (v, s') \<and> mm_inv s' \<and> n \<le> free_count s'"
  using fill_entry_total [OF assms(1), of e bits] assms(2) by fastforce

lemma free_count_mem [simp]: "free_count (s\<lparr>mem := m\<rparr>) = free_count s"
  by (simp add: free_count_def)

lemma map_kernel_section_total:
  assumes "mm_inv s" "Suc (Suc n) \<le> free_count s"
  shows "\<exists>s'. map_kernel_section pgt p addr flags s = Inr s' \<and> mm_inv s' \<and> n \<le> free_count s'"
proof (cases "flags \<noteq> MMU_FLAGS \<and> flags \<noteq> MMU_DEVICE_FLAGS")
  case True
  then show ?thesis using assms by (simp add: map_kernel_section_def)
next
  case False
  let ?e0 = "entry_at pgt (table_index PGD_SHIFT addr)"
  obtain v0 s0 where s0: "fill_entry ?e0 MM_TYPE_PAGE_TABLE s = Inr (v0, s0)" "mm_inv s0" "Suc n \<le> free_count s0"
    using fill_entry_total_le [OF assms] by blast
  let ?e1 = "entry_at (va_of (ENTRY_GET_ADDR (load64 (mem s0) ?e0))) (table_index PUD_SHIFT addr)"
  obtain v1 s1 where s1: "fill_entry ?e1 MM_TYPE_PAGE_TABLE s0 = Inr (v1, s1)" "mm_inv s1" "n \<le> free_count s1"
    using fill_entry_total_le [OF s0(2,3)] by blast
  show ?thesis using False s0(1) s1 by (auto simp: map_kernel_section_def Let_def)
qed

lemma map_kernel_sections_loop_total:
  assumes "mm_inv s" "unat sz \<le> 1024" "2 * (unat sz - i) + n \<le> free_count s"
  shows "\<exists>s'. map_kernel_sections_loop pgt p addr flags sz i s = Inr s' \<and> mm_inv s' \<and> n \<le> free_count s'"
  using assms
proof (induction "unat sz - i" arbitrary: i s)
  case 0
  then show ?case by (subst map_kernel_sections_loop.simps) simp
next
  case (Suc d)
  have f: "Suc (Suc (2 * d + n)) \<le> free_count s" using Suc.hyps(2) Suc.prems(3) by simp
  obtain s1 where s1: "map_kernel_section pgt (p + push_bit SECTION_SHIFT (of_nat i))
      (addr + push_bit SECTION_SHIFT (of_nat i)) flags s = Inr s1" "mm_inv s1" "2 * d + n \<le> free_count s1"
    using map_kernel_section_total [OF Suc.prems(1) f] by blast
  have d: "d = unat sz - Suc i" using Suc.hyps(2) by simp
  have "\<exists>s'. map_kernel_sections_loop pgt p addr flags sz (Suc i) s1 = Inr s' \<and> mm_inv s' \<and> n \<le> free_count s'"
    using Suc.hyps(1) [OF d s1(2) Suc.prems(2)] s1(3) d by simp
  moreover have "i < unat sz" using Suc.hyps(2) by simp
  ultimately show ?case
    using s1(1) Suc.prems(2) by (subst map_kernel_sections_loop.simps) simp
qed

lemma init_mm_total:
  assumes "mm_inv s" "64 + n \<le> free_count s"
  shows "\<exists>s'. init_mm pgt img_end s = Inr (pa_of img_end > HIGH_MEM, s') \<and> mm_inv s' \<and> n \<le> free_count s'"
proof -
  have sz: "(if PFLASH1_SIZE AND (SECTION_SIZE - 1) \<noteq> 0 then drop_bit SECTION_SHIFT PFLASH1_SIZE + 1
      else drop_bit SECTION_SHIFT PFLASH1_SIZE) = 32"
    by (simp add: PFLASH1_SIZE_def SECTION_SIZE_def SECTION_SHIFT_def)
  obtain s' where "map_kernel_sections_loop pgt PFLASH1_PA_BASE PFLASH1_BASE MMU_DEVICE_FLAGS 32 0 s = Inr s'" "mm_inv s'" "n \<le> free_count s'"
    using map_kernel_sections_loop_total [of s 32 0 n pgt PFLASH1_PA_BASE PFLASH1_BASE MMU_DEVICE_FLAGS] assms by auto
  then show ?thesis by (simp add: init_mm_def map_kernel_sections_def sz)
qed

text \<open>Mapping sections changes nothing but the memory and the page descriptors.\<close>

definition only_pages :: "'a mm_state_scheme \<Rightarrow> 'a mm_state_scheme \<Rightarrow> bool" where
  "only_pages s s' \<longleftrightarrow> (\<exists>m mp. s' = s\<lparr>mem_map := mp, mem := m\<rparr>)"

lemma only_pages_trans: "only_pages s s1 \<Longrightarrow> only_pages s1 s2 \<Longrightarrow> only_pages s s2"
  unfolding only_pages_def by force

lemma only_pages_refl: "only_pages s s" "only_pages s (s\<lparr>mem := m\<rparr>)"
proof -
  have "s = s\<lparr>mem_map := mem_map s, mem := mem s\<rparr>" "s\<lparr>mem := m\<rparr> = s\<lparr>mem_map := mem_map s, mem := m\<rparr>" by simp_all
  then show "only_pages s s" "only_pages s (s\<lparr>mem := m\<rparr>)" unfolding only_pages_def by blast+
qed

lemma fill_entry_only: "fill_entry e bits s = Inr (v, s') \<Longrightarrow> only_pages s s'"
  by (auto simp: fill_entry_def bindR_eq_Inr get_free_page_eq took_page_def only_pages_refl split: if_splits option.splits)
    (auto simp: only_pages_def)

lemma map_kernel_section_only: "map_kernel_section pgt p addr flags s = Inr s' \<Longrightarrow> only_pages s s'"
  by (auto simp: map_kernel_section_def bindR_eq_Inr Let_def only_pages_refl split: if_splits
      dest!: fill_entry_only intro: only_pages_trans only_pages_refl)

lemma map_kernel_sections_loop_only: "map_kernel_sections_loop pgt p addr flags sz i s = Inr s' \<Longrightarrow> only_pages s s'"
proof (induction pgt p addr flags sz i s rule: map_kernel_sections_loop.induct)
  case (1 pgt p addr flags sz i s)
  show ?case
  proof (cases "i < unat sz")
    case True
    then obtain x where x: "\<not> 1024 \<le> i" "map_kernel_sections_loop pgt p addr flags sz (Suc i) x = Inr s'"
        "map_kernel_section pgt (p + push_bit SECTION_SHIFT (of_nat i)) (addr + push_bit SECTION_SHIFT (of_nat i)) flags s = Inr x"
      using "1.prems" by (subst (asm) map_kernel_sections_loop.simps) (auto simp: bindR_eq_Inr split: if_splits)
    then show ?thesis using True "1.IH" map_kernel_section_only only_pages_trans by blast
  next
    case False
    then show ?thesis using "1.prems" by (subst (asm) map_kernel_sections_loop.simps) (simp add: only_pages_refl)
  qed
qed

lemma init_mm_only: "init_mm pgt img_end s = Inr (w, s') \<Longrightarrow> only_pages s s'"
  by (auto simp: init_mm_def map_kernel_sections_def bindR_eq_Inr Let_def dest!: map_kernel_sections_loop_only)

section \<open>Properties\<close>

text \<open>C12: When \<^verbatim>\<open>alloc_user_page\<close> returns, the requested address is mapped, to a page nobody held if
  it was not mapped before, and is recorded in the first free slot of \<^verbatim>\<open>vma\<close>; every address
  that was mapped stays mapped to the same frame, and the address space keeps its soundness.\<close>

theorem alloc_user_page_maps:
  assumes "mm_inv s" "space_ok s (pgd mm) 4" "alloc_user_page addr mm s = Inr (mm', s')"
  shows "mm_inv s' \<and> space_ok s' (pgd mm') 4 \<and>
    (\<forall>a f. user_frame (mem s) (pgd mm) a = Some f \<longrightarrow> user_frame (mem s') (pgd mm') a = Some f) \<and>
    (\<exists>f. user_frame (mem s') (pgd mm') addr = Some f \<and> vma mm' = note_vma addr f (vma mm) \<and>
      (user_frame (mem s) (pgd mm) addr = None \<longrightarrow> va_of f \<in> page_pool - used_pages s))"
proof -
  note S = alloc_user_page_sound [OF assms]
  have "mm_inv s'" using S(1) by (simp add: extends_def)
  then show ?thesis
    using S user_frame_extends [OF S(1) assms(2)] by simp
qed

text \<open>C30: On an address space whose tables and frames are pages in use, with four more pages free and three
  free slots in \<^verbatim>\<open>pgtbl_page\<close>, \<^verbatim>\<open>alloc_user_page\<close> always returns, and what it returns is right: the
  address is mapped, to a page in use, the tables and frames of the space are again all pages in use, no page
  was given back, and every address that was mapped keeps its frame.\<close>

theorem alloc_user_page_returns:
  assumes "mm_inv s" "held_space s (pgd mm)" "4 \<le> card (page_pool - used_pages s)" "first_null (pgtbl_page mm) \<le> 5"
  shows "\<exists>mm' s' f. alloc_user_page addr mm s = Inr (mm', s') \<and> mm_inv s' \<and> held_space s' (pgd mm') \<and>
    user_frame (mem s') (pgd mm') addr = Some f \<and> va_of f \<in> used_pages s' \<and> used_pages s \<subseteq> used_pages s' \<and>
    (\<forall>a f. user_frame (mem s) (pgd mm) a = Some f \<longrightarrow> user_frame (mem s') (pgd mm') a = Some f)"
proof -
  obtain mm' s' where r: "alloc_user_page addr mm s = Inr (mm', s')"
    using alloc_user_page_total [OF assms(1) assms(3) [folded free_count_def] assms(4)] by blast
  note sp = held_space_ok [OF assms(1,2)]
  note S = alloc_user_page_sound [OF assms(1) sp r] and H = alloc_user_page_held [OF assms(1,2) r]
  obtain f where f: "user_frame (mem s') (pgd mm') addr = Some f" using S(3,4) by auto
  then have "va_of f \<in> used_pages s'"
    using H user_path_ok [of addr] unfolding held_space_def user_frame_def by blast
  then show ?thesis using r f H S(1,3) user_frame_extends [OF S(1) sp] by (auto simp: extends_def)
qed

text \<open>An address space whose top-level table is the image page just below the page pool.\<close>

definition fresh_mm_struct :: mm_struct where
  "fresh_mm_struct = \<lparr>pgd = LOW_MEM - 4096, vma = replicate 16 \<lparr>va = 0, pa = 0\<rparr>, pgtbl_page = replicate 8 0\<rparr>"

lemma load64_zero_mem [simp]: "load64 (\<lambda>_. 0) a = 0"
  by (rule load64_zero) simp

lemma pt_walk_zero: "pt_walk (\<lambda>_. 0) t is = (if is = [] then Some t else None)"
  by (cases "is") (simp_all add: pt_entry_def)

lemma fresh_settled: "settled fresh_mm (LOW_MEM - 4096)"
proof -
  have u: "unat (va_of (LOW_MEM - 4096)) = 0xffff00000017f000"
    by (simp add: va_of_def layout_values)
  have "va_of (LOW_MEM - 4096) \<noteq> page_va i" if "i < PAGING_PAGES" for i
  proof
    assume "va_of (LOW_MEM - 4096) = page_va i"
    then have "unat (va_of (LOW_MEM - 4096)) = unat (page_va i)" by simp
    then show False unfolding u unat_page_va [OF that] by simp
  qed
  then show ?thesis by (auto simp: settled_def page_aligned_def page_pool_def layout_values)
qed

lemma fresh_space_ok: "space_ok fresh_mm (LOW_MEM - 4096) n"
  using fresh_settled by (auto simp: space_ok_def fresh_mm_mem pt_walk_zero split: if_splits)

lemma card_page_pool: "card page_pool = PAGING_PAGES"
  unfolding page_pool_def using page_va_inj by (subst card_image) (auto intro: inj_onI)

lemma fresh_first_null: "first_null (pgtbl_page fresh_mm_struct) = 0"
  by (simp add: first_null_def fresh_mm_struct_def MAX_PGTBL_PAGES_def takeWhile_replicate)

theorem alloc_user_page_returns_witness:
  "\<exists>p s mm' s' f. get_free_page GFP_KERNEL fresh_mm = Inr (p, s) \<and>
     alloc_user_page 0x400000 (fresh_mm_struct\<lparr>pgd := pa_of p\<rparr>) s = Inr (mm', s') \<and>
     user_frame (mem s') (pgd mm') 0x400000 = Some f \<and> va_of f \<in> used_pages s'"
proof -
  have "used_pages fresh_mm \<noteq> page_pool"
    unfolding fresh_mm_used page_pool_def by (metis PAGING_PAGES_eq image_is_empty lessThan_empty_iff zero_neq_numeral)
  then obtain p s where g: "get_free_page GFP_KERNEL fresh_mm = Inr (p, s)"
    using pg.get_law [OF fresh_mm_inv] by blast
  note G = pg.get_Inr [OF fresh_mm_inv g]
  have m: "mem s = (\<lambda>_. 0)" using G(4) by (auto simp: fresh_mm_mem)
  have h: "held_space s (pgd (fresh_mm_struct\<lparr>pgd := pa_of p\<rparr>))"
    using G(3) by (auto simp: held_space_def m pt_walk_zero split: if_splits)
  have "card (page_pool - used_pages s) = PAGING_PAGES - 1"
    using G(2,3) card_page_pool by (simp add: fresh_mm_used card_Diff_singleton)
  then have c: "4 \<le> card (page_pool - used_pages s)" by (simp add: PAGING_PAGES_eq)
  have n: "first_null (pgtbl_page (fresh_mm_struct\<lparr>pgd := pa_of p\<rparr>)) \<le> 5" using fresh_first_null by simp
  from alloc_user_page_returns [OF G(1) h c n, where addr = "0x400000"] g show ?thesis by blast
qed

theorem alloc_user_page_maps_witness:
  "\<exists>mm' s' f. alloc_user_page 0 fresh_mm_struct fresh_mm = Inr (mm', s') \<and>
     user_frame (mem s') (pgd mm') 0 = Some f \<and> va_of f \<in> page_pool"
proof -
  obtain mm' s' where r: "alloc_user_page 0 fresh_mm_struct fresh_mm = Inr (mm', s')"
    using alloc_user_page_total [of fresh_mm fresh_mm_struct 0]
    by (auto simp: fresh_mm_inv fresh_mm_used card_page_pool PAGING_PAGES_eq fresh_first_null free_count_def)
  have "space_ok fresh_mm (pgd fresh_mm_struct) 4"
    using fresh_space_ok by (simp add: fresh_mm_struct_def)
  from alloc_user_page_maps [OF fresh_mm_inv this r]
  have "\<exists>f. user_frame (mem s') (pgd mm') 0 = Some f \<and> va_of f \<in> page_pool"
    by (auto simp: user_frame_def user_path_def fresh_mm_mem pt_walk_zero)
  with r show ?thesis by blast
qed

text \<open>When \<^verbatim>\<open>alloc_user_pages\<close> returns, every page of the requested range is mapped and every
  address mapped before keeps its frame.\<close>

theorem alloc_user_pages_maps:
  assumes "mm_inv s" "space_ok s (pgd mm) 4" "alloc_user_pages start bytes mm s = Inr (mm', s')"
    and "j * 4096 < unat bytes"
  shows "user_frame (mem s') (pgd mm') (start + push_bit PAGE_SHIFT (of_nat j)) \<noteq> None \<and>
    (\<forall>a f. user_frame (mem s) (pgd mm) a = Some f \<longrightarrow> user_frame (mem s') (pgd mm') a = Some f)"
proof -
  define sz where "sz = (if bytes AND (PAGE_SIZE - 1) \<noteq> 0 then drop_bit PAGE_SHIFT bytes + 1
    else drop_bit PAGE_SHIFT bytes)"
  have L: "alloc_user_pages_loop start sz 0 mm s = Inr (mm', s')"
    using assms(3) by (simp add: alloc_user_pages_def sz_def Let_def)
  have m: "(PAGE_SIZE - 1 :: u64) = mask 12" by (simp add: layout_values mask_eq_exp_minus_1)
  have d: "unat (drop_bit PAGE_SHIFT bytes) = unat bytes div 4096"
    by (simp add: layout_values drop_bit_eq_div unat_div_distrib)
  have b: "unat bytes div 4096 < 2 ^ 52" using unat_u64_less [of bytes] by simp
  have z: "bytes AND (PAGE_SIZE - 1) = 0 \<longleftrightarrow> unat bytes mod 4096 = 0"
    unfolding m take_bit_eq_mask [symmetric]
    by (simp add: word_unat_eq_iff take_bit_eq_mod unat_mod_distrib)
  have "unat sz = (if unat bytes mod 4096 \<noteq> 0 then unat bytes div 4096 + 1 else unat bytes div 4096)"
    using d b by (simp add: sz_def z unat_word_ariths)
  then have "j < unat sz" using assms(4) by (auto split: if_splits)
  then show ?thesis
    using alloc_user_pages_loop_sound [OF assms(1,2) L] user_frame_extends [OF _ assms(2)] by simp
qed

theorem alloc_user_pages_maps_witness:
  "\<exists>mm' s'. alloc_user_pages 0 100 fresh_mm_struct fresh_mm = Inr (mm', s') \<and>
     user_frame (mem s') (pgd mm') 0 \<noteq> None"
proof -
  obtain mm' s' where r: "alloc_user_page 0 fresh_mm_struct fresh_mm = Inr (mm', s')"
    using alloc_user_page_total [of fresh_mm fresh_mm_struct 0]
    by (auto simp: fresh_mm_inv fresh_mm_used card_page_pool PAGING_PAGES_eq fresh_first_null free_count_def)
  have "alloc_user_pages_loop 0 1 0 fresh_mm_struct fresh_mm = Inr (mm', s')"
    using r by (subst alloc_user_pages_loop.simps) (simp add: alloc_user_pages_loop.simps)
  then have A: "alloc_user_pages 0 100 fresh_mm_struct fresh_mm = Inr (mm', s')"
    by (simp add: alloc_user_pages_def layout_values)
  have "space_ok fresh_mm (pgd fresh_mm_struct) 4"
    using fresh_space_ok by (simp add: fresh_mm_struct_def)
  from alloc_user_pages_maps [OF fresh_mm_inv this A, of 0] A show ?thesis by simp
qed

text \<open>\<^verbatim>\<open>map_kernel_section\<close> with one of the two attribute sets of the kernel maps a section that
  was not mapped to the 2 MB block asked for, and keeps every mapping there was.\<close>

theorem map_kernel_section_maps:
  assumes "mm_inv s" "space_ok s (pa_of pgt) 2" "flags = MMU_FLAGS \<or> flags = MMU_DEVICE_FLAGS"
    and "map_kernel_section pgt p addr flags s = Inr s'"
  shows "(\<forall>a b. pt_walk (mem s) (pa_of pgt) (section_path a) = Some b \<longrightarrow>
        pt_walk (mem s') (pa_of pgt) (section_path a) = Some b) \<and>
    (pt_walk (mem s) (pa_of pgt) (section_path addr) = None \<longrightarrow>
        pt_walk (mem s') (pa_of pgt) (section_path addr) = Some (p AND NOT SECTION_MASK))"
proof -
  note S = map_kernel_section_sound [OF assms]
  have "path_ok (Suc 2) (section_path a)" for a by (simp add: path_ok_def section_path_def)
  then show ?thesis using walk_extends [OF S(1) assms(2)] S(3) by blast
qed

theorem map_kernel_section_maps_witness:
  "\<exists>s'. map_kernel_section (va_of (LOW_MEM - 4096)) 0x04000000 0xffff000400000000 MMU_DEVICE_FLAGS fresh_mm = Inr s' \<and>
     pt_walk (mem s') (LOW_MEM - 4096) (section_path 0xffff000400000000) = Some 0x04000000"
proof -
  have f: "Suc (Suc 0) \<le> free_count fresh_mm"
    by (simp add: free_count_def fresh_mm_used card_page_pool PAGING_PAGES_eq)
  obtain s' where r: "map_kernel_section (va_of (LOW_MEM - 4096)) 0x04000000 0xffff000400000000 MMU_DEVICE_FLAGS
      fresh_mm = Inr s'"
    using map_kernel_section_total [OF fresh_mm_inv f] by blast
  have ok: "space_ok fresh_mm (pa_of (va_of (LOW_MEM - 4096))) 2" using fresh_space_ok by simp
  from map_kernel_section_maps [OF fresh_mm_inv ok _ r] r show ?thesis
    by (simp add: section_path_def fresh_mm_mem pt_walk_zero SECTION_MASK_def SECTION_SHIFT_def)
qed

text \<open>The size check of \<^verbatim>\<open>init_mm\<close> does not protect the page pool: an image that ends inside the
  first managed page passes it, and so does any image that ends below the top of the pool.\<close>

theorem init_mm_image_check:
  assumes "LOW_MEM < pa_of img_end" "pa_of img_end \<le> HIGH_MEM" "init_mm pgt img_end s = Inr (warn, s')"
  shows "\<not> warn \<and> (\<exists>p \<in> page_pool. in_page p (img_end - 1))"
proof -
  define k where "k = unat (pa_of img_end) - 0x40180000 - 1"
  have lo: "0x40180000 < unat (pa_of img_end)" and hi: "unat (pa_of img_end) \<le> 0x40f7ffff"
    using assms(1,2) by (simp_all add: word_less_nat_alt word_le_nat_alt layout_values HIGH_MEM_def
        IMAGE_START_def PAGING_MEMORY_def)
  define i where "i = k div 4096"
  have i: "i < PAGING_PAGES" using lo hi by (simp add: i_def k_def PAGING_PAGES_eq)
  have w: "\<not> warn"
    using assms(2,3) by (auto simp: init_mm_def bindR_eq_Inr)
  have e: "img_end - 1 = pa_of img_end + 0xfffeffffbfffffff"
    by (simp add: pa_of_def layout_values)
  have "unat (img_end - 1) = 0xffff000000180000 + k"
    unfolding e unat_word_ariths using lo hi by (simp add: k_def)
  moreover have "4096 * i \<le> k" "k < 4096 * i + 4096" by (simp_all add: i_def)
  ultimately have "in_page (page_va i) (img_end - 1)"
    by (simp add: in_page_unat [OF i])
  then show ?thesis using w i by (auto simp: page_pool_def)
qed

theorem init_mm_image_check_witness:
  "\<exists>s' p. init_mm (va_of (LOW_MEM - 4096)) (va_of (LOW_MEM + 8)) fresh_mm = Inr (False, s') \<and>
     p \<in> page_pool \<and> in_page p (va_of (LOW_MEM + 8) - 1)"
proof -
  have f: "64 + 0 \<le> free_count fresh_mm"
    by (simp add: free_count_def fresh_mm_used card_page_pool PAGING_PAGES_eq)
  obtain w s' where r: "init_mm (va_of (LOW_MEM - 4096)) (va_of (LOW_MEM + 8)) fresh_mm = Inr (w, s')"
    using init_mm_total [OF fresh_mm_inv f] by blast
  have "LOW_MEM < pa_of (va_of (LOW_MEM + 8))" "pa_of (va_of (LOW_MEM + 8)) \<le> HIGH_MEM"
    by (simp_all add: layout_values HIGH_MEM_def IMAGE_START_def PAGING_MEMORY_def)
  from init_mm_image_check [OF this r] r show ?thesis by auto
qed

end
