(* ===== verification/Task.thy ===== *)
theory Task
  imports Soft_Timer Page_Table Lib
begin

text \<open>
  \<^verbatim>\<open>kernel/task.c\<close> and \<^verbatim>\<open>include/task.h\<close>: task descriptors, the round-robin scheduler, the switch
  between tasks, and the creation and deletion of tasks.

  A task descriptor lies at the bottom of its kernel stack page; the descriptors are a typed
  heap, and the list node of the descriptor at \<open>p\<close> is the node \<open>p + 128\<close> of the list heap. The
  registers the switch saves are \<open>cregs\<close>; the running task is found from the stack pointer.
  Frames that C functions push and pop again are not part of the stack pointer here, only the
  exception frame is.

  A switch of tasks returns in the context of another task. The return address in the frame
  of \<^verbatim>\<open>switch_to\<close> on the kernel stack of a task is \<open>frames\<close>: it names the scheduler function
  that runs on. The addresses the linker gives to \<^verbatim>\<open>ret_from_fork\<close> and to the instruction after
  the call of \<^verbatim>\<open>cpu_switch_to\<close> are fields of the state that nothing changes.
\<close>

section \<open>State\<close>

definition STACK_SZ :: u64 where "STACK_SZ = push_bit 10 4"
definition USER_STACK_SZ :: u64 where "USER_STACK_SZ = STACK_SZ"
definition PSR_MODE_EL0t :: u64 where "PSR_MODE_EL0t = 0"
definition TASK_DEAD :: int where "TASK_DEAD = 0"
definition TASK_RUNNING :: int where "TASK_RUNNING = 1"
definition TASK_STOP :: int where "TASK_STOP = 2"
definition TASK_ZOMBIE :: int where "TASK_ZOMBIE = 3"
definition NR_OPEN :: nat where "NR_OPEN = 32"
definition CANARY_MAGIC_NUM :: u32 where "CANARY_MAGIC_NUM = 0xdeadbeef"
definition USER_START :: u64 where "USER_START = 0"
definition USER_MAX :: u64 where "USER_MAX = push_bit 30 1"
definition FRAME_SZ :: u64 where "FRAME_SZ = 17 * 16"

lemmas task_state_defs = TASK_DEAD_def TASK_RUNNING_def TASK_STOP_def TASK_ZOMBIE_def

record cpu_context =
  x19 :: u64
  x20 :: u64
  x21 :: u64
  x22 :: u64
  x23 :: u64
  x24 :: u64
  x25 :: u64
  x26 :: u64
  x27 :: u64
  x28 :: u64
  x29 :: u64
  ctx_sp :: u64
  ctx_pc :: u64

text \<open>The part of the exception frame that the creation of a process fills in.\<close>

record pt_regs =
  pt_sp :: u64
  pt_pc :: u64
  pt_spsr :: u64

record task_struct =
  cpu_context :: cpu_context
  state :: int
  preempt_count :: u64
  mm :: u64
  filp :: "u64 list"
  canary :: u32

datatype resume_point = In_scheduler_tick | In_schedule

record task_state = timer_state +
  tasks :: "u64 \<rightharpoonup> task_struct"
  mms :: "u64 \<rightharpoonup> mm_struct"
  user_frames :: "u64 \<rightharpoonup> pt_regs"
  init_task :: u64
  next_task :: u64
  cregs :: cpu_context
  frames :: "u64 \<rightharpoonup> resume_point"
  ret_from_fork :: u64
  switch_ret :: u64

definition list_off :: u64 where "list_off = 128"
definition sizeof_mm_struct :: u32 where "sizeof_mm_struct = 328"
definition sizeof_pt_regs :: u64 where "sizeof_pt_regs = 272"

definition zero_context :: cpu_context where
  "zero_context = \<lparr>x19 = 0, x20 = 0, x21 = 0, x22 = 0, x23 = 0, x24 = 0, x25 = 0, x26 = 0, x27 = 0,
     x28 = 0, x29 = 0, ctx_sp = 0, ctx_pc = 0\<rparr>"

text \<open>The descriptor in a page of zeros.\<close>

definition zero_task :: task_struct where
  "zero_task = \<lparr>cpu_context = zero_context, state = 0, preempt_count = 0, mm = NULL,
     filp = replicate NR_OPEN NULL, canary = 0\<rparr>"

definition with_task :: "u64 \<Rightarrow> (task_struct \<Rightarrow> task_struct) \<Rightarrow> 'a task_state_scheme \<Rightarrow> 'a task_state_scheme res" where
  "with_task p f s = bindR (deref (tasks s) p) (\<lambda>t. Inr (s\<lparr>tasks := (tasks s)(p \<mapsto> f t)\<rparr>))"

definition get_current :: "'a task_state_scheme \<Rightarrow> u64" where
  "get_current s = ctx_sp (cregs s) AND NOT (STACK_SZ - 1)"

text \<open>The address space a pointer to one stands for; the null pointer is a kernel thread's.\<close>

definition mm_at :: "u64 \<Rightarrow> 'a task_state_scheme \<Rightarrow> mm_struct option res" where
  "mm_at p s = (if p = NULL then Inr None else bindR (deref (mms s) p) (\<lambda>m. Inr (Some m)))"

section \<open>Scheduling\<close>

definition preempt_disable :: "'a task_state_scheme \<Rightarrow> 'a task_state_scheme res" where
  "preempt_disable s = with_task (get_current s) (\<lambda>t. t\<lparr>preempt_count := preempt_count t + 1\<rparr>) s"

definition preempt_enable :: "'a task_state_scheme \<Rightarrow> 'a task_state_scheme res" where
  "preempt_enable s = with_task (get_current s) (\<lambda>t. t\<lparr>preempt_count := preempt_count t - 1\<rparr>) s"

definition cpu_switch_to :: "u64 \<Rightarrow> u64 \<Rightarrow> 'a task_state_scheme \<Rightarrow> 'a task_state_scheme res" where
  "cpu_switch_to prev next s =
     bindR (with_task prev (\<lambda>t. t\<lparr>cpu_context := cregs s\<rparr>) s) (\<lambda>s.
     bindR (deref (tasks s) next) (\<lambda>t.
     Inr (s\<lparr>cregs := cpu_context t\<rparr>)))"

text \<open>
  \<^verbatim>\<open>switch_to\<close>, called from \<open>here\<close>. The result names the function it returns to, in the
  context of the task that then runs; \<open>None\<close>: a task that never ran before starts at
  \<^verbatim>\<open>ret_from_fork\<close>.
\<close>

definition switch_to ::
  "resume_point \<Rightarrow> u64 \<Rightarrow> 'a task_state_scheme \<Rightarrow> (resume_point option \<times> 'a task_state_scheme) res" where
  "switch_to here next s =
     (let prev = get_current s in
      bindR (preempt_disable s) (\<lambda>s.
      bindR (if get_current s = next \<or> next = NULL then Inr True
             else bindR (deref (tasks s) next) (\<lambda>t. Inr (state t \<noteq> TASK_RUNNING))) (\<lambda>out.
      if out then bindR (preempt_enable s) (\<lambda>s. Inr (Some here, s))
      else
        bindR (deref (tasks s) next) (\<lambda>t.
        bindR (mm_at (mm t) s) (\<lambda>m.
        let s = switch_mm m s;
            s = s\<lparr>cregs := (cregs s)\<lparr>ctx_pc := switch_ret s\<rparr>, frames := (frames s)(prev \<mapsto> here)\<rparr>
        in bindR (cpu_switch_to prev next s) (\<lambda>s.
           if ctx_pc (cregs s) = ret_from_fork s then Inr (None, s)
           else bindR (preempt_enable s) (\<lambda>s. Inr (frames s (get_current s), s))))))))"

definition select_next_task :: "'a task_state_scheme \<Rightarrow> 'a task_state_scheme res" where
  "select_next_task s =
     bindR (preempt_disable s) (\<lambda>s.
     bindR (deref (nxt (lists s)) (get_current s + list_off)) (\<lambda>n.
     preempt_enable (s\<lparr>next_task := n - list_off\<rparr>)))"

text \<open>What the function that \<^verbatim>\<open>switch_to\<close> returns to still does.\<close>

definition after_switch :: "resume_point option \<times> 'a task_state_scheme \<Rightarrow> resume_point option \<times> 'a task_state_scheme" where
  "after_switch = (\<lambda>(r, s). (r, if r = Some In_scheduler_tick then disable_irq s else s))"

definition scheduler_tick :: "'a task_state_scheme \<Rightarrow> (resume_point option \<times> 'a task_state_scheme) res" where
  "scheduler_tick s =
     bindR (deref (tasks s) (get_current s)) (\<lambda>t.
     if preempt_count t > 0 then Inr (Some In_scheduler_tick, s)
     else
       bindR (select_next_task s) (\<lambda>s.
       let s = enable_irq s in
       bindR (switch_to In_scheduler_tick (next_task s) s) (\<lambda>r. Inr (after_switch r))))"

definition schedule :: "'a task_state_scheme \<Rightarrow> (resume_point option \<times> 'a task_state_scheme) res" where
  "schedule s =
     bindR (deref (tasks s) (get_current s)) (\<lambda>t.
     if preempt_count t > 0 then Inr (Some In_schedule, s)
     else
       bindR (select_next_task s) (\<lambda>s.
       bindR (switch_to In_schedule (next_task s) s) (\<lambda>r. Inr (after_switch r))))"

section \<open>Exception entry and exit\<close>

text \<open>
  The move of the stack pointer over the exception frame, and the first instructions of a new task.
  What the frame holds, the registers and the state of the processor, is not part of the state here; the theory
  \<open>Vectors\<close> has the instructions that save and restore it.
\<close>

definition kernel_entry :: "'a task_state_scheme \<Rightarrow> 'a task_state_scheme" where
  "kernel_entry s = s\<lparr>cregs := (cregs s)\<lparr>ctx_sp := ctx_sp (cregs s) - FRAME_SZ\<rparr>\<rparr>"

definition kernel_exit :: "'a task_state_scheme \<Rightarrow> 'a task_state_scheme" where
  "kernel_exit s = s\<lparr>cregs := (cregs s)\<lparr>ctx_sp := ctx_sp (cregs s) + FRAME_SZ\<rparr>\<rparr>"

definition run_from_fork :: "'a task_state_scheme \<Rightarrow> 'a task_state_scheme" where
  "run_from_fork s =
     (if x19 (cregs s) \<noteq> 0 then s\<lparr>cregs := (cregs s)\<lparr>ctx_pc := x19 (cregs s)\<rparr>\<rparr>
      else kernel_exit (s\<lparr>ttbr0_el1 := x20 (cregs s)\<rparr>))"

text \<open>A timer interrupt as the scheduler sees it: entry, \<^verbatim>\<open>scheduler_tick\<close>, and the way out.\<close>

definition leave :: "resume_point option \<times> 'a task_state_scheme \<Rightarrow> 'a task_state_scheme" where
  "leave = (\<lambda>(r, s). case r of None \<Rightarrow> run_from_fork s | Some _ \<Rightarrow> kernel_exit s)"

definition tick :: "'a task_state_scheme \<Rightarrow> 'a task_state_scheme res" where
  "tick s = bindR (scheduler_tick (kernel_entry s)) (\<lambda>r. Inr (leave r))"

section \<open>Creating tasks\<close>

definition task_add :: "u64 \<Rightarrow> 'a task_state_scheme \<Rightarrow> 'a task_state_scheme res" where
  "task_add new s =
     bindR (list_add_tail (new + list_off) (init_task s + list_off) (lists s)) (\<lambda>h.
     with_task new (\<lambda>t. t\<lparr>state := TASK_RUNNING\<rparr>) (s\<lparr>lists := h\<rparr>))"

definition kthread_create :: "u64 \<Rightarrow> 'a task_state_scheme \<Rightarrow> 'a task_state_scheme res" where
  "kthread_create main s =
     bindR (preempt_disable s) (\<lambda>s.
     bindR (get_free_page GFP_KERNEL s) (\<lambda>(p, s).
     let c = zero_context\<lparr>x19 := main, ctx_sp := p + STACK_SZ, ctx_pc := ret_from_fork s\<rparr>;
         t = zero_task\<lparr>cpu_context := c, preempt_count := 0, canary := CANARY_MAGIC_NUM\<rparr>;
         s = s\<lparr>tasks := (tasks s)(p \<mapsto> t), lists := make_node (p + list_off) (lists s)\<rparr>
     in bindR (task_add p s) preempt_enable))"

text \<open>
  A user address is translated by the table in \<^verbatim>\<open>ttbr0_el1\<close>; the copy of the program into the
  new address space writes through it, byte by byte, as \<^verbatim>\<open>memcpy\<close> does.
\<close>

definition user_addr :: "memory \<Rightarrow> u64 \<Rightarrow> u64 \<Rightarrow> u64 res" where
  "user_addr m root a =
     (case user_frame m root a of
        None \<Rightarrow> Inl (Bad_pointer a)
      | Some f \<Rightarrow> Inr (va_of f + (a AND PAGE_MASK)))"

fun copy_to_user :: "nat \<Rightarrow> u64 \<Rightarrow> u64 \<Rightarrow> u64 \<Rightarrow> memory \<Rightarrow> memory res" where
  "copy_to_user 0 root dst src m = Inr m"
| "copy_to_user (Suc n) root dst src m =
     bindR (user_addr m root dst) (\<lambda>a. copy_to_user n root (dst + 1) (src + 1) (m(a := m src)))"

definition memcpy_to_user :: "u64 \<Rightarrow> u64 \<Rightarrow> u64 \<Rightarrow> 'a task_state_scheme \<Rightarrow> 'a task_state_scheme res" where
  "memcpy_to_user dst src sz s =
     (if INT_MAX < unat sz then Inl Signed_overflow
      else bindR (copy_to_user (unat sz) (ttbr0_el1 s) dst src (mem s)) (\<lambda>m. Inr (s\<lparr>mem := m\<rparr>)))"

text \<open>
  \<^verbatim>\<open>kmalloc\<close> does not clear the object it returns: \<open>junk\<close> is what the new address space
  descriptor happens to hold.
\<close>

definition copy_process ::
  "mm_struct \<Rightarrow> u64 \<Rightarrow> u64 \<Rightarrow> 'a task_state_scheme \<Rightarrow> 'a task_state_scheme res" where
  "copy_process junk start sz s =
     bindR (preempt_disable s) (\<lambda>s.
     bindR (get_free_page GFP_KERNEL s) (\<lambda>(p, s).
     let new = p + STACK_SZ - sizeof_pt_regs;
         c = zero_context\<lparr>ctx_pc := ret_from_fork s, x19 := 0, ctx_sp := new\<rparr>;
         t = zero_task\<lparr>cpu_context := c, preempt_count := 0\<rparr>;
         s = s\<lparr>tasks := (tasks s)(p \<mapsto> t), lists := make_node (p + list_off) (lists s)\<rparr>
     in bindR (kmalloc sizeof_mm_struct s) (\<lambda>(m, s).
     bindR (get_free_page GFP_KERNEL s) (\<lambda>(g, s).
     let mm0 = junk\<lparr>pgd := pa_of g\<rparr>;
         t = t\<lparr>mm := m, cpu_context := c\<lparr>x20 := pgd mm0\<rparr>\<rparr>;
         s = s\<lparr>tasks := (tasks s)(p \<mapsto> t)\<rparr>
     in bindR (alloc_user_pages (USER_MAX - USER_STACK_SZ) USER_STACK_SZ mm0 s) (\<lambda>(mm1, s).
     bindR (alloc_user_pages USER_START sz mm1 s) (\<lambda>(mm2, s).
     let s = s\<lparr>mms := (mms s)(m \<mapsto> mm2)\<rparr> in
     bindR (memcpy_to_user USER_START start sz (switch_mm (Some mm2) s)) (\<lambda>s.
     bindR (deref (tasks s) (get_current s)) (\<lambda>cur.
     bindR (mm_at (mm cur) s) (\<lambda>cm.
     let s = switch_mm cm s;
         s = s\<lparr>user_frames := (user_frames s)(new \<mapsto>
               \<lparr>pt_sp = USER_MAX, pt_pc = USER_START, pt_spsr = PSR_MODE_EL0t\<rparr>)\<rparr>
     in bindR (with_task p (\<lambda>t. t\<lparr>canary := CANARY_MAGIC_NUM\<rparr>) s) (\<lambda>s.
        bindR (task_add p s) preempt_enable))))))))))"

section \<open>Deleting tasks\<close>

fun free_vma_loop :: "vm_area_struct list \<Rightarrow> 'a task_state_scheme \<Rightarrow> 'a task_state_scheme res" where
  "free_vma_loop [] s = Inr s"
| "free_vma_loop (v # vs) s =
     (if pa v \<noteq> 0 then bindR (free_page (va_of (pa v)) s) (free_vma_loop vs) else Inr s)"

fun free_pgtbl_loop :: "u64 list \<Rightarrow> 'a task_state_scheme \<Rightarrow> 'a task_state_scheme res" where
  "free_pgtbl_loop [] s = Inr s"
| "free_pgtbl_loop (v # vs) s =
     (if v \<noteq> NULL then bindR (free_page v s) (free_pgtbl_loop vs) else free_pgtbl_loop vs s)"

text \<open>
  The descriptor of a deleted task lies in the page that is given back, and nobody may use it any
  more. Its list node is left as \<^verbatim>\<open>list_del\<close> left it, with two null pointers: \<^verbatim>\<open>free_page\<close> touches no byte of
  the page, and the walk of \<^verbatim>\<open>clear_zombie\<close> still reads the node.
\<close>

definition delete_process :: "u64 \<Rightarrow> 'a task_state_scheme \<Rightarrow> 'a task_state_scheme res" where
  "delete_process p s =
     (if p = NULL then Inr s
      else bindR (deref (tasks s) p) (\<lambda>t.
        if state t \<noteq> TASK_ZOMBIE then Inr s
        else
          bindR (list_del (p + list_off) (lists s)) (\<lambda>h.
          let s = s\<lparr>lists := h\<rparr> in
          bindR (deref (mms s) (mm t)) (\<lambda>m.
          bindR (free_vma_loop (vma m) s) (\<lambda>s.
          bindR (free_pgtbl_loop (pgtbl_page m) s) (\<lambda>s.
          bindR (free_page p s) (\<lambda>s.
          Inr (s\<lparr>tasks := (tasks s)(p := None)\<rparr>))))))))"

definition zombie_body :: "u64 \<Rightarrow> 'a task_state_scheme \<Rightarrow> (unit option \<times> 'a task_state_scheme) res" where
  "zombie_body pos s =
     (let tmp = pos - list_off in
      bindR (deref (tasks s) tmp) (\<lambda>t.
      bindR (if state t = TASK_ZOMBIE then delete_process tmp s else Inr s) (\<lambda>s. Inr (None, s))))"

definition clear_zombie :: "'a task_state_scheme \<Rightarrow> 'a task_state_scheme res" where
  "clear_zombie s =
     bindR (preempt_disable s) (\<lambda>s.
     bindR (list_for_each lists (init_task s + list_off) zombie_body s) (\<lambda>(_, s).
     preempt_enable s))"

definition task_nums :: "'a task_state_scheme \<Rightarrow> int res" where
  "task_nums s =
     bindR (list_for_each (lists \<circ> snd) (init_task s + list_off)
              (\<lambda>_ (count, s). Inr (None :: unit option, (count + 1, s))) (0, s))
       (\<lambda>(_, count, _). Inr (count + 1))"

section \<open>The first task\<close>

text \<open>\<^verbatim>\<open>stack_init_task\<close> is the zeroed static page of the first task.\<close>

definition init_init_task :: "u64 \<Rightarrow> 'a task_state_scheme \<Rightarrow> 'a task_state_scheme res" where
  "init_init_task stack_init_task s =
     (let s = s\<lparr>init_task := stack_init_task, tasks := (tasks s)(stack_init_task \<mapsto> zero_task),
                lists := make_node (stack_init_task + list_off) (lists s)\<rparr>
      in bindR (INIT_LIST_HEAD (init_task s + list_off) (lists s)) (\<lambda>h.
         with_task (init_task s) (\<lambda>t. t\<lparr>state := TASK_RUNNING, canary := CANARY_MAGIC_NUM\<rparr>)
           (s\<lparr>lists := h\<rparr>)))"

end
