(* ===== verification/Buffer.thy ===== *)
theory Buffer
  imports Task
begin

text \<open>
  The buffer cache and the flash driver of \<^verbatim>\<open>fs/fs.c\<close>. The flash chip is hardware: it is the
  parameter \<open>fl\<close> of the definitions, a read and a write of a byte at an address on a chip state
  of any type \<open>'f\<close>. Buffer heads are a typed heap, with the node of the list of all buffers at
  offset 16; the data of a buffer are 1024 bytes of memory from the kernel allocator.
\<close>

section \<open>State\<close>

record 'f flash_bus =
  rd8 :: "u64 \<Rightarrow> 'f \<Rightarrow> u8 \<times> 'f"
  wr8 :: "u64 \<Rightarrow> u8 \<Rightarrow> 'f \<Rightarrow> 'f"

record buffer_head =
  b_state :: u64
  b_data :: u64
  b_bd :: u64
  blk_no :: u64

record file_struct =
  f_inode :: u64
  f_count :: u64
  f_flags :: int
  f_pos :: u64

datatype inode_operations = No_operations | Minix_inode_operations | Minix_dir_inode_operations

text \<open>
  An inode in memory; \<open>i_data\<close> is the field of the enclosing \<^verbatim>\<open>struct minix_inode_info\<close>, whose
  address lies 32 bytes below that of the inode.
\<close>

record inode =
  i_mode :: u64
  i_uid :: u64
  i_gid :: u64
  i_size :: u64
  i_atime :: u64
  i_mtime :: u64
  i_ctime :: u64
  i_state :: u64
  i_nlink :: u64
  i_ino :: u64
  i_op :: inode_operations
  i_sb :: u64
  i_count :: u64
  i_data :: "u16 list"

record super_block =
  s_bd :: u64
  s_fs_info :: u64

record block_device =
  nr_blk :: u64
  bd_sb :: u64

record minix_sb_info =
  s_ninodes :: u64
  s_nzones :: u64
  s_imap_blocks :: u64
  s_zmap_blocks :: u64
  s_firstdatazone :: u64
  s_log_zone_size :: u64
  s_max_size :: u64
  s_imap :: u64
  s_zmap :: u64
  s_sbh :: u64
  s_ms :: u64

text \<open>
  \<open>stale_inode\<close>: what the memory of a new inode object happens to hold; \<open>console\<close>: the bytes
  written to the data register of the UART for user programs, oldest first.
\<close>

record 'f fs_state = task_state +
  bhs :: "u64 \<rightharpoonup> buffer_head"
  inodes :: "u64 \<rightharpoonup> inode"
  sbs :: "u64 \<rightharpoonup> super_block"
  bdevs :: "u64 \<rightharpoonup> block_device"
  sbis :: "u64 \<rightharpoonup> minix_sb_info"
  files :: "u64 \<rightharpoonup> file_struct"
  file_tbl :: u64
  bh_head :: u64
  root_bdev :: u64
  root_inode :: u64
  stale_inode :: "u64 \<Rightarrow> inode"
  flash :: 'f
  console :: "u8 list"

definition BLOCK_SZ :: u64 where "BLOCK_SZ = 1024"
definition BH_Uptodate :: u64 where "BH_Uptodate = 0"
definition BH_Dirty :: u64 where "BH_Dirty = 1"
definition CMD_WR :: u8 where "CMD_WR = 0x10"
definition CMD_WR_END :: u8 where "CMD_WR_END = 0xff"
definition CMD_STATE_REG :: u64 where "CMD_STATE_REG = 0x70"
definition SR_7 :: u8 where "SR_7 = 0x80"
definition NR_FILE :: nat where "NR_FILE = 64"
definition sizeof_buffer_head :: u32 where "sizeof_buffer_head = 48"
definition lru_off :: u64 where "lru_off = 16"

text \<open>The static description of the flash disk.\<close>

record gendisk =
  sector_sz :: u64
  nr_sector :: u64

definition pflash :: gendisk where
  "pflash = \<lparr>sector_sz = BLOCK_SZ, nr_sector = PFLASH1_SIZE div BLOCK_SZ\<rparr>"

section \<open>Flash driver\<close>

definition pflash1_addr :: "u64 \<Rightarrow> u64" where
  "pflash1_addr m = PFLASH1_BASE + m"

fun flash_to_mem :: "'f flash_bus \<Rightarrow> nat \<Rightarrow> u64 \<Rightarrow> u64 \<Rightarrow> memory \<times> 'f \<Rightarrow> memory \<times> 'f" where
  "flash_to_mem fl 0 dst src (m, d) = (m, d)"
| "flash_to_mem fl (Suc n) dst src (m, d) =
     (let (v, d) = rd8 fl src d in flash_to_mem fl n (dst + 1) (src + 1) (m(dst := v), d))"

definition pflash_read :: "'f flash_bus \<Rightarrow> u64 \<Rightarrow> u64 \<Rightarrow> ('f, 'a) fs_state_scheme \<Rightarrow> ('f, 'a) fs_state_scheme" where
  "pflash_read fl sect dat s =
     (let (m, d) = flash_to_mem fl (unat BLOCK_SZ) dat (PFLASH1_BASE + sect * BLOCK_SZ) (mem s, flash s)
      in s\<lparr>mem := m, flash := d\<rparr>)"

definition pflash_write_byte :: "'f flash_bus \<Rightarrow> u64 \<Rightarrow> u8 \<Rightarrow> 'f \<Rightarrow> 'f" where
  "pflash_write_byte fl addr val d = wr8 fl (pflash1_addr addr) val (wr8 fl (pflash1_addr addr) CMD_WR d)"

fun pflash_write_loop :: "'f flash_bus \<Rightarrow> nat \<Rightarrow> u64 \<Rightarrow> u64 \<Rightarrow> memory \<Rightarrow> 'f \<Rightarrow> 'f" where
  "pflash_write_loop fl 0 base dat m d = d"
| "pflash_write_loop fl (Suc n) base dat m d =
     pflash_write_loop fl n (base + 1) (dat + 1) m (pflash_write_byte fl base (m dat) d)"

text \<open>The wait for the status register need not end: \<open>fuel\<close> bounds the number of polls.\<close>

fun pflash_wait :: "nat \<Rightarrow> 'f flash_bus \<Rightarrow> 'f \<Rightarrow> 'f res" where
  "pflash_wait 0 fl d = Inl Out_of_fuel"
| "pflash_wait (Suc fuel) fl d =
     (let (v, d) = rd8 fl (pflash1_addr CMD_STATE_REG) d in
      if v AND SR_7 = 0 then pflash_wait fuel fl d else Inr d)"

definition poll_fuel :: nat where "poll_fuel = 2 ^ 32"

definition pflash_write :: "'f flash_bus \<Rightarrow> u64 \<Rightarrow> u64 \<Rightarrow> ('f, 'a) fs_state_scheme \<Rightarrow> ('f, 'a) fs_state_scheme res" where
  "pflash_write fl sect dat s =
     (let d = pflash_write_loop fl (unat BLOCK_SZ) (sect * BLOCK_SZ) dat (mem s) (flash s)
      in bindR (pflash_wait poll_fuel fl d) (\<lambda>d.
         Inr (s\<lparr>flash := wr8 fl (pflash1_addr 0) CMD_WR_END d\<rparr>)))"

section \<open>Buffers\<close>

definition bread :: "'f flash_bus \<Rightarrow> u64 \<Rightarrow> u64 \<Rightarrow> ('f, 'a) fs_state_scheme \<Rightarrow> (u64 \<times> ('f, 'a) fs_state_scheme) res" where
  "bread fl bd blk s =
     bindR (kmalloc sizeof_buffer_head s) (\<lambda>(bh, s).
     bindR (kmalloc (ucast BLOCK_SZ) s) (\<lambda>(dat, s).
     bindR (deref (bdevs s) bd) (\<lambda>_.
     let s = pflash_read fl blk dat s;
         s = s\<lparr>bhs := (bhs s)(bh \<mapsto> \<lparr>b_state = BH_Uptodate, b_data = dat, b_bd = bd, blk_no = blk\<rparr>),
               lists := make_node (bh + lru_off) (lists s)\<rparr>
     in bindR (list_add (bh + lru_off) (bh_head s) (lists s)) (\<lambda>h. Inr (bh, s\<lparr>lists := h\<rparr>)))))"

definition get_blk_body :: "u64 \<Rightarrow> u64 \<Rightarrow> u64 \<Rightarrow> ('f, 'a) fs_state_scheme \<Rightarrow> (u64 option \<times> ('f, 'a) fs_state_scheme) res" where
  "get_blk_body bd blk pos s =
     (let bh = pos - lru_off in
      bindR (deref (bhs s) bh) (\<lambda>b.
      Inr (if blk_no b = blk \<and> b_bd b = bd then Some bh else None, s)))"

definition get_blk :: "'f flash_bus \<Rightarrow> u64 \<Rightarrow> u64 \<Rightarrow> ('f, 'a) fs_state_scheme \<Rightarrow> (u64 \<times> ('f, 'a) fs_state_scheme) res" where
  "get_blk fl bd blk s =
     bindR (list_for_each lists (bh_head s) (get_blk_body bd blk) s) (\<lambda>(r, s).
     case r of Some bh \<Rightarrow> Inr (bh, s) | None \<Rightarrow> bread fl bd blk s)"

definition mark_buffer_dirty :: "u64 \<Rightarrow> ('f, 'a) fs_state_scheme \<Rightarrow> ('f, 'a) fs_state_scheme res" where
  "mark_buffer_dirty bh s =
     bindR (deref (bhs s) bh) (\<lambda>b. Inr (s\<lparr>bhs := (bhs s)(bh \<mapsto> b\<lparr>b_state := BH_Dirty\<rparr>)\<rparr>))"

definition brelse :: "'f flash_bus \<Rightarrow> u64 \<Rightarrow> ('f, 'a) fs_state_scheme \<Rightarrow> ('f, 'a) fs_state_scheme res" where
  "brelse fl bh s =
     bindR (deref (bhs s) bh) (\<lambda>b.
     bindR (if b_state b = BH_Dirty
            then bindR (deref (bdevs s) (b_bd b)) (\<lambda>_. pflash_write fl (blk_no b) (b_data b) s)
            else Inr s) (\<lambda>s.
     bindR (kfree (b_data b) s) (\<lambda>s.
     bindR (list_del (bh + lru_off) (lists s)) (\<lambda>h.
     bindR (kfree bh (s\<lparr>lists := h\<rparr>)) (\<lambda>s.
     Inr (s\<lparr>bhs := (bhs s)(bh := None), lists := drop_node (bh + lru_off) (lists s)\<rparr>))))))"

section \<open>Bytes of memory\<close>

definition load16 :: "memory \<Rightarrow> u64 \<Rightarrow> u16" where
  "load16 m a = ucast (m a) OR push_bit 8 (ucast (m (a + 1)))"

definition load32 :: "memory \<Rightarrow> u64 \<Rightarrow> u32" where
  "load32 m a = ucast (m a) OR push_bit 8 (ucast (m (a + 1))) OR push_bit 16 (ucast (m (a + 2)))
     OR push_bit 24 (ucast (m (a + 3)))"

definition store16 :: "memory \<Rightarrow> u64 \<Rightarrow> u16 \<Rightarrow> memory" where
  "store16 m a v = m(a := ucast v, a + 1 := ucast (drop_bit 8 v))"

definition store32 :: "memory \<Rightarrow> u64 \<Rightarrow> u32 \<Rightarrow> memory" where
  "store32 m a v = m(a := ucast v, a + 1 := ucast (drop_bit 8 v), a + 2 := ucast (drop_bit 16 v),
     a + 3 := ucast (drop_bit 24 v))"

text \<open>
  Buffers and strings that a system call names are user addresses: they are translated by the
  table of the current task, and an unmapped one is a fault. Kernel addresses are direct, as in the
  code, which does not check who gave them; a byte written there is a byte of memory, and the records of
  the typed heaps, which lie in the same memory in the code, do not change.
\<close>

definition byte_addr :: "u64 \<Rightarrow> 'a task_state_scheme \<Rightarrow> u64 res" where
  "byte_addr a s = (if KERNEL_VA_START \<le> a then Inr a else user_addr (mem s) (ttbr0_el1 s) a)"

definition get_byte :: "u64 \<Rightarrow> 'a task_state_scheme \<Rightarrow> u8 res" where
  "get_byte a s = bindR (byte_addr a s) (\<lambda>x. Inr (mem s x))"

definition put_byte :: "u64 \<Rightarrow> u8 \<Rightarrow> 'a task_state_scheme \<Rightarrow> 'a task_state_scheme res" where
  "put_byte a v s = bindR (byte_addr a s) (\<lambda>x. Inr (s\<lparr>mem := (mem s)(x := v)\<rparr>))"

end
