(* ===== verification/Scheduler.thy ===== *)
theory Scheduler
  imports Task
begin

text \<open>
  The scheduler of \<^verbatim>\<open>kernel/task.c\<close> under a sequence of timer interrupts: the invariant of the task
  queue and of the preemption counts, what one interrupt does to it, round-robin fairness, and
  what a task that cannot run does to the queue.
\<close>

section \<open>The queue as a ring\<close>

lemma dlist_successor:
  assumes "dlist h l xs" "i \<le> length xs"
  shows "nxt h ((l # xs) ! i) = Some ((l # xs) ! (Suc i mod Suc (length xs)))"
proof (cases i)
  case 0
  then show ?thesis using dlist_ends(2) [OF assms(1)] by (cases xs) auto
next
  case (Suc j)
  then have j: "j < length xs" using assms(2) by simp
  have xs: "xs = take j xs @ xs ! j # drop i xs" using j Suc by (simp add: id_take_nth_drop)
  then have "nxt h (xs ! j) = Some (hd (drop i xs @ [l]))"
    using dlist_neighbours [of h l "take j xs" "xs ! j" "drop i xs"] assms(1) by simp
  moreover have "hd (drop i xs @ [l]) = (l # xs) ! (Suc i mod Suc (length xs))"
    using assms(2) by (cases "i = length xs") (auto simp: hd_drop_conv_nth hd_append)
  ultimately show ?thesis using Suc by simp
qed

section \<open>The scheduler's invariant\<close>

text \<open>The task whose kernel stack an exception taken now would use.\<close>

definition running :: "'a task_state_scheme \<Rightarrow> u64" where
  "running s = (ctx_sp (cregs s) - FRAME_SZ) AND NOT (STACK_SZ - 1)"

text \<open>
  A task that is not running and may be switched to either never ran, or was switched out in
  \<^verbatim>\<open>scheduler_tick\<close> with its preemption count raised once.
\<close>

definition fresh_task :: "u64 \<Rightarrow> u64 \<Rightarrow> task_struct \<Rightarrow> bool" where
  "fresh_task fork p t \<longleftrightarrow> ctx_pc (cpu_context t) = fork \<and> preempt_count t = 0 \<and>
     (ctx_sp (cpu_context t) - (if x19 (cpu_context t) \<noteq> 0 then FRAME_SZ else 0)) AND NOT (STACK_SZ - 1) = p"

definition parked_task :: "u64 \<Rightarrow> u64 \<Rightarrow> resume_point option \<Rightarrow> task_struct \<Rightarrow> bool" where
  "parked_task ret p r t \<longleftrightarrow> ctx_pc (cpu_context t) = ret \<and> preempt_count t = 1 \<and>
     ctx_sp (cpu_context t) AND NOT (STACK_SZ - 1) = p \<and> r = Some In_scheduler_tick"

definition sched_inv :: "'a task_state_scheme \<Rightarrow> u64 list \<Rightarrow> bool" where
  "sched_inv s ps \<longleftrightarrow>
     (\<exists>xs. ps = init_task s # xs \<and> dlist (lists s) (init_task s + list_off) (map (\<lambda>p. p + list_off) xs)) \<and>
     NULL \<notin> set ps \<and> switch_ret s \<noteq> ret_from_fork s \<and> running s \<in> set ps \<and>
     (\<forall>p \<in> set ps. \<exists>t. tasks s p = Some t \<and> (mm t = NULL \<or> mms s (mm t) \<noteq> None) \<and>
        (if p = running s then preempt_count t = 0
         else state t \<noteq> TASK_RUNNING \<or> fresh_task (ret_from_fork s) p t \<or> parked_task (switch_ret s) p (frames s p) t))"

lemma sched_inv_task:
  assumes "sched_inv s ps" "p \<in> set ps"
  obtains t where "tasks s p = Some t" "mm t = NULL \<or> mms s (mm t) \<noteq> None"
    "p = running s \<Longrightarrow> preempt_count t = 0"
    "p \<noteq> running s \<Longrightarrow> state t = TASK_RUNNING \<Longrightarrow> fresh_task (ret_from_fork s) p t \<or> parked_task (switch_ret s) p (frames s p) t"
  using assms unfolding sched_inv_def by (metis (full_types))

lemma sched_inv_successor:
  assumes "sched_inv s ps" "i < length ps"
  shows "nxt (lists s) (ps ! i + list_off) = Some (ps ! (Suc i mod length ps) + list_off)"
proof -
  obtain xs where xs: "ps = init_task s # xs" "dlist (lists s) (init_task s + list_off) (map (\<lambda>p. p + list_off) xs)"
    using assms(1) by (auto simp: sched_inv_def)
  have m: "((init_task s + list_off) # map (\<lambda>p. p + list_off) xs) = map (\<lambda>p. p + list_off) ps" using xs(1) by simp
  have "i \<le> length (map (\<lambda>p. p + list_off) xs)" using assms(2) xs(1) by simp
  note d = dlist_successor [OF xs(2) this, unfolded m]
  have len: "Suc (length (map (\<lambda>p. p + list_off) xs)) = length ps" "Suc i mod length ps < length ps" using xs(1) by simp_all
  show ?thesis using d [unfolded len(1)] len(2) assms(2) by (simp only: nth_map)
qed

lemma sched_inv_distinct: "sched_inv s ps \<Longrightarrow> distinct ps"
proof -
  assume "sched_inv s ps"
  then obtain xs where xs: "ps = init_task s # xs" "dlist (lists s) (init_task s + list_off) (map (\<lambda>p. p + list_off) xs)"
    by (auto simp: sched_inv_def)
  then show ?thesis using dlist_distinct [OF xs(2)] by (auto simp: distinct_map)
qed

section \<open>One timer interrupt\<close>

lemma kernel_entry_fields [simp]:
  "tasks (kernel_entry s) = tasks s" "lists (kernel_entry s) = lists s" "get_current (kernel_entry s) = running s"
  by (simp_all add: kernel_entry_def get_current_def running_def)

lemma select_next_task_eq:
  assumes "tasks s (get_current s) = Some t" "nxt (lists s) (get_current s + list_off) = Some (q + list_off)"
  shows "select_next_task s = Inr (s\<lparr>next_task := q\<rparr>)"
proof -
  have "s\<lparr>tasks := (tasks s)(get_current s \<mapsto> t)\<rparr> = s"
    using assms(1) by (simp add: fun_upd_idem)
  then show ?thesis
    using assms by (simp add: select_next_task_def preempt_disable_def preempt_enable_def with_task_def get_current_def fun_upd_idem)
qed

lemma task_upd_idem: "tasks s p = Some t \<Longrightarrow> s\<lparr>tasks := (tasks s)(p \<mapsto> t)\<rparr> = s"
  by (simp add: fun_upd_idem)

lemma switch_to_stay:
  assumes "tasks s (get_current s) = Some t" "q = get_current s \<or> (\<exists>u. tasks s q = Some u \<and> state u \<noteq> TASK_RUNNING)"
  shows "switch_to r q s = Inr (Some r, s)"
proof -
  have c: "get_current (s\<lparr>tasks := m\<rparr>) = get_current s" for m by (simp add: get_current_def)
  show ?thesis
    using assms(2) assms(1) task_upd_idem [OF assms(1)]
    by (auto simp: switch_to_def preempt_disable_def preempt_enable_def with_task_def c Let_def)
qed

definition idle_tick :: "u64 \<Rightarrow> 'a task_state_scheme \<Rightarrow> 'a task_state_scheme" where
  "idle_tick q s = disable_irq (enable_irq (s\<lparr>next_task := q\<rparr>))"

lemma tick_stay:
  assumes "sched_inv s ps" "i < length ps" "ps ! i = running s"
    and "q = ps ! (Suc i mod length ps)" "q = running s \<or> (\<exists>u. tasks s q = Some u \<and> state u \<noteq> TASK_RUNNING)"
  shows "tick s = Inr (idle_tick q s)"
proof -
  let ?s = "kernel_entry s"
  obtain t where t: "tasks s (running s) = Some t" "preempt_count t = 0"
    using assms(1) sched_inv_task [of s ps "running s"] by (auto simp: sched_inv_def)
  have n: "nxt (lists ?s) (get_current ?s + list_off) = Some (q + list_off)"
    using sched_inv_successor [OF assms(1,2)] assms(3,4) by simp
  let ?e = "enable_irq (?s\<lparr>next_task := q\<rparr>)"
  have e: "get_current ?e = running s" "tasks ?e = tasks s" "next_task ?e = q"
    by (simp_all add: enable_irq_def msr_DAIFClr_def get_current_def kernel_entry_def running_def)
  have "switch_to In_scheduler_tick q ?e = Inr (Some In_scheduler_tick, ?e)"
    by (rule switch_to_stay) (use t assms(5) e in auto)
  then have "scheduler_tick ?s = Inr (Some In_scheduler_tick, disable_irq ?e)"
    using t select_next_task_eq [of ?s t q] n e(3) by (simp add: scheduler_tick_def after_switch_def)
  then show ?thesis
    by (simp add: tick_def leave_def idle_tick_def kernel_exit_def disable_irq_def enable_irq_def msr_DAIFClr_def
        msr_DAIFSet_def kernel_entry_def)
qed


lemma mm_at_ok: "m = NULL \<or> mms s m \<noteq> None \<Longrightarrow> \<exists>v. mm_at m s = Inr v"
  by (auto simp: mm_at_def)

lemma switch_mm_fields [simp]:
  "tasks (switch_mm v s) = tasks s" "mms (switch_mm v s) = mms s" "lists (switch_mm v s) = lists s"
  "init_task (switch_mm v s) = init_task s" "next_task (switch_mm v s) = next_task s" "cregs (switch_mm v s) = cregs s"
  "frames (switch_mm v s) = frames s" "ret_from_fork (switch_mm v s) = ret_from_fork s" "switch_ret (switch_mm v s) = switch_ret s"
  "get_current (switch_mm v s) = get_current s"
  by (simp_all add: switch_mm_def get_current_def split: option.splits)

text \<open>The state of a switch from \<open>p\<close> to \<open>q\<close>, right after \<^verbatim>\<open>cpu_switch_to\<close>.\<close>

definition switched :: "resume_point \<Rightarrow> u64 \<Rightarrow> task_struct \<Rightarrow> task_struct \<Rightarrow> mm_struct option \<Rightarrow> 'a task_state_scheme \<Rightarrow> 'a task_state_scheme" where
  "switched r p t u v s = (switch_mm v s)\<lparr>
     frames := (frames s)(p \<mapsto> r),
     tasks := (tasks s)(p \<mapsto> t\<lparr>preempt_count := preempt_count t + 1, cpu_context := (cregs s)\<lparr>ctx_pc := switch_ret s\<rparr>\<rparr>),
     cregs := cpu_context u\<rparr>"

lemma switch_to_go:
  assumes "tasks s (get_current s) = Some t" "q \<noteq> get_current s" "q \<noteq> NULL" "tasks s q = Some u" "state u = TASK_RUNNING"
    and "mm_at (mm u) s = Inr v"
  shows "switch_to r q s = (let s' = switched r (get_current s) t u v s in
    if ctx_pc (cpu_context u) = ret_from_fork s then Inr (None, s')
    else bindR (preempt_enable s') (\<lambda>s. Inr (frames s (get_current s), s)))"
proof -
  let ?p = "get_current s"
  have c: "get_current (s\<lparr>tasks := m\<rparr>) = ?p" for m by (simp add: get_current_def)
  have v: "mm_at (mm u) (s\<lparr>tasks := m\<rparr>) = Inr v" for m using assms(6) by (simp add: mm_at_def cong: if_cong split: if_splits)
  show ?thesis
    using assms(1-5) v c
    by (simp add: switch_to_def preempt_disable_def with_task_def Let_def cpu_switch_to_def switched_def)
      (simp add: switch_mm_def split: option.splits)
qed

text \<open>A step that moves the processor from \<open>p\<close> to \<open>q\<close> and parks \<open>p\<close> keeps the invariant.\<close>

lemma sched_inv_moved:
  assumes I: "sched_inv s ps" and q: "q \<in> set ps" "q \<noteq> running s"
    and same: "lists s' = lists s" "init_task s' = init_task s" "mms s' = mms s"
      "ret_from_fork s' = ret_from_fork s" "switch_ret s' = switch_ret s"
    and go: "running s' = q" "frames s' = (frames s)(running s \<mapsto> w)"
      "tasks s' = (tasks s)(running s \<mapsto> t', q \<mapsto> u')"
    and p': "state t' \<noteq> TASK_RUNNING \<or> parked_task (switch_ret s) (running s) (Some w) t'" "mm t' = NULL \<or> mms s (mm t') \<noteq> None"
    and q': "preempt_count u' = 0" "mm u' = NULL \<or> mms s (mm u') \<noteq> None"
  shows "sched_inv s' ps"
proof -
  have "\<exists>t. tasks s' r = Some t \<and> (mm t = NULL \<or> mms s' (mm t) \<noteq> None) \<and>
      (if r = running s' then preempt_count t = 0
       else state t \<noteq> TASK_RUNNING \<or> fresh_task (ret_from_fork s') r t \<or> parked_task (switch_ret s') r (frames s' r) t)"
    if r: "r \<in> set ps" for r
  proof -
    consider "r = q" | "r = running s" | "r \<noteq> q" "r \<noteq> running s" by blast
    then show ?thesis
    proof cases
      case 3
      obtain t where "tasks s r = Some t" "mm t = NULL \<or> mms s (mm t) \<noteq> None"
          "state t \<noteq> TASK_RUNNING \<or> fresh_task (ret_from_fork s) r t \<or> parked_task (switch_ret s) r (frames s r) t"
        using sched_inv_task [OF I r] 3 by metis
      then show ?thesis using 3 by (simp add: same go)
    qed (use q q' p' in \<open>simp_all add: same go\<close>)
  qed
  then show ?thesis using I q by (auto simp: sched_inv_def same go(1))
qed

definition same_states :: "u64 list \<Rightarrow> 'a task_state_scheme \<Rightarrow> 'a task_state_scheme \<Rightarrow> bool" where
  "same_states ps s s' \<longleftrightarrow> (\<forall>p \<in> set ps. map_option state (tasks s' p) = map_option state (tasks s p))"

text \<open>
  A switch in the kernel from the task that runs in \<open>s\<close>, after the entry of an exception: whatever the
  exception frame and the registers hold, the way out leads to \<open>q\<close> and the invariant holds there.
\<close>

lemma switch_leaves:
  assumes I: "sched_inv s ps" and t: "tasks s (running s) = Some t" "r = In_scheduler_tick \<or> state t \<noteq> TASK_RUNNING"
    and q: "q \<in> set ps" "q \<noteq> running s" "tasks s q = Some u" "state u = TASK_RUNNING"
    and e: "get_current e = running s" "tasks e = tasks s" "mms e = mms s" "frames e = frames s" "lists e = lists s"
      "init_task e = init_task s" "ret_from_fork e = ret_from_fork s" "switch_ret e = switch_ret s"
  shows "\<exists>x s1. switch_to r q e = Inr (x, s1) \<and> x \<noteq> Some In_schedule \<and> sched_inv (leave (after_switch (x, s1))) ps \<and>
    running (leave (after_switch (x, s1))) = q \<and> same_states ps s (leave (after_switch (x, s1)))"
proof -
  let ?p = "running s"
  have p: "?p \<in> set ps" using I by (simp add: sched_inv_def)
  have tt: "mm t = NULL \<or> mms s (mm t) \<noteq> None" "preempt_count t = 0"
    using sched_inv_task [OF I p] t(1) by (metis option.inject)+
  have u: "mm u = NULL \<or> mms s (mm u) \<noteq> None" "fresh_task (ret_from_fork s) q u \<or> parked_task (switch_ret s) q (frames s q) u"
    using sched_inv_task [OF I q(1)] q(2-4) by (metis option.inject)+
  have q0: "q \<noteq> NULL" "switch_ret s \<noteq> ret_from_fork s" using I q(1) by (auto simp: sched_inv_def)
  obtain v where v: "mm_at (mm u) e = Inr v" using mm_at_ok [of "mm u" e] u(1) e(3) by auto
  let ?w = "switched r ?p t u v e"
  let ?t = "t\<lparr>preempt_count := preempt_count t + 1, cpu_context := (cregs e)\<lparr>ctx_pc := switch_ret s\<rparr>\<rparr>"
  have w: "tasks ?w = (tasks s)(?p \<mapsto> ?t)" "mms ?w = mms s" "frames ?w = (frames s)(?p \<mapsto> r)"
      "lists ?w = lists s" "init_task ?w = init_task s" "ret_from_fork ?w = ret_from_fork s" "switch_ret ?w = switch_ret s"
      "cregs ?w = cpu_context u"
    by (simp_all add: switched_def e)
  have park: "state ?t \<noteq> TASK_RUNNING \<or> parked_task (switch_ret s) ?p (Some r) ?t"
    using t(2) tt(2) e(1) by (auto simp: parked_task_def get_current_def)
  have sw: "switch_to r q e = (if ctx_pc (cpu_context u) = ret_from_fork s then Inr (None, ?w)
      else bindR (preempt_enable ?w) (\<lambda>s. Inr (frames s (get_current s), s)))"
    using switch_to_go [of e t q u v r] t(1) q q0 v e by (simp add: Let_def)
  show ?thesis
  proof (cases "ctx_pc (cpu_context u) = ret_from_fork s")
    case True
    then have f: "fresh_task (ret_from_fork s) q u" using u(2) q0 by (auto simp: parked_task_def)
    let ?s' = "run_from_fork ?w"
    have "running ?s' = q" using f w(8) by (auto simp: run_from_fork_def kernel_exit_def running_def fresh_task_def)
    moreover have "tasks ?s' = (tasks s)(?p \<mapsto> ?t, q \<mapsto> u)" "frames ?s' = frames ?w" "mms ?s' = mms s"
        "lists ?s' = lists s" "init_task ?s' = init_task s" "ret_from_fork ?s' = ret_from_fork s" "switch_ret ?s' = switch_ret s"
      using w q(2,3) by (auto simp: run_from_fork_def kernel_exit_def fun_eq_iff)
    ultimately have "sched_inv ?s' ps \<and> running ?s' = q \<and> same_states ps s ?s'"
      using sched_inv_moved [OF I q(1,2), where s' = ?s' and w = r and t' = ?t and u' = u] park t(1) tt(1) f w(3) u(1) q(3)
      by (auto simp: fresh_task_def same_states_def)
    then show ?thesis using True sw by (simp add: after_switch_def leave_def)
  next
    case False
    then have f: "parked_task (switch_ret s) q (frames s q) u" using u(2) by (auto simp: fresh_task_def)
    have c: "get_current ?w = q" using f w(8) by (simp add: get_current_def parked_task_def)
    let ?u = "u\<lparr>preempt_count := preempt_count u - 1\<rparr>"
    let ?x = "?w\<lparr>tasks := (tasks ?w)(q \<mapsto> ?u)\<rparr>"
    let ?s' = "kernel_exit (disable_irq ?x)"
    have "preempt_enable ?w = Inr ?x" using c w(1) q(2,3) by (simp add: preempt_enable_def with_task_def)
    moreover have "frames ?x (get_current ?x) = Some In_scheduler_tick"
      using f c q(2) w(3) by (simp add: parked_task_def get_current_def)
    moreover have r: "running ?s' = q" using c by (simp add: kernel_exit_def running_def get_current_def disable_irq_def msr_DAIFSet_def)
    moreover have "sched_inv ?s' ps"
      by (rule sched_inv_moved [OF I q(1,2), where w = r and t' = ?t and u' = ?u])
        (use w park tt f u(1) r in \<open>auto simp: parked_task_def kernel_exit_def disable_irq_def msr_DAIFSet_def\<close>)
    moreover have "same_states ps s ?s'"
      using t(1) q(2,3) w(1) by (auto simp: same_states_def kernel_exit_def disable_irq_def msr_DAIFSet_def)
    ultimately show ?thesis using False sw by (simp add: after_switch_def leave_def)
  qed
qed

lemma tick_switch:
  assumes I: "sched_inv s ps" and i: "i < length ps" "ps ! i = running s"
    and q: "q = ps ! (Suc i mod length ps)" "q \<noteq> running s" "tasks s q = Some u" "state u = TASK_RUNNING"
  shows "\<exists>s'. tick s = Inr s' \<and> sched_inv s' ps \<and> running s' = q \<and> same_states ps s s'"
proof -
  let ?p = "running s" and ?e = "enable_irq ((kernel_entry s)\<lparr>next_task := q\<rparr>)"
  have "Suc i mod length ps < length ps" using i(1) by (intro mod_less_divisor) linarith
  then have qin: "q \<in> set ps" using q(1) by simp
  obtain t where t: "tasks s ?p = Some t" "preempt_count t = 0"
    using I sched_inv_task [of s ps ?p] by (auto simp: sched_inv_def)
  have n: "nxt (lists (kernel_entry s)) (get_current (kernel_entry s) + list_off) = Some (q + list_off)"
    using sched_inv_successor [OF I i(1)] i(2) q(1) by simp
  have "\<exists>x s1. switch_to In_scheduler_tick q ?e = Inr (x, s1) \<and> x \<noteq> Some In_schedule \<and> sched_inv (leave (after_switch (x, s1))) ps \<and>
      running (leave (after_switch (x, s1))) = q \<and> same_states ps s (leave (after_switch (x, s1)))"
    by (rule switch_leaves [OF I t(1) _ qin q(2-4)])
      (simp_all add: enable_irq_def msr_DAIFClr_def get_current_def kernel_entry_def running_def)
  moreover have "scheduler_tick (kernel_entry s) = bindR (switch_to In_scheduler_tick q ?e) (\<lambda>r. Inr (after_switch r))"
    using t select_next_task_eq [of "kernel_entry s" t q] n by (simp add: scheduler_tick_def enable_irq_def msr_DAIFClr_def)
  ultimately show ?thesis by (auto simp: tick_def)
qed

lemma idle_tick_fields:
  "sched_inv (idle_tick q s) ps = sched_inv s ps" "running (idle_tick q s) = running s" "tasks (idle_tick q s) = tasks s"
  by (simp_all add: idle_tick_def enable_irq_def disable_irq_def msr_DAIFClr_def msr_DAIFSet_def sched_inv_def running_def)

text \<open>Whatever the states of the tasks are, a timer interrupt returns and keeps the invariant.\<close>

lemma tick_keeps:
  assumes "sched_inv s ps"
  shows "\<exists>s'. tick s = Inr s' \<and> sched_inv s' ps \<and> same_states ps s s'"
proof -
  obtain i where i: "i < length ps" "ps ! i = running s" using assms by (auto simp: sched_inv_def in_set_conv_nth)
  define q where "q = ps ! (Suc i mod length ps)"
  have "Suc i mod length ps < length ps" using i(1) by (intro mod_less_divisor) linarith
  then obtain u where u: "tasks s q = Some u" using sched_inv_task [OF assms, of q] by (auto simp: q_def)
  show ?thesis
  proof (cases "q = running s \<or> state u \<noteq> TASK_RUNNING")
    case True
    then have "tick s = Inr (idle_tick q s)" using tick_stay [OF assms i q_def] u by blast
    then show ?thesis using assms by (simp add: idle_tick_fields same_states_def)
  next
    case False
    then show ?thesis using tick_switch [OF assms i q_def] u by blast
  qed
qed

section \<open>Sequences of timer interrupts\<close>

fun ticks :: "nat \<Rightarrow> 'a task_state_scheme \<Rightarrow> 'a task_state_scheme res" where
  "ticks 0 s = Inr s"
| "ticks (Suc k) s = bindR (tick s) (ticks k)"

definition all_running :: "u64 list \<Rightarrow> 'a task_state_scheme \<Rightarrow> bool" where
  "all_running ps s \<longleftrightarrow> (\<forall>p \<in> set ps. map_option state (tasks s p) = Some TASK_RUNNING)"

lemma all_running_same: "same_states ps s s' \<Longrightarrow> all_running ps s' = all_running ps s"
  by (simp add: all_running_def same_states_def)

lemma tick_round_robin:
  assumes "sched_inv s ps" "all_running ps s" "i < length ps" "running s = ps ! i"
  shows "\<exists>s'. tick s = Inr s' \<and> sched_inv s' ps \<and> running s' = ps ! (Suc i mod length ps) \<and> same_states ps s s'"
proof (cases "ps ! (Suc i mod length ps) = running s")
  case True
  then have "tick s = Inr (idle_tick (running s) s)" using tick_stay [OF assms(1,3)] assms(4) by simp
  then show ?thesis using assms(1) True by (simp add: idle_tick_fields same_states_def)
next
  case False
  have "Suc i mod length ps < length ps" using assms(3) by (intro mod_less_divisor) linarith
  then have "map_option state (tasks s (ps ! (Suc i mod length ps))) = Some TASK_RUNNING"
    using assms(2) by (simp add: all_running_def)
  then obtain u where "tasks s (ps ! (Suc i mod length ps)) = Some u" "state u = TASK_RUNNING" by auto
  then show ?thesis using tick_switch [OF assms(1,3) _ refl False] assms(4) by simp
qed

lemma ticks_round_robin:
  assumes "sched_inv s ps" "all_running ps s" "i < length ps" "running s = ps ! i"
  shows "\<exists>s'. ticks k s = Inr s' \<and> sched_inv s' ps \<and> running s' = ps ! ((i + k) mod length ps)"
  using assms
proof (induction k arbitrary: s i)
  case 0
  then show ?case by simp
next
  case (Suc k)
  obtain s1 where s1: "tick s = Inr s1" "sched_inv s1 ps" "running s1 = ps ! (Suc i mod length ps)" "same_states ps s s1"
    using tick_round_robin [OF Suc.prems] by blast
  have "Suc i mod length ps < length ps" using Suc.prems(3) by (intro mod_less_divisor) linarith
  then obtain s' where "ticks k s1 = Inr s'" "sched_inv s' ps" "running s' = ps ! ((Suc i mod length ps + k) mod length ps)"
    using Suc.IH [OF s1(2) _ _ s1(3)] Suc.prems(2) all_running_same [OF s1(4)] by blast
  then show ?case using s1(1) by (simp add: mod_add_left_eq)
qed

end
