(* ===== verification/Task_Life.thy ===== *)
theory Task_Life
  imports Scheduler
begin

text \<open>
  The life of a task in \<^verbatim>\<open>kernel/task.c\<close>: creation, scheduling, deletion and the count of the
  tasks, with the properties of the scheduler and concrete kernels that satisfy their
  hypotheses.
\<close>

section \<open>Addresses and frames\<close>

lemma aligned_stack:
  assumes "page_aligned p" "x \<le> 4095"
  shows "(p + x) AND NOT (STACK_SZ - 1) = p"
proof -
  have m: "STACK_SZ - 1 = mask 12" by (simp add: STACK_SZ_def mask_eq_exp_minus_1)
  have "take_bit 12 x = x"
    using assms(2) by (simp add: take_bit_eq_mod word_unat_eq_iff unat_mod_distrib word_le_nat_alt)
  then have x: "bit x n \<Longrightarrow> n < 12" for n by (metis bit_take_bit_iff)
  have p: "\<not> bit p n" if "n < 12" for n using page_aligned_bits [OF assms(1) that] .
  have "p AND x = 0" by (rule bit_word_eqI) (use x p in \<open>auto simp: bit_and_iff\<close>)
  then have o: "p + x = p OR x" by (simp add: disjunctive_add_eq_or)
  show ?thesis unfolding o m
    by (rule bit_word_eqI) (use x p in \<open>auto simp: bit_and_iff bit_or_iff bit_not_iff bit_mask_iff\<close>)
qed

lemma task_more_fields:
  fixes s s' :: "'a task_state_scheme"
  assumes "km_state.more s' = km_state.more s"
  shows "lists s' = lists s" "tasks s' = tasks s" "mms s' = mms s" "init_task s' = init_task s"
    and "next_task s' = next_task s" "cregs s' = cregs s" "frames s' = frames s" "ret_from_fork s' = ret_from_fork s"
    and "switch_ret s' = switch_ret s" "user_frames s' = user_frames s"
  using assms by (cases s; cases s'; simp)+

section \<open>Counting tasks\<close>

lemma count_body:
  "iter_body (\<lambda>_ (count, s). Inr (None :: unit option, (count + 1, s))) xs (c, s) = Inr (None, (c + int (length xs), s))"
  by (induction xs arbitrary: c) auto

lemma task_nums_ring:
  assumes "dlist (lists s) (init_task s + list_off) xs"
  shows "task_nums s = Inr (int (length xs) + 1)"
proof -
  have "list_for_each (lists \<circ> snd) (init_task s + list_off)
      (\<lambda>_ (count, s). Inr (None :: unit option, (count + 1, s))) (0 :: int, s) = Inr (None, (int (length xs), s))"
    by (subst list_for_each_iter [where xs = xs]) (use assms in \<open>auto simp: count_body\<close>)
  then show ?thesis by (simp add: task_nums_def)
qed

section \<open>A new task in the queue\<close>

text \<open>\<open>ring_pages\<close>: the pages of the tasks in the queue are in use, as far as they are pool pages.\<close>

definition ring_pages :: "'a task_state_scheme \<Rightarrow> u64 list \<Rightarrow> bool" where
  "ring_pages s ps \<longleftrightarrow> (\<forall>p \<in> set ps. p \<in> page_pool \<longrightarrow> p \<in> used_pages s)"

definition ring_list :: "'a task_state_scheme \<Rightarrow> u64 list \<Rightarrow> bool" where
  "ring_list s ps \<longleftrightarrow> (\<exists>xs. ps = init_task s # xs \<and>
     dlist (lists s) (init_task s + list_off) (map (\<lambda>p. p + list_off) xs))"

lemma task_add_ring:
  assumes "ring_list s ps" "p \<notin> set ps" "tasks s p = Some t"
    and "lists s = make_node (p + list_off) h"
  shows "\<exists>h'. task_add p s = Inr (s\<lparr>lists := h', tasks := (tasks s)(p \<mapsto> t\<lparr>state := TASK_RUNNING\<rparr>)\<rparr>) \<and>
    ring_list (s\<lparr>lists := h'\<rparr>) (ps @ [p])"
proof -
  obtain xs where xs: "ps = init_task s # xs" "dlist (lists s) (init_task s + list_off) (map (\<lambda>p. p + list_off) xs)"
    using assms(1) by (auto simp: ring_list_def)
  have p: "p + list_off \<notin> set ((init_task s + list_off) # map (\<lambda>p. p + list_off) xs)" using assms(2) xs(1) by auto
  have "node (lists s) (p + list_off)" by (simp add: assms(4) make_node_def node_def)
  from ll.add_tail_law [OF xs(2) this p] obtain h' where
    "list_add_tail (p + list_off) (init_task s + list_off) (lists s) = Inr h'"
    "dlist h' (init_task s + list_off) (map (\<lambda>p. p + list_off) xs @ [p + list_off])" by blast
  then show ?thesis using assms(3) xs(1) by (auto simp: task_add_def with_task_def ring_list_def)
qed

lemma ring_list_make_node:
  assumes "ring_list s ps" "p \<notin> set ps"
  shows "ring_list (s\<lparr>lists := make_node (p + list_off) (lists s)\<rparr>) ps"
proof -
  obtain xs where xs: "ps = init_task s # xs" "dlist (lists s) (init_task s + list_off) (map (\<lambda>p. p + list_off) xs)"
    using assms(1) by (auto simp: ring_list_def)
  have p: "p + list_off \<notin> set ((init_task s + list_off) # map (\<lambda>p. p + list_off) xs)" using assms(2) xs(1) by auto
  show ?thesis using dlist_make_node(1) [OF xs(2) p] xs(1) by (auto simp: ring_list_def)
qed

lemma sched_inv_ring: "sched_inv s ps \<Longrightarrow> ring_list s ps"
  by (auto simp: sched_inv_def ring_list_def)

lemma pool_task:
  assumes "p \<in> page_pool"
  shows "page_aligned p" "p \<noteq> NULL"
  using assms page_aligned_pool page_va_nonzero by (auto simp: page_pool_def)

definition new_kthread :: "u64 \<Rightarrow> u64 \<Rightarrow> u64 \<Rightarrow> task_struct" where
  "new_kthread fork main p = zero_task\<lparr>cpu_context :=
     zero_context\<lparr>x19 := main, ctx_sp := p + STACK_SZ, ctx_pc := fork\<rparr>,
     preempt_count := 0, canary := CANARY_MAGIC_NUM, state := TASK_RUNNING\<rparr>"

lemma kthread_create_run:
  assumes R: "ring_list s ps" "ring_pages s ps" and m: "mm_inv s" "used_pages s \<noteq> page_pool"
    and cur: "get_current s \<in> set ps" "tasks s (get_current s) = Some t"
  shows "\<exists>p s'. kthread_create main s = Inr s' \<and> p \<in> page_pool - used_pages s \<and> p \<notin> set ps \<and>
    ring_list s' (ps @ [p]) \<and> mm_inv s' \<and> used_pages s' = insert p (used_pages s) \<and>
    tasks s' = (tasks s)(p \<mapsto> new_kthread (ret_from_fork s) main p) \<and> mms s' = mms s \<and> frames s' = frames s \<and>
    init_task s' = init_task s \<and> cregs s' = cregs s \<and> ret_from_fork s' = ret_from_fork s \<and> switch_ret s' = switch_ret s"
proof -
  let ?c = "get_current s"
  let ?s1 = "s\<lparr>tasks := (tasks s)(?c \<mapsto> t\<lparr>preempt_count := preempt_count t + 1\<rparr>)\<rparr>"
  have d: "preempt_disable s = Inr ?s1" using cur(2) by (simp add: preempt_disable_def with_task_def)
  have m1: "mm_inv ?s1" "used_pages ?s1 \<noteq> page_pool" "used_pages ?s1 = used_pages s"
    using m by (simp_all add: mm_inv_def used_pages_def)
  obtain p s2 where g: "get_free_page GFP_KERNEL ?s1 = Inr (p, s2)" "mm_inv s2" "p \<in> page_pool - used_pages s"
      "used_pages s2 = insert p (used_pages s)"
    using pg.get_law [OF m1(1,2)] m1(3) by auto
  note mf = task_more_fields [OF get_free_page_more [OF g(1)]]
  have pn: "p \<notin> set ps" using g(3) R(2) by (auto simp: ring_pages_def)
  let ?t = "zero_task\<lparr>cpu_context := zero_context\<lparr>x19 := main, ctx_sp := p + STACK_SZ, ctx_pc := ret_from_fork s\<rparr>,
     preempt_count := 0, canary := CANARY_MAGIC_NUM\<rparr>"
  let ?s3 = "s2\<lparr>tasks := (tasks s2)(p \<mapsto> ?t), lists := make_node (p + list_off) (lists s2)\<rparr>"
  have r2: "ring_list s2 ps" using R(1) mf by (simp add: ring_list_def)
  then have r3: "ring_list ?s3 ps" using ring_list_make_node [OF r2 pn] by (simp add: ring_list_def)
  obtain h' where a: "task_add p ?s3 = Inr (?s3\<lparr>lists := h', tasks := (tasks ?s3)(p \<mapsto> ?t\<lparr>state := TASK_RUNNING\<rparr>)\<rparr>)"
      "ring_list (?s3\<lparr>lists := h'\<rparr>) (ps @ [p])"
    using task_add_ring [OF r3 pn, of ?t "lists s2"] by auto
  let ?s4 = "?s3\<lparr>lists := h', tasks := (tasks ?s3)(p \<mapsto> ?t\<lparr>state := TASK_RUNNING\<rparr>)\<rparr>"
  have c4: "get_current ?s4 = ?c" using mf by (simp add: get_current_def)
  have ne: "?c \<noteq> p" using cur(1) pn by auto
  let ?s5 = "?s4\<lparr>tasks := (tasks ?s4)(?c \<mapsto> t)\<rparr>"
  have "preempt_enable ?s4 = Inr ?s5"
    using c4 ne mf by (simp add: preempt_enable_def with_task_def)
  then have "kthread_create main s = Inr ?s5"
    using d g(1) a(1) mf by (simp add: kthread_create_def Let_def)
  moreover have "tasks ?s5 = (tasks s)(p \<mapsto> new_kthread (ret_from_fork s) main p)"
    using ne cur(2) mf by (auto simp: new_kthread_def fun_eq_iff)
  moreover have "ring_list ?s5 (ps @ [p])" using a(2) by (simp add: ring_list_def)
  moreover have "mm_inv ?s5" "used_pages ?s5 = insert p (used_pages s)"
    using g(2,4) by (simp_all add: mm_inv_def used_pages_def)
  ultimately show ?thesis using g(3) pn mf by (intro exI [of _ p] exI [of _ ?s5]) simp
qed

lemma sched_inv_new:
  assumes I: "sched_inv s ps" and p: "p \<notin> set ps" "p \<noteq> NULL"
    and R: "ring_list s' (ps @ [p])" and T: "tasks s' = (tasks s)(p \<mapsto> t)" "fresh_task (ret_from_fork s) p t" "mm t = NULL \<or> mms s' (mm t) \<noteq> None"
    and same: "\<forall>m. mms s m \<noteq> None \<longrightarrow> mms s' m \<noteq> None" "frames s' = frames s" "init_task s' = init_task s" "cregs s' = cregs s"
      "ret_from_fork s' = ret_from_fork s" "switch_ret s' = switch_ret s"
  shows "sched_inv s' (ps @ [p])"
proof -
  have r: "running s' = running s" by (simp add: running_def same)
  have "\<exists>t. tasks s' q = Some t \<and> (mm t = NULL \<or> mms s' (mm t) \<noteq> None) \<and>
      (if q = running s' then preempt_count t = 0
       else state t \<noteq> TASK_RUNNING \<or> fresh_task (ret_from_fork s') q t \<or> parked_task (switch_ret s') q (frames s' q) t)"
    if q: "q \<in> set ps" for q
    using sched_inv_task [OF I q] p(1) q same T(1) r by (metis fun_upd_other)
  moreover have "p \<noteq> running s" using I p(1) by (auto simp: sched_inv_def)
  ultimately show ?thesis
    using I R T p(2) by (auto simp: sched_inv_def ring_list_def r same)
qed

lemma kthread_create_ok:
  assumes "sched_inv s ps" "ring_pages s ps" "mm_inv s" "used_pages s \<noteq> page_pool"
    and "get_current s = running s" "main \<noteq> 0"
  shows "\<exists>p s'. kthread_create main s = Inr s' \<and> p \<in> page_pool - used_pages s \<and> p \<notin> set ps \<and>
    sched_inv s' (ps @ [p]) \<and> ring_pages s' (ps @ [p]) \<and> mm_inv s' \<and> used_pages s' = insert p (used_pages s) \<and>
    tasks s' = (tasks s)(p \<mapsto> new_kthread (ret_from_fork s) main p) \<and> mms s' = mms s \<and>
    init_task s' = init_task s \<and> cregs s' = cregs s \<and> task_nums s' = Inr (int (length ps) + 1)"
proof -
  have c: "get_current s \<in> set ps" using assms(1,5) by (simp add: sched_inv_def)
  obtain t where t: "tasks s (get_current s) = Some t" using sched_inv_task [OF assms(1) c] by metis
  obtain p s' where r: "kthread_create main s = Inr s'" "p \<in> page_pool - used_pages s" "p \<notin> set ps"
      "ring_list s' (ps @ [p])" "mm_inv s'" "used_pages s' = insert p (used_pages s)"
      "tasks s' = (tasks s)(p \<mapsto> new_kthread (ret_from_fork s) main p)" "mms s' = mms s" "frames s' = frames s"
      "init_task s' = init_task s" "cregs s' = cregs s" "ret_from_fork s' = ret_from_fork s" "switch_ret s' = switch_ret s"
    using kthread_create_run [OF sched_inv_ring [OF assms(1)] assms(2-4) c t, of main] by blast
  have p: "page_aligned p" "p \<noteq> NULL" using pool_task r(2) by auto
  have e: "p + STACK_SZ - FRAME_SZ = p + 3824" by (simp add: STACK_SZ_def FRAME_SZ_def)
  have "(p + STACK_SZ - FRAME_SZ) AND NOT (STACK_SZ - 1) = p" unfolding e by (rule aligned_stack [OF p(1)]) simp
  then have "fresh_task (ret_from_fork s) p (new_kthread (ret_from_fork s) main p)"
    using assms(6) by (simp add: fresh_task_def new_kthread_def)
  moreover have "mm (new_kthread (ret_from_fork s) main p) = NULL" by (simp add: new_kthread_def zero_task_def)
  ultimately have I: "sched_inv s' (ps @ [p])"
    using sched_inv_new [OF assms(1) r(3) p(2) r(4,7)] r(8-13) by simp
  obtain xs where xs: "ps @ [p] = init_task s' # xs" "dlist (lists s') (init_task s' + list_off) (map (\<lambda>p. p + list_off) xs)"
    using r(4) by (auto simp: ring_list_def)
  have "length ps = length xs" using arg_cong [OF xs(1), of length] by simp
  then have "task_nums s' = Inr (int (length ps) + 1)" using task_nums_ring [OF xs(2)] by simp
  moreover have "ring_pages s' (ps @ [p])" using assms(2) r(6) by (auto simp: ring_pages_def)
  ultimately show ?thesis using r I by blast
qed

text \<open>C27: Called by a task of the queue, with a page left, \<^verbatim>\<open>kthread_create\<close> returns and puts one new task
  at the end of the queue, on a page nobody held: it can run, has a preemption count of 0 and
  starts in \<^verbatim>\<open>ret_from_fork\<close> with its function in \<^verbatim>\<open>x19\<close>. The descriptors of the other tasks are as
  before, the preemption count of the caller included, the scheduler's invariant holds for
  the longer queue and \<^verbatim>\<open>task_nums\<close> counts it.\<close>

theorem kthread_create_adds:
  assumes "sched_inv s ps" "ring_pages s ps" "mm_inv s" "used_pages s \<noteq> page_pool"
    and "get_current s = running s" "main \<noteq> 0"
  shows "\<exists>p s'. kthread_create main s = Inr s' \<and> p \<in> page_pool - used_pages s \<and>
    sched_inv s' (ps @ [p]) \<and> ring_pages s' (ps @ [p]) \<and> mm_inv s' \<and>
    tasks s' = (tasks s)(p \<mapsto> new_kthread (ret_from_fork s) main p) \<and>
    task_nums s' = Inr (int (length ps) + 1)"
  using kthread_create_ok [OF assms] by blast

section \<open>Deleting a task\<close>

definition vma_pages :: "mm_struct \<Rightarrow> u64 list" where
  "vma_pages m = map (va_of \<circ> pa) (takeWhile (\<lambda>v. pa v \<noteq> 0) (vma m))"

definition table_pages :: "mm_struct \<Rightarrow> u64 list" where
  "table_pages m = filter (\<lambda>v. v \<noteq> NULL) (pgtbl_page m)"

fun free_all :: "u64 list \<Rightarrow> 'a task_state_scheme \<Rightarrow> 'a task_state_scheme res" where
  "free_all [] s = Inr s"
| "free_all (p # ps) s = bindR (free_page p s) (free_all ps)"

lemma free_loops:
  "free_vma_loop vs s = free_all (map (va_of \<circ> pa) (takeWhile (\<lambda>v. pa v \<noteq> 0) vs)) s"
  "free_pgtbl_loop ts s = free_all (filter (\<lambda>v. v \<noteq> NULL) ts) s"
  by (induction vs arbitrary: s; simp cong: bindR_cong) (induction ts arbitrary: s; simp cong: bindR_cong)

lemma free_all_append: "free_all (ps @ qs) s = bindR (free_all ps s) (free_all qs)"
  by (induction ps arbitrary: s) (auto simp: bindR_assoc cong: bindR_cong)

lemma free_all_pages:
  assumes "mm_inv s" "distinct ps" "set ps \<subseteq> used_pages s"
  shows "\<exists>s'. free_all ps s = Inr s' \<and> mm_inv s' \<and> used_pages s' = used_pages s - set ps \<and> km_state.more s' = km_state.more s"
  using assms
proof (induction ps arbitrary: s)
  case Nil
  then show ?case by simp
next
  case (Cons p ps)
  obtain s1 where s1: "free_page p s = Inr s1" "mm_inv s1" "used_pages s1 = used_pages s - {p}"
    using pg.put_law [OF Cons.prems(1), of p] Cons.prems(3) by auto
  obtain s' where "free_all ps s1 = Inr s'" "mm_inv s'" "used_pages s' = used_pages s1 - set ps" "km_state.more s' = km_state.more s1"
    using Cons.IH [OF s1(2)] Cons.prems(2,3) s1(3) by auto
  then show ?case using s1 free_page_more [OF s1(1)] by auto
qed

lemma list_del_next: "list_del x h = Inr h' \<Longrightarrow> nxt h' x = Some NULL"
  by (auto simp: list_del_def set_next_def assign_def bindR_eq_Inr split: option.splits if_splits)

lemma delete_process_run:
  assumes R: "ring_list s ps" "p \<in> set (tl ps)" "p \<noteq> NULL" and m: "mm_inv s"
    and t: "tasks s p = Some t" "state t = TASK_ZOMBIE" "mms s (mm t) = Some m"
    and own: "distinct (vma_pages m @ table_pages m @ [p])" "set (vma_pages m @ table_pages m @ [p]) \<subseteq> used_pages s"
  shows "\<exists>s'. delete_process p s = Inr s' \<and> mm_inv s' \<and> ring_list s' (remove1 p ps) \<and>
    used_pages s' = used_pages s - set (vma_pages m @ table_pages m @ [p]) \<and>
    tasks s' = (tasks s)(p := None) \<and> init_task s' = init_task s \<and> nxt (lists s') (p + list_off) = Some NULL"
proof -
  obtain xs where xs: "ps = init_task s # xs" "dlist (lists s) (init_task s + list_off) (map (\<lambda>p. p + list_off) xs)"
    using R(1) by (auto simp: ring_list_def)
  have px: "p \<in> set xs" "p + list_off \<in> set (map (\<lambda>p. p + list_off) xs)" using R(2) xs(1) by auto
  obtain h where h: "list_del (p + list_off) (lists s) = Inr h"
      "dlist h (init_task s + list_off) (remove1 (p + list_off) (map (\<lambda>p. p + list_off) xs))"
    using ll.del_law [OF xs(2) px(2)] by blast
  have dis: "distinct (init_task s # xs)" using dlist_distinct [OF xs(2)] by (auto simp: distinct_map)
  note rm = remove1_map_add [of p list_off xs]
  let ?s = "s\<lparr>lists := h\<rparr>"
  have m1: "mm_inv ?s" "used_pages ?s = used_pages s" using m by (simp_all add: mm_inv_def used_pages_def)
  obtain s' where f: "free_all (vma_pages m @ table_pages m @ [p]) ?s = Inr s'" "mm_inv s'"
      "used_pages s' = used_pages s - set (vma_pages m @ table_pages m @ [p])" "km_state.more s' = km_state.more ?s"
    using free_all_pages [OF m1(1) own(1)] own(2) m1(2) by auto
  note mf = task_more_fields [OF f(4)]
  let ?e = "s'\<lparr>tasks := (tasks s')(p := None)\<rparr>"
  have "bindR (free_vma_loop (vma m) ?s) (\<lambda>s. bindR (free_pgtbl_loop (pgtbl_page m) s) (free_page p)) = Inr s'"
    using f(1) by (simp add: free_loops free_all_append vma_pages_def table_pages_def bindR_assoc)
      (auto simp: bindR_eq_Inr free_all_append)
  then have "delete_process p s = Inr ?e"
    using R(3) t h(1) by (auto simp: delete_process_def Let_def bindR_eq_Inr)
  moreover have "ring_list ?e (remove1 p ps)"
    using h(2) [unfolded rm] mf dis px xs(1) by (auto simp: ring_list_def)
  moreover have "mm_inv ?e" "used_pages ?e = used_pages s'" using f(2) by (simp_all add: mm_inv_def used_pages_def)
  moreover have "nxt h (p + list_off) = Some NULL" by (rule list_del_next [OF h(1)])
  ultimately show ?thesis using mf f(3) by (intro exI [of _ ?e]) simp
qed

text \<open>C24: \<^verbatim>\<open>delete_process\<close> of a zombie that owns its pages takes exactly that task out of the queue and
  gives back its user pages, the table pages it recorded and the page of its descriptor, and
  nothing else: the top-level table page and the address space descriptor stay allocated.\<close>

theorem delete_process_frees:
  assumes "ring_list s ps" "p \<in> set (tl ps)" "p \<noteq> NULL" "mm_inv s"
    and "tasks s p = Some t" "state t = TASK_ZOMBIE" "mms s (mm t) = Some m"
    and "distinct (vma_pages m @ table_pages m @ [p])" "set (vma_pages m @ table_pages m @ [p]) \<subseteq> used_pages s"
  shows "\<exists>s'. delete_process p s = Inr s' \<and> mm_inv s' \<and> ring_list s' (remove1 p ps) \<and>
    used_pages s' = used_pages s - set (vma_pages m @ table_pages m @ [p]) \<and> tasks s' = (tasks s)(p := None)"
  using delete_process_run [OF assms] by blast

section \<open>Clearing zombies\<close>

lemma for_each_prefix:
  assumes "chain (lh s) a (xs @ z # zs) l" "l \<notin> set xs" "length xs < fuel" "\<And>x. x \<in> set xs \<Longrightarrow> body x s = Inr (None, s)"
  shows "for_each_loop fuel lh l body (hd (xs @ [z])) s = for_each_loop (fuel - length xs) lh l body z s"
  using assms
proof (induction xs arbitrary: a fuel)
  case Nil
  then show ?case by simp
next
  case (Cons x xs)
  have "nxt (lh s) x = Some (hd (xs @ [z]))" using Cons.prems(1) by (cases xs; cases zs) auto
  moreover have "for_each_loop (fuel - 1) lh l body (hd (xs @ [z])) s = for_each_loop (fuel - 1 - length xs) lh l body z s"
    using Cons.prems by (intro Cons.IH) auto
  moreover have "x \<noteq> l" using Cons.prems(2) by auto
  ultimately show ?case using Cons.prems(3,4) by (simp add: for_each_loop.simps [of fuel])
qed

lemma clear_zombie_run:
  assumes R: "ring_list s (init_task s # xs @ z # zs)" "z \<noteq> NULL" and m: "mm_inv s"
    and keep: "\<And>x. x \<in> set xs \<Longrightarrow> \<exists>t. tasks s x = Some t \<and> state t \<noteq> TASK_ZOMBIE"
    and t: "tasks s z = Some t" "state t = TASK_ZOMBIE" "mms s (mm t) = Some m"
    and own: "distinct (vma_pages m @ table_pages m @ [z])" "set (vma_pages m @ table_pages m @ [z]) \<subseteq> used_pages s"
    and null: "tasks s (NULL - list_off) = None" "init_task s + list_off \<noteq> NULL"
  shows "list_for_each lists (init_task s + list_off) zombie_body s = Inl (bad_ptr (NULL - list_off))"
proof -
  let ?f = "\<lambda>p. p + list_off"
  have d: "dlist (lists s) (?f (init_task s)) (map ?f xs @ ?f z # map ?f zs)" using R(1) by (auto simp: ring_list_def)
  have fuel: "Suc (length (map ?f xs)) < list_fuel" using dlist_length [OF d] by simp
  obtain s' where s': "delete_process z s = Inr s'" "nxt (lists s') (?f z) = Some NULL" "tasks s' = (tasks s)(z := None)"
    using delete_process_run [OF R(1) _ R(2) m t own] by auto
  have b: "zombie_body x s = Inr (None, s)" if "x \<in> set (map ?f xs)" for x
  proof -
    obtain p where p: "p \<in> set xs" "x = ?f p" using \<open>x \<in> _\<close> by auto
    then obtain v where "tasks s p = Some v" "state v \<noteq> TASK_ZOMBIE" using keep by blast
    then show ?thesis using p(2) by (simp add: zombie_body_def)
  qed
  have z: "?f z \<noteq> ?f (init_task s)" using dlist_distinct [OF d] by auto
  have "tasks s' (NULL - list_off) = None" using s'(3) null(1) by simp
  then have null': "for_each_loop (list_fuel - length (map ?f xs) - 1) lists (?f (init_task s)) zombie_body NULL s' = Inl (bad_ptr (NULL - list_off))"
    using fuel null(2) by (subst for_each_loop.simps) (simp add: zombie_body_def Let_def)
  have "for_each_loop list_fuel lists (?f (init_task s)) zombie_body (hd (map ?f xs @ [?f z])) s =
      for_each_loop (list_fuel - length (map ?f xs)) lists (?f (init_task s)) zombie_body (?f z) s"
    using d fuel b by (intro for_each_prefix [where lh = lists and a = "?f (init_task s)" and zs = "map ?f zs"]) (auto simp: dlist_def)
  also have "\<dots> = for_each_loop (list_fuel - length (map ?f xs) - 1) lists (?f (init_task s)) zombie_body NULL s'"
    using fuel z t s' by (subst for_each_loop.simps) (simp add: zombie_body_def)
  finally show ?thesis
    using dlist_ends(2) [OF d] null' by (cases xs) (simp_all add: list_for_each_def)
qed

text \<open>C36: \<^verbatim>\<open>clear_zombie\<close> does not return when it meets a zombie. Let the queue hold a zombie that is not the head
  (the walk starts after the head) and is not the running task, the first one in queue order, with an address
  space whose user and table pages are distinct pages in use, apart from the page of the descriptor, so that
  \<^verbatim>\<open>delete_process\<close> succeeds. Then the walk goes on from the node of the deleted task, whose pointers
  \<^verbatim>\<open>list_del\<close> has just set to null, takes the null pointer for the node of a task, as it is not the head, and
  reads the state of a descriptor at \<^verbatim>\<open>NULL - offsetof(list)\<close>, where there is none.\<close>

theorem clear_zombie_faults:
  assumes "sched_inv s (init_task s # xs @ z # zs)" "get_current s = running s" "running s \<noteq> z" "mm_inv s"
    and "\<forall>x \<in> set xs. map_option state (tasks s x) \<noteq> Some TASK_ZOMBIE"
    and "tasks s z = Some t" "state t = TASK_ZOMBIE" "mms s (mm t) = Some m"
    and "distinct (vma_pages m @ table_pages m @ [z])" "set (vma_pages m @ table_pages m @ [z]) \<subseteq> used_pages s"
    and "tasks s (NULL - list_off) = None"
  shows "clear_zombie s = Inl (bad_ptr (NULL - list_off))"
proof -
  let ?ps = "init_task s # xs @ z # zs"
  obtain u where u: "tasks s (get_current s) = Some u"
    using sched_inv_task [OF assms(1), of "running s"] assms(1,2) by (auto simp: sched_inv_def)
  obtain i where i: "tasks s (init_task s) = Some i" using sched_inv_task [OF assms(1), of "init_task s"] by auto
  let ?s = "s\<lparr>tasks := (tasks s)(get_current s \<mapsto> u\<lparr>preempt_count := preempt_count u + 1\<rparr>)\<rparr>"
  have "preempt_disable s = Inr ?s" using u by (simp add: preempt_disable_def with_task_def)
  moreover have "list_for_each lists (init_task ?s + list_off) zombie_body ?s = Inl (bad_ptr (NULL - list_off))"
  proof (rule clear_zombie_run [where xs = xs and zs = zs and t = t and m = m])
    show "ring_list ?s (init_task ?s # xs @ z # zs)" using sched_inv_ring [OF assms(1)] by (simp add: ring_list_def)
    show "\<exists>t. tasks ?s x = Some t \<and> state t \<noteq> TASK_ZOMBIE" if "x \<in> set xs" for x
    proof -
      obtain v where "tasks s x = Some v" using sched_inv_task [OF assms(1), of x] \<open>x \<in> set xs\<close> by auto
      then show ?thesis using assms(5) u \<open>x \<in> set xs\<close> by auto
    qed
    show "mm_inv ?s" using assms(4) by (simp add: mm_inv_def)
    show "z \<noteq> NULL" using assms(1) by (auto simp: sched_inv_def)
    show "set (vma_pages m @ table_pages m @ [z]) \<subseteq> used_pages ?s" using assms(10) by (simp add: used_pages_def)
    show "init_task ?s + list_off \<noteq> NULL" using i assms(11) by (auto simp: eq_diff_eq [symmetric])
  qed (use assms u in auto)
  ultimately show ?thesis by (simp add: clear_zombie_def)
qed

section \<open>Properties\<close>

text \<open>C1: Round robin is fair. While every task of the queue can run, from any state that satisfies the
  scheduler's invariant (the running task has a preemption count of 0, every other one waits
  with a count of 1 or never ran) every task of the queue is reached within fewer timer
  interrupts than there are tasks, all of which return, and the invariant holds again.\<close>

theorem scheduler_round_robin:
  assumes "sched_inv s ps" "all_running ps s" "i < length ps" "running s = ps ! i" "j < length ps"
  shows "\<exists>k < length ps. \<exists>s'. ticks k s = Inr s' \<and> running s' = ps ! j \<and> sched_inv s' ps"
proof -
  let ?n = "length ps"
  define k where "k = (if i \<le> j then j - i else j + ?n - i)"
  have "(i + k) mod ?n = j" "k < ?n" using assms(3,5) by (auto simp: k_def)
  then show ?thesis using ticks_round_robin [OF assms(1-4), of k] by auto
qed

text \<open>C35: The scheduler only looks at the next task of the queue: when that one is not running (it
  has exited and is a zombie, say) no number of timer interrupts switches away from the
  current task, whatever other tasks could run.\<close>

theorem scheduler_stuck_at_zombie:
  assumes "sched_inv s ps" "i < length ps" "running s = ps ! i"
    and "tasks s (ps ! (Suc i mod length ps)) = Some u" "state u \<noteq> TASK_RUNNING"
  shows "\<exists>s'. ticks k s = Inr s' \<and> running s' = running s \<and> tasks s' = tasks s"
  using assms
proof (induction k arbitrary: s)
  case 0
  then show ?case by simp
next
  case (Suc k)
  let ?s = "idle_tick (ps ! (Suc i mod length ps)) s"
  have "tick s = Inr ?s"
    using tick_stay [OF Suc.prems(1,2) Suc.prems(3) [symmetric] refl] Suc.prems(4,5) by blast
  moreover have "\<exists>s'. ticks k ?s = Inr s' \<and> running s' = running ?s \<and> tasks s' = tasks ?s"
    by (rule Suc.IH) (use Suc.prems in \<open>simp_all add: idle_tick_fields\<close>)
  ultimately show ?case by (simp add: idle_tick_fields)
qed

section \<open>A kernel after boot\<close>

text \<open>
  The first task runs on its static stack page; the task queue and the timer list are empty.
\<close>

definition boot_task :: task_state where
  "boot_task = timer_state.extend (timer_state.truncate fresh_timer) (task_state.fields
     [0xffff000000091000 \<mapsto> zero_task\<lparr>state := TASK_RUNNING, canary := CANARY_MAGIC_NUM\<rparr>]
     Map.empty Map.empty 0xffff000000091000 NULL (zero_context\<lparr>ctx_sp := 0xffff000000091800\<rparr>) Map.empty
     0xffff000000080200 0xffff000000080100)
     \<lparr>lists := \<lparr>prv = (prv (lists fresh_timer))(0xffff000000091080 \<mapsto> 0xffff000000091080),
                nxt = (nxt (lists fresh_timer))(0xffff000000091080 \<mapsto> 0xffff000000091080)\<rparr>\<rparr>"

lemma boot_task_fields:
  "tasks boot_task = [0xffff000000091000 \<mapsto> zero_task\<lparr>state := TASK_RUNNING, canary := CANARY_MAGIC_NUM\<rparr>]"
  "lists boot_task = \<lparr>prv = (prv (lists fresh_timer))(0xffff000000091080 \<mapsto> 0xffff000000091080),
     nxt = (nxt (lists fresh_timer))(0xffff000000091080 \<mapsto> 0xffff000000091080)\<rparr>"
  "init_task boot_task = 0xffff000000091000" "cregs boot_task = zero_context\<lparr>ctx_sp := 0xffff000000091800\<rparr>"
  "ret_from_fork boot_task = 0xffff000000080200" "switch_ret boot_task = 0xffff000000080100" "mms boot_task = Map.empty"
  by (simp_all add: boot_task_def timer_state.defs task_state.defs make_node_def)

lemma boot_task_mm: "mm_inv boot_task" "used_pages boot_task = {}"
proof -
  have m: "mem_map boot_task = mem_map fresh_mm"
    by (simp add: boot_task_def timer_state.defs task_state.defs fresh_timer_def km_state.defs fresh_km_def mm_state.defs)
  then show "mm_inv boot_task" "used_pages boot_task = {}"
    using fresh_mm_inv fresh_mm_used by (simp_all add: mm_inv_def used_pages_def)
qed

lemma boot_running: "running boot_task = 0xffff000000091000" "get_current boot_task = 0xffff000000091000"
  by (simp_all add: running_def get_current_def boot_task_fields FRAME_SZ_def STACK_SZ_def)

lemma boot_sched_inv: "sched_inv boot_task [0xffff000000091000]"
  by (simp add: sched_inv_def boot_running boot_task_fields dlist_def list_off_def zero_task_def)

lemma boot_ring_pages: "ring_pages boot_task [0xffff000000091000]"
proof -
  have "\<not> in_page 0xffff000000091000 0xffff000000091000" if "0xffff000000091000 \<in> page_pool"
    by (rule static_not_pool [OF _ that]) simp
  then show ?thesis by (auto simp: ring_pages_def in_page_def layout_values)
qed

lemma page_pool_nonempty: "page_pool \<noteq> {}"
  using card_page_pool by (auto simp: PAGING_PAGES_eq)

text \<open>The same kernel with one kernel thread, whose function is at \<open>0xffff000000082000\<close>.\<close>

lemma two_tasks:
  "\<exists>p s. kthread_create 0xffff000000082000 boot_task = Inr s \<and> sched_inv s [0xffff000000091000, p] \<and> mm_inv s \<and>
     p \<in> used_pages s \<and> ring_list s [0xffff000000091000, p] \<and> get_current s = 0xffff000000091000 \<and> running s = 0xffff000000091000 \<and>
     init_task s = 0xffff000000091000 \<and> mms s = Map.empty \<and> p \<noteq> 0xffff000000091000 \<and> p \<noteq> NULL \<and>
     tasks s = (tasks boot_task)(p \<mapsto> new_kthread 0xffff000000080200 0xffff000000082000 p)"
proof -
  let ?i = "0xffff000000091000 :: u64" and ?m = "0xffff000000082000 :: u64"
  have c: "get_current boot_task \<in> set [?i]" "used_pages boot_task \<noteq> page_pool"
    using boot_running page_pool_nonempty boot_task_mm(2) by auto
  have e: "get_current boot_task = running boot_task" "?m \<noteq> 0" by (simp_all add: boot_running)
  obtain p s where r: "kthread_create ?m boot_task = Inr s" "p \<in> page_pool - used_pages boot_task" "p \<notin> set [?i]"
      "sched_inv s ([?i] @ [p])" "mm_inv s" "used_pages s = insert p (used_pages boot_task)"
      "tasks s = (tasks boot_task)(p \<mapsto> new_kthread (ret_from_fork boot_task) ?m p)" "mms s = mms boot_task"
      "init_task s = init_task boot_task" "cregs s = cregs boot_task"
    using kthread_create_ok [OF boot_sched_inv boot_ring_pages boot_task_mm(1) c(2) e] by blast
  have g: "get_current s = ?i" "running s = ?i" using r(10) boot_running by (simp_all add: get_current_def running_def)
  have "p \<noteq> NULL" using pool_task(2) r(2) by auto
  then show ?thesis using r g sched_inv_ring [OF r(4)]
    by (intro exI [of _ p] exI [of _ s]) (simp add: boot_task_fields)
qed

theorem kthread_create_adds_witness:
  "\<exists>p s. kthread_create 0xffff000000082000 boot_task = Inr s \<and> sched_inv s [0xffff000000091000, p] \<and> task_nums s = Inr 2"
proof -
  have "used_pages boot_task \<noteq> page_pool" using boot_task_mm(2) page_pool_nonempty by simp
  then show ?thesis
    using kthread_create_adds [OF boot_sched_inv boot_ring_pages boot_task_mm(1), where main = "0xffff000000082000"]
    by (auto simp: boot_running)
qed

lemma sched_inv_state:
  assumes I: "sched_inv s ps" and t: "tasks s p = Some t" "mm u = NULL \<or> mms s' (mm u) \<noteq> None"
    and u: "preempt_count u = preempt_count t" "cpu_context u = cpu_context t" "tasks s' = (tasks s)(p \<mapsto> u)"
      "state u = state t \<or> state u \<noteq> TASK_RUNNING"
    and same: "\<forall>m. mms s m \<noteq> None \<longrightarrow> mms s' m \<noteq> None" "frames s' = frames s" "init_task s' = init_task s" "cregs s' = cregs s"
      "ret_from_fork s' = ret_from_fork s" "switch_ret s' = switch_ret s" "lists s' = lists s"
  shows "sched_inv s' ps"
proof -
  have r: "running s' = running s" by (simp add: running_def same)
  have "\<exists>t. tasks s' q = Some t \<and> (mm t = NULL \<or> mms s' (mm t) \<noteq> None) \<and>
      (if q = running s' then preempt_count t = 0
       else state t \<noteq> TASK_RUNNING \<or> fresh_task (ret_from_fork s') q t \<or> parked_task (switch_ret s') q (frames s' q) t)" if "q \<in> set ps" for q
  proof (cases "q = p")
    case True
    have f: "fresh_task f p u = fresh_task f p t" "parked_task f p e u = parked_task f p e t" for f e
      by (simp_all add: fresh_task_def parked_task_def u)
    obtain v where "tasks s p = Some v" "p = running s \<Longrightarrow> preempt_count v = 0"
        "p \<noteq> running s \<Longrightarrow> state v = TASK_RUNNING \<Longrightarrow> fresh_task (ret_from_fork s) p v \<or> parked_task (switch_ret s) p (frames s p) v"
      using sched_inv_task [OF I, of p] \<open>q \<in> set ps\<close> True by blast
    then show ?thesis using t u(1,3,4) True f by (auto simp: r same)
  next
    case False
    then show ?thesis using sched_inv_task [OF I \<open>q \<in> set ps\<close>] u(3) r same by (metis fun_upd_other)
  qed
  then show ?thesis using I by (auto simp: sched_inv_def r same)
qed

text \<open>A kernel whose second task is a zombie with an empty address space at \<open>8\<close>.\<close>

definition with_zombie :: "u64 \<Rightarrow> task_struct \<Rightarrow> task_state \<Rightarrow> task_state" where
  "with_zombie p t s = s\<lparr>tasks := (tasks s)(p \<mapsto> t\<lparr>state := TASK_ZOMBIE, mm := 8\<rparr>), mms := (mms s)(8 \<mapsto> fresh_mm_struct)\<rparr>"

lemma zombie_kernel:
  "\<exists>p t. \<exists>s :: task_state. sched_inv s [0xffff000000091000, p] \<and> mm_inv s \<and> p \<in> used_pages s \<and> ring_list s [0xffff000000091000, p] \<and>
     get_current s = 0xffff000000091000 \<and> running s = 0xffff000000091000 \<and> init_task s = 0xffff000000091000 \<and>
     p \<noteq> 0xffff000000091000 \<and> p \<noteq> NULL \<and> tasks s p = Some t \<and> state t = TASK_ZOMBIE \<and> mms s (mm t) = Some fresh_mm_struct \<and>
     tasks s (NULL - list_off) = None"
proof -
  obtain p and s :: task_state where r: "sched_inv s [0xffff000000091000, p]" "mm_inv s" "p \<in> used_pages s"
      "ring_list s [0xffff000000091000, p]" "get_current s = 0xffff000000091000" "running s = 0xffff000000091000"
      "init_task s = 0xffff000000091000" "mms s = Map.empty" "p \<noteq> 0xffff000000091000" "p \<noteq> NULL"
      "tasks s = (tasks boot_task)(p \<mapsto> new_kthread 0xffff000000080200 0xffff000000082000 p)"
    using two_tasks by blast
  let ?t = "new_kthread 0xffff000000080200 0xffff000000082000 p"
  let ?s = "with_zombie p ?t s"
  have t: "tasks s p = Some ?t" using r(11) by simp
  have "sched_inv ?s [0xffff000000091000, p]"
    by (rule sched_inv_state [OF r(1) t, where u = "?t\<lparr>state := TASK_ZOMBIE, mm := 8\<rparr>"])
      (simp_all add: with_zombie_def task_state_defs)
  moreover have "mm_inv ?s" "p \<in> used_pages ?s" "ring_list ?s [0xffff000000091000, p]"
      "get_current ?s = 0xffff000000091000" "running ?s = 0xffff000000091000" "init_task ?s = 0xffff000000091000"
    using r by (simp_all add: with_zombie_def mm_inv_def used_pages_def ring_list_def get_current_def running_def)
  moreover have "p \<in> page_pool" using r(2,3) pg.used_pool by blast
  then have "p \<noteq> NULL - list_off" by (auto dest!: page_aligned_pool simp: page_aligned_def list_off_def)
  then have "tasks ?s (NULL - list_off) = None" using r(11) by (simp add: with_zombie_def boot_task_fields list_off_def)
  ultimately show ?thesis using r(9,10)
    by (intro exI [of _ p] exI [of _ "?t\<lparr>state := TASK_ZOMBIE, mm := 8\<rparr>"] exI [of _ ?s]) (simp add: with_zombie_def)
qed

lemma fresh_mm_pages: "vma_pages fresh_mm_struct = []" "table_pages fresh_mm_struct = []"
  by (simp_all add: vma_pages_def table_pages_def fresh_mm_struct_def)

theorem scheduler_round_robin_witness:
  "\<exists>p s k s'. kthread_create 0xffff000000082000 boot_task = Inr s \<and> p \<noteq> running s \<and> ticks k s = Inr s' \<and> running s' = p"
proof -
  obtain p s where r: "kthread_create 0xffff000000082000 boot_task = Inr s" "sched_inv s [0xffff000000091000, p]"
      "running s = 0xffff000000091000" "p \<noteq> 0xffff000000091000"
      "tasks s = (tasks boot_task)(p \<mapsto> new_kthread 0xffff000000080200 0xffff000000082000 p)"
    using two_tasks by blast
  have "all_running [0xffff000000091000, p] s"
    using r(4,5) by (simp add: all_running_def boot_task_fields new_kthread_def)
  from scheduler_round_robin [OF r(2) this, of 0 1] show ?thesis using r(1,3,4) by auto
qed

theorem scheduler_stuck_at_zombie_witness:
  "\<exists>p t. \<exists>s s' :: task_state. tasks s p = Some t \<and> state t = TASK_ZOMBIE \<and> ticks 1000 s = Inr s' \<and> running s' = running s"
proof -
  obtain p t and s :: task_state where r: "sched_inv s [0xffff000000091000, p]" "running s = 0xffff000000091000"
      "tasks s p = Some t" "state t = TASK_ZOMBIE"
    using zombie_kernel by blast
  have "\<exists>s'. ticks 1000 s = Inr s' \<and> running s' = running s \<and> tasks s' = tasks s"
    by (rule scheduler_stuck_at_zombie [OF r(1), where i = 0 and u = t]) (use r in \<open>simp_all add: task_state_defs\<close>)
  then show ?thesis using r(3,4) by blast
qed

theorem delete_process_frees_witness:
  "\<exists>p. \<exists>s s' :: task_state. delete_process p s = Inr s' \<and> ring_list s' [0xffff000000091000] \<and> used_pages s' = used_pages s - {p} \<and> p \<in> used_pages s"
proof -
  obtain p t and s :: task_state where r: "sched_inv s [0xffff000000091000, p]" "mm_inv s" "p \<in> used_pages s"
      "ring_list s [0xffff000000091000, p]" "p \<noteq> 0xffff000000091000" "p \<noteq> NULL"
      "tasks s p = Some t" "state t = TASK_ZOMBIE" "mms s (mm t) = Some fresh_mm_struct"
    using zombie_kernel by blast
  have "\<exists>s'. delete_process p s = Inr s' \<and> mm_inv s' \<and> ring_list s' (remove1 p [0xffff000000091000, p]) \<and>
      used_pages s' = used_pages s - set (vma_pages fresh_mm_struct @ table_pages fresh_mm_struct @ [p]) \<and>
      tasks s' = (tasks s)(p := None)"
    by (rule delete_process_frees [OF r(4) _ r(6,2,7,8,9)]) (use r(3) in \<open>simp_all add: fresh_mm_pages\<close>)
  then show ?thesis using r(3,5) by (auto simp: fresh_mm_pages)
qed

theorem clear_zombie_faults_witness:
  "\<exists>p t. \<exists>s :: task_state. ring_list s [0xffff000000091000, p] \<and> tasks s p = Some t \<and> state t = TASK_ZOMBIE \<and>
     p \<noteq> running s \<and> (\<exists>s'. delete_process p s = Inr s') \<and> clear_zombie s = Inl (bad_ptr (NULL - list_off))"
proof -
  obtain p t and s :: task_state where r: "sched_inv s [0xffff000000091000, p]" "mm_inv s" "p \<in> used_pages s"
      "get_current s = 0xffff000000091000" "running s = 0xffff000000091000" "init_task s = 0xffff000000091000"
      "p \<noteq> 0xffff000000091000" "tasks s p = Some t" "state t = TASK_ZOMBIE" "mms s (mm t) = Some fresh_mm_struct"
      "ring_list s [0xffff000000091000, p]" "p \<noteq> NULL" "tasks s (NULL - list_off) = None"
    using zombie_kernel by blast
  have "clear_zombie s = Inl (bad_ptr (NULL - list_off))"
    by (rule clear_zombie_faults [where xs = "[]" and zs = "[]" and t = t and m = fresh_mm_struct])
      (use r in \<open>simp_all add: fresh_mm_pages\<close>)
  moreover have "\<exists>s'. delete_process p s = Inr s'"
    using delete_process_run [OF r(11) _ r(12,2,8,9,10)] r(3) by (auto simp: fresh_mm_pages)
  ultimately show ?thesis using r(5,7,8,9,11) by metis
qed

end
