(* ===== verification/Buffer_Cache.thy ===== *)
theory Buffer_Cache
  imports Buffer Task_Life
begin

text \<open>
  What the flash driver and the buffer cache of \<^verbatim>\<open>fs/fs.c\<close> promise. The locale \<open>flash_device\<close> is the
  documented behaviour of a flash chip with the Intel command set; \<open>flash_untimed\<close> adds what the
  driver takes for granted, that a byte is programmed before the next command arrives. \<open>sim_chip\<close> is a
  chip with that behaviour. The buffer cache is shown to hold the blocks of the chip, on top of the
  contract of the kernel allocator.
\<close>

section \<open>Documented behaviour of the flash chip\<close>

text \<open>The 64 MB that the chip answers, and the blocks in it.\<close>

definition on_chip :: "u64 \<Rightarrow> bool" where
  "on_chip a \<longleftrightarrow> a - PFLASH1_BASE < PFLASH1_SIZE"

abbreviation nr_blocks :: u64 where
  "nr_blocks \<equiv> 65536"

lemma block_on_chip:
  assumes "blk < nr_blocks" "k < 1024"
  shows "on_chip (PFLASH1_BASE + blk * BLOCK_SZ + of_nat k)"
proof -
  have "unat (blk * BLOCK_SZ + of_nat k) = unat blk * 1024 + k"
    using assms by (simp add: BLOCK_SZ_def unat_word_ariths unat_of_nat word_less_nat_alt)
  moreover have "unat blk * 1024 + k < 67108864" using assms by (simp add: word_less_nat_alt)
  ultimately show ?thesis by (simp add: on_chip_def PFLASH1_SIZE_def word_less_nat_alt)
qed

text \<open>
  \<open>content\<close>: the bytes of the array; \<open>ready\<close>: the chip is in read mode; \<open>status\<close>: it shows its status
  register, bit 7 of which stays clear for \<open>polls\<close> more reads while a byte is programmed; \<open>prog u v\<close>: what a
  byte \<open>u\<close> becomes when \<open>v\<close> is programmed into it without an erase. Programming clears bits: where
  \<open>v\<close> only clears bits of \<open>u\<close> the byte becomes \<open>v\<close>, and nothing is said where \<open>v\<close> would set one (a chip
  gives the conjunction, QEMU's \<^verbatim>\<open>pflash_cfi01\<close> the new byte). The chip takes a command in read mode and
  when bit 7 of the status register is set, and not while it is busy.
\<close>

locale flash_device =
  fixes fl :: "'f flash_bus" and content :: "'f \<Rightarrow> u64 \<Rightarrow> u8"
    and ready :: "'f \<Rightarrow> bool" and status :: "'f \<Rightarrow> bool" and polls :: "'f \<Rightarrow> nat" and prog :: "u8 \<Rightarrow> u8 \<Rightarrow> u8"
  assumes read_array: "ready d \<Longrightarrow> on_chip a \<Longrightarrow>
      fst (rd8 fl a d) = content d a \<and> content (snd (rd8 fl a d)) = content d \<and> ready (snd (rd8 fl a d))"
    and program_byte: "ready d \<or> status d \<and> polls d = 0 \<Longrightarrow> on_chip a \<Longrightarrow>
      status (wr8 fl a v (wr8 fl a CMD_WR d)) \<and>
      content (wr8 fl a v (wr8 fl a CMD_WR d)) = (content d)(a := prog (content d a) v)"
    and program_clears: "u AND v = v \<Longrightarrow> prog u v = v"
    and poll: "status d \<Longrightarrow>
      (fst (rd8 fl (pflash1_addr CMD_STATE_REG) d) AND SR_7 \<noteq> 0 \<longleftrightarrow> polls d = 0) \<and>
      polls (snd (rd8 fl (pflash1_addr CMD_STATE_REG) d)) = polls d - 1 \<and>
      status (snd (rd8 fl (pflash1_addr CMD_STATE_REG) d)) \<and>
      content (snd (rd8 fl (pflash1_addr CMD_STATE_REG) d)) = content d"
    and poll_bound: "polls d < 2 ^ 31"
    and read_mode: "status d \<Longrightarrow> polls d = 0 \<Longrightarrow> on_chip a \<Longrightarrow>
      ready (wr8 fl a CMD_WR_END d) \<and> content (wr8 fl a CMD_WR_END d) = content d"
begin

lemma prog_same: "prog u u = u"
  by (rule program_clears) simp

lemma read_loop:
  assumes "ready d" "n \<le> 2 ^ 64" "\<And>k. k < n \<Longrightarrow> on_chip (src + of_nat k)"
  shows "\<exists>d'. flash_to_mem fl n dst src (m, d) =
      ((\<lambda>x. if unat (x - dst) < n then content d (src + (x - dst)) else m x), d') \<and> ready d' \<and> content d' = content d"
  using assms
proof (induction n arbitrary: m d dst src)
  case 0
  then show ?case by simp
next
  case (Suc n)
  let ?d = "snd (rd8 fl src d)"
  have src: "on_chip src" using Suc.prems(3) [of 0] by simp
  have rest: "on_chip (src + 1 + of_nat k)" if "k < n" for k using Suc.prems(3) [of "Suc k"] that by (simp add: add.assoc)
  note r = read_array [OF Suc.prems(1) src]
  obtain d' where d': "flash_to_mem fl n (dst + 1) (src + 1) (m(dst := content d src), ?d) =
      ((\<lambda>x. if unat (x - (dst + 1)) < n then content ?d (src + 1 + (x - (dst + 1))) else (m(dst := content d src)) x), d')"
      "ready d'" "content d' = content ?d"
    using Suc.IH [of ?d "src + 1" "dst + 1" "m(dst := content d src)"] rest r Suc_leD [OF Suc.prems(2)] by blast
  have e: "src + 1 + (x - (dst + 1)) = src + (x - dst)" for x by simp
  have "(\<lambda>x. if unat (x - (dst + 1)) < n then content ?d (src + 1 + (x - (dst + 1))) else (m(dst := content d src)) x) =
      (\<lambda>x. if unat (x - dst) < Suc n then content d (src + (x - dst)) else m x)"
    unfolding e by (rule ext) (use r in_range_step [of _ dst n] in \<open>auto simp: fun_upd_def\<close>)
  then show ?case using d' r by (auto simp: case_prod_unfold Let_def)
qed

text \<open>The wait for the status register ends, with the chip ready for a command.\<close>

lemma wait_loop:
  assumes "status d" "polls d < fuel"
  shows "\<exists>d'. pflash_wait fuel fl d = Inr d' \<and> status d' \<and> polls d' = 0 \<and> content d' = content d"
  using assms
proof (induction fuel arbitrary: d)
  case 0
  then show ?case by simp
next
  case (Suc fuel)
  let ?d = "snd (rd8 fl (pflash1_addr CMD_STATE_REG) d)"
  note p = poll [OF Suc.prems(1)]
  show ?case
  proof (cases "polls d = 0")
    case True
    then show ?thesis using p by (auto simp: case_prod_unfold Let_def)
  next
    case False
    then have "polls ?d < fuel" using Suc.prems(2) p by linarith
    then obtain d' where "pflash_wait fuel fl ?d = Inr d'" "status d'" "polls d' = 0" "content d' = content ?d"
      using Suc.IH [of ?d] p by blast
    then show ?thesis using p False by (auto simp: case_prod_unfold Let_def)
  qed
qed

lemma read_block:
  assumes "ready (flash s)" "sect < nr_blocks"
  shows "\<exists>d'. pflash_read fl sect dat s = s\<lparr>mem := (\<lambda>x. if unat (x - dat) < 1024
      then content (flash s) (PFLASH1_BASE + sect * BLOCK_SZ + (x - dat)) else mem s x), flash := d'\<rparr> \<and>
    ready d' \<and> content d' = content (flash s)"
proof -
  have b: "unat BLOCK_SZ = 1024" by (simp add: BLOCK_SZ_def)
  obtain d' where "flash_to_mem fl 1024 dat (PFLASH1_BASE + sect * BLOCK_SZ) (mem s, flash s) =
      ((\<lambda>x. if unat (x - dat) < 1024 then content (flash s) (PFLASH1_BASE + sect * BLOCK_SZ + (x - dat)) else mem s x), d')"
      "ready d'" "content d' = content (flash s)"
    using read_loop [OF assms(1), of 1024 "PFLASH1_BASE + sect * BLOCK_SZ" dat "mem s"] block_on_chip [OF assms(2)] by auto
  then show ?thesis unfolding pflash_read_def b by (intro exI [of _ d']) simp
qed

end

text \<open>
  The driver sends the command for a byte right after the byte before it, with no look at the status
  register, which only a chip that is never busy for longer takes (QEMU's chip programs at once).
\<close>

locale flash_untimed = flash_device fl content ready status polls prog
  for fl :: "'f flash_bus" and content and ready and status and polls and prog +
  assumes done_at_once: "ready d \<or> status d \<and> polls d = 0 \<Longrightarrow> on_chip a \<Longrightarrow> polls (wr8 fl a v (wr8 fl a CMD_WR d)) = 0"
begin

lemma program_loop:
  assumes "ready d \<or> status d \<and> polls d = 0" "n \<le> 1024" "0 < n" "\<And>k. k < n \<Longrightarrow> on_chip (pflash1_addr base + of_nat k)"
  shows "status (pflash_write_loop fl n base dat m d) \<and> polls (pflash_write_loop fl n base dat m d) = 0 \<and>
    content (pflash_write_loop fl n base dat m d) = (\<lambda>x. if unat (x - pflash1_addr base) < n
      then prog (content d x) (m (dat + (x - pflash1_addr base))) else content d x)"
  using assms
proof (induction n arbitrary: d base dat)
  case 0
  then show ?case by simp
next
  case (Suc n)
  let ?a = "pflash1_addr base"
  let ?d = "pflash_write_byte fl base (m dat) d"
  have on: "on_chip ?a" using Suc.prems(4) [of 0] by simp
  have p: "status ?d" "polls ?d = 0" "content ?d = (content d)(?a := prog (content d ?a) (m dat))"
    using program_byte [OF Suc.prems(1) on, of "m dat"] done_at_once [OF Suc.prems(1) on, of "m dat"]
    by (simp_all add: pflash_write_byte_def)
  have a: "pflash1_addr (base + 1) = ?a + 1" by (simp add: pflash1_addr_def)
  show ?case
  proof (cases "n = 0")
    case True
    have "unat (x - ?a) < Suc 0 \<longleftrightarrow> x = ?a" for x by (simp add: unat_eq_0)
    then show ?thesis using p True by (auto simp: fun_eq_iff)
  next
    case False
    have n: "n \<le> 1024" "0 < n" using Suc.prems(2) False by simp_all
    have rest: "on_chip (pflash1_addr (base + 1) + of_nat k)" if "k < n" for k
      unfolding a using Suc.prems(4) [of "Suc k"] that by (simp add: add.assoc)
    have IH: "status (pflash_write_loop fl n (base + 1) (dat + 1) m ?d)" "polls (pflash_write_loop fl n (base + 1) (dat + 1) m ?d) = 0"
        "content (pflash_write_loop fl n (base + 1) (dat + 1) m ?d) =
           (\<lambda>x. if unat (x - (?a + 1)) < n then prog (content ?d x) (m (dat + 1 + (x - (?a + 1)))) else content ?d x)"
      using Suc.IH [OF disjI2 [OF conjI [OF p(1,2)]] n rest, of "dat + 1"] unfolding a by blast+
    have e: "dat + 1 + (x - (?a + 1)) = dat + (x - ?a)" for x by simp
    have last: "\<not> unat (?a - (?a + 1)) < n" using n(1) by (simp add: unsigned_minus_1_eq_mask mask_eq_exp_minus_1)
    have "(if unat (x - (?a + 1)) < n then prog (content ?d x) (m (dat + (x - ?a))) else content ?d x) =
        (if unat (x - ?a) < Suc n then prog (content d x) (m (dat + (x - ?a))) else content d x)" for x
      using p(3) last in_range_step [of x ?a n] n(1) by (cases "x = ?a") auto
    then show ?thesis using IH unfolding e by (simp add: fun_eq_iff)
  qed
qed

lemma write_block:
  assumes "ready (flash s)" "sect < nr_blocks"
  shows "\<exists>d'. pflash_write fl sect dat s = Inr (s\<lparr>flash := d'\<rparr>) \<and> ready d' \<and>
    content d' = (\<lambda>x. if unat (x - pflash1_addr (sect * BLOCK_SZ)) < 1024
      then prog (content (flash s) x) (mem s (dat + (x - pflash1_addr (sect * BLOCK_SZ)))) else content (flash s) x)"
proof -
  let ?d = "pflash_write_loop fl (unat BLOCK_SZ) (sect * BLOCK_SZ) dat (mem s) (flash s)"
  have b: "unat BLOCK_SZ = 1024" by (simp add: BLOCK_SZ_def)
  have on: "on_chip (pflash1_addr (sect * BLOCK_SZ) + of_nat k)" if "k < 1024" for k
    using block_on_chip [OF assms(2) that] by (simp add: pflash1_addr_def)
  have p: "status ?d" "polls ?d = 0" "content ?d = (\<lambda>x. if unat (x - pflash1_addr (sect * BLOCK_SZ)) < 1024
      then prog (content (flash s) x) (mem s (dat + (x - pflash1_addr (sect * BLOCK_SZ)))) else content (flash s) x)"
    unfolding b using program_loop [of "flash s" 1024 "sect * BLOCK_SZ" dat "mem s"] on assms(1) by simp_all
  obtain d1 where d1: "pflash_wait poll_fuel fl ?d = Inr d1" "status d1" "polls d1 = 0" "content d1 = content ?d"
    using wait_loop [OF p(1), of poll_fuel] poll_bound [of ?d] by (auto simp: poll_fuel_def)
  have "on_chip (pflash1_addr 0)" by (simp add: on_chip_def pflash1_addr_def PFLASH1_SIZE_def)
  then show ?thesis using read_mode [OF d1(2,3), of "pflash1_addr 0"] p(3) d1(1,4)
    by (intro exI [of _ "wr8 fl (pflash1_addr 0) CMD_WR_END d1"]) (simp add: pflash_write_def Let_def)
qed

end

section \<open>A chip\<close>

text \<open>
  A chip whose bytes change by \<open>pg\<close> when they are programmed. In state \<open>Read_status n\<close> it is busy for
  \<open>n\<close> more polls and takes no command; it gets there with \<open>n = 0\<close>, as it programs at once.
\<close>

datatype chip_mode = Read_array | Program_setup | Read_status nat

record chip =
  chip_mode :: chip_mode
  chip_array :: "u64 \<Rightarrow> u8"

definition sim_rd8 :: "u64 \<Rightarrow> chip \<Rightarrow> u8 \<times> chip" where
  "sim_rd8 a d = (case chip_mode d of
     Read_array \<Rightarrow> (chip_array d a, d)
   | Program_setup \<Rightarrow> (0, d)
   | Read_status n \<Rightarrow> (if n = 0 then 0x80 else 0, d\<lparr>chip_mode := Read_status (n - 1)\<rparr>))"

definition sim_command :: "u8 \<Rightarrow> chip \<Rightarrow> chip" where
  "sim_command v d =
     (if v = CMD_WR then d\<lparr>chip_mode := Program_setup\<rparr> else if v = CMD_WR_END then d\<lparr>chip_mode := Read_array\<rparr> else d)"

definition sim_wr8 :: "(u8 \<Rightarrow> u8 \<Rightarrow> u8) \<Rightarrow> u64 \<Rightarrow> u8 \<Rightarrow> chip \<Rightarrow> chip" where
  "sim_wr8 pg a v d = (case chip_mode d of
     Read_array \<Rightarrow> sim_command v d
   | Program_setup \<Rightarrow> d\<lparr>chip_mode := Read_status 0, chip_array := (chip_array d)(a := pg (chip_array d a) v)\<rparr>
   | Read_status n \<Rightarrow> if n = 0 then sim_command v d else d)"

definition sim_chip :: "(u8 \<Rightarrow> u8 \<Rightarrow> u8) \<Rightarrow> chip flash_bus" where
  "sim_chip pg = \<lparr>rd8 = sim_rd8, wr8 = sim_wr8 pg\<rparr>"

definition sim_polls :: "chip \<Rightarrow> nat" where
  "sim_polls d = (case chip_mode d of Read_status n \<Rightarrow> n mod 2 ^ 31 | _ \<Rightarrow> 0)"

abbreviation chip_ready :: "chip \<Rightarrow> bool" where
  "chip_ready d \<equiv> chip_mode d = Read_array"

abbreviation chip_status :: "chip \<Rightarrow> bool" where
  "chip_status d \<equiv> \<exists>n < 2 ^ 31. chip_mode d = Read_status n"

text \<open>A chip that only clears bits, and QEMU's, where a byte takes any value.\<close>

abbreviation clear_bits :: "u8 \<Rightarrow> u8 \<Rightarrow> u8" where
  "clear_bits u v \<equiv> u AND v"

abbreviation new_byte :: "u8 \<Rightarrow> u8 \<Rightarrow> u8" where
  "new_byte u v \<equiv> v"

definition sim_flash :: "chip flash_bus" where
  "sim_flash = sim_chip clear_bits"

definition emulated_flash :: "chip flash_bus" where
  "emulated_flash = sim_chip new_byte"

lemma sim_chip_untimed:
  assumes "\<And>u v. u AND v = v \<Longrightarrow> pg u v = v"
  shows "flash_untimed (sim_chip pg) chip_array chip_ready chip_status sim_polls pg"
  by unfold_locales (auto simp: sim_chip_def sim_rd8_def sim_wr8_def sim_command_def sim_polls_def CMD_WR_def CMD_WR_END_def
      SR_7_def assms split: chip_mode.splits)

interpretation sim: flash_untimed sim_flash chip_array chip_ready chip_status sim_polls clear_bits
  unfolding sim_flash_def by (rule sim_chip_untimed) simp

interpretation emu: flash_untimed emulated_flash chip_array chip_ready chip_status sim_polls new_byte
  unfolding emulated_flash_def by (rule sim_chip_untimed) simp

section \<open>Pages that an allocation takes\<close>

lemma get_free_page_count:
  assumes "mm_inv s" "get_free_page GFP_KERNEL s = Inr (p, s')"
  shows "mm_inv s'" "free_count s = Suc (free_count s')"
proof -
  note g = pg.get_Inr [OF assms]
  show "mm_inv s'" by (rule g(1))
  have "page_pool - used_pages s = insert p (page_pool - used_pages s')" "p \<notin> page_pool - used_pages s'"
    using g(2,3) by auto
  then show "free_count s = Suc (free_count s')" by (simp add: free_count_def)
qed

lemma set_page_flags_count:
  assumes "mm_inv s" "set_page_flags q f s = Inr s'"
  shows "mm_inv s'" "free_count s' = free_count s"
proof -
  obtain i where i: "i < PAGING_PAGES" "s' = s\<lparr>mem_map := (mem_map s)[i := (mem_map s ! i)\<lparr>pg_flags := f\<rparr>]\<rparr>"
    using assms(2) by (auto simp: set_page_flags_def Let_def split: if_splits)
  show "mm_inv s'" unfolding i(2)
    using assms(1) mm_inv_nth [OF assms(1) i(1)] by (intro mm_inv_upd) simp_all
  show "free_count s' = free_count s" unfolding free_count_def i(2)
    using assms(1) i(1) by (intro arg_cong [where f = card]) (auto simp: used_pages_def mm_inv_def nth_list_update)
qed

lemma free_count_fields [simp]:
  fixes s :: "'a km_state_scheme"
  shows "free_count (s\<lparr>descs := h\<rparr>) = free_count s" "free_count (s\<lparr>free_bucket_desc := f\<rparr>) = free_count s"
    "free_count (s\<lparr>bucket_dir := b\<rparr>) = free_count s" "free_count (s\<lparr>DAIF := w\<rparr>) = free_count s"
  by (simp_all add: free_count_def)

lemma init_bucket_desc_count:
  assumes "mm_inv s" "init_bucket_desc s = Inr s'"
  shows "mm_inv s' \<and> free_count s = Suc (free_count s')"
proof -
  obtain p s1 s2 h f where r: "get_free_page GFP_KERNEL s = Inr (p, s1)" "set_page_flags (pa_of p) PG_kmalloc s1 = Inr s2"
      "s' = s2\<lparr>descs := h, free_bucket_desc := f\<rparr>"
    using assms(2) by (auto simp: init_bucket_desc_def bindR_eq_Inr)
  show ?thesis using get_free_page_count [OF assms(1) r(1)] set_page_flags_count [OF _ r(2)] r(3) by simp
qed

lemma new_desc_count:
  assumes "mm_inv s" "new_desc k s = Inr (d, s')"
  shows "mm_inv s' \<and> free_count s \<le> free_count s' + 2"
proof -
  obtain s1 where s1: "(if free_bucket_desc s = NULL then init_bucket_desc s else Inr s) = Inr s1"
    using assms(2) unfolding new_desc_def bindR_eq_Inr by blast
  have i1: "mm_inv s1" "free_count s \<le> Suc (free_count s1)"
    using s1 assms(1) init_bucket_desc_count [OF assms(1)] by (auto split: if_splits)
  obtain f h p s2 m h2 b where r: "get_free_page GFP_KERNEL (s1\<lparr>free_bucket_desc := f, descs := h\<rparr>) = Inr (p, s2)"
      "s' = s2\<lparr>mem := m, descs := h2, bucket_dir := b\<rparr>"
    using assms(2) s1 unfolding new_desc_def
    by (auto simp: bindR_eq_Inr Let_def split: if_splits)
  show ?thesis using get_free_page_count [OF _ r(1)] i1 r(2) by simp
qed

lemma kmalloc_count:
  assumes "mm_inv s" "kmalloc len s = Inr (x, s')"
  shows "free_count s \<le> free_count s' + 2"
proof -
  obtain f s0 where d: "disable_irqsave s = (f, s0)" by fastforce
  then have d0: "s0 = s\<lparr>DAIF := DAIF s0\<rparr>" by (auto simp: disable_irqsave_def msr_DAIFSet_def Let_def)
  have m0: "mm_inv s0" "free_count s0 = free_count s" by (subst d0, simp add: assms(1))+
  obtain k q e s1 s2 where r: "(if q = NULL then new_desc k s0 else Inr (q, s0)) = Inr (e, s1)"
      "take_object e s1 = Inr (x, s2)" "s' = enable_irqsave f s2"
    using assms(2) d unfolding kmalloc_def by (auto simp: bindR_eq_Inr)
  have "free_count s0 \<le> free_count s1 + 2" using r(1) new_desc_count [OF m0(1)] by (auto split: if_splits)
  moreover have "free_count s2 = free_count s1"
    using r(2) by (auto simp: take_object_def bindR_eq_Inr Let_def split: if_splits)
  moreover have "free_count s' = free_count s2" using r(3) by (auto simp: enable_irqsave_def msr_DAIFClr_def)
  ultimately show ?thesis using m0(2) by simp
qed

section \<open>Writing to a live object\<close>

text \<open>A free object and a live one share no byte.\<close>

lemma free_live_disjoint:
  assumes R: "km_rel s C Fd Fo" and "(x, n) \<in> live s" and k: "k < 9" "d \<in> set (C k)" "y \<in> set (Fo d)" and z: "in_block y (obj_size k) z"
  shows "\<not> in_block x n z"
proof
  assume xz: "in_block x n z"
  obtain j e where j: "j < 9" "n = obj_size j" "e \<in> set (C j)" "x \<in> set (slot_list (bd_page (desc_of s e)) j)" "x \<notin> set (Fo e)"
    using assms(2) live_iff [OF R] by auto
  have ys: "y \<in> set (slot_list (bd_page (desc_of s d)) k)" using km_relD(8) [OF R k(1,2)] k(3) by (auto simp: desc_ok_def)
  have in1: "in_page (bd_page (desc_of s e)) z" using block_in_page [OF j(1,4)] xz j(2) by simp
  have in2: "in_page (bd_page (desc_of s d)) z" using block_in_page [OF k(1) ys] z by simp
  have "bd_page (desc_of s e) \<in> page_pool" "bd_page (desc_of s d) \<in> page_pool"
    using km_relD(8) [OF R j(1,3)] km_relD(8) [OF R k(1,2)] used_pool_page by (auto simp: desc_ok_def)
  then have pp: "bd_page (desc_of s e) = bd_page (desc_of s d)" using pages_disjoint in1 in2 by blast
  then have ed: "e = d" using km_relD(9) [OF R] busyI j(1,3) k(1,2) by (metis inj_onD)
  then have jk: "j = k" using one_bucket [OF R j(1) k(1)] j(3) k(2) by blast
  have "x \<noteq> y" using j(5) k(3) ed by auto
  then show False using blocks_disjoint [OF k(1) _ ys] j(2,4) pp xz z jk by metis
qed

lemma live_write_rel:
  assumes R: "km_rel s C Fd Fo" and x: "(x, n) \<in> live s" and m: "\<And>z. \<not> in_block x n z \<Longrightarrow> m z = mem s z"
  shows "km_rel (s\<lparr>mem := m\<rparr>) C Fd Fo"
proof -
  let ?s = "s\<lparr>mem := m\<rparr>"
  have same: "load64 m y = load64 (mem s) y" if k: "k < 9" "d \<in> set (C k)" "y \<in> set (Fo d)" for k d y
  proof (rule load64_cong)
    fix i :: u64 assume i: "i < 8"
    then have "in_block y (obj_size k) (y + i)" using obj_size_bounds(1) [of k] k(1) by (simp add: in_block_def word_less_nat_alt)
    then show "m (y + i) = mem s (y + i)" using m free_live_disjoint [OF R x k] by blast
  qed
  have "desc_ok ?s k d (Fo d)" if "k < 9" "d \<in> set (C k)" for k d
    using km_relD(8) [OF R that] fchain_frame [of "mem s" _ "Fo d" m] same [OF that]
    by (auto simp: desc_ok_def desc_of_def)
  then show ?thesis using R by (simp add: km_rel_def desc_of_def obj_pages_def)
qed

lemma live_write:
  assumes I: "km_inv s" and x: "(x, n) \<in> live s" and m: "\<And>z. \<not> in_block x n z \<Longrightarrow> m z = mem s z"
  shows "km_inv (s\<lparr>mem := m\<rparr>)" "live (s\<lparr>mem := m\<rparr>) = live s"
proof -
  obtain C Fd Fo where R: "km_rel s C Fd Fo" using I by (auto simp: km_inv_def)
  note R' = live_write_rel [OF R x m]
  then show "km_inv (s\<lparr>mem := m\<rparr>)" by (auto simp: km_inv_def)
  show "live (s\<lparr>mem := m\<rparr>) = live s"
  proof (rule set_eqI)
    fix v show "v \<in> live (s\<lparr>mem := m\<rparr>) \<longleftrightarrow> v \<in> live s"
      using live_iff [OF R, of "fst v" "snd v"] live_iff [OF R', of "fst v" "snd v"] by (simp add: desc_of_def)
  qed
qed

section \<open>The buffer cache\<close>

text \<open>The 1024 bytes of a buffer are those of its block on the chip.\<close>

definition holds_block :: "('f \<Rightarrow> u64 \<Rightarrow> u8) \<Rightarrow> ('f, 'a) fs_state_scheme \<Rightarrow> buffer_head \<Rightarrow> bool" where
  "holds_block content s h \<longleftrightarrow> (\<forall>k < 1024. mem s (b_data h + of_nat k) =
     content (flash s) (PFLASH1_BASE + blk_no h * BLOCK_SZ + of_nat k))"

text \<open>
  The blocks in \<open>Z\<close> are those whose clean buffers must hold their block. Buffers of other blocks may be
  there several times over and may be stale: \<^verbatim>\<open>minix_raw_inode\<close> reads the block of an inode into a new
  buffer each time and never releases it, so that each call of \<^verbatim>\<open>minix_iget\<close> leaves one more buffer of
  that block, and a later \<^verbatim>\<open>minix_write_inode\<close> changes one of them only.
\<close>

definition buffer_ok :: "('f \<Rightarrow> u64 \<Rightarrow> u8) \<Rightarrow> u64 set \<Rightarrow> ('f, 'a) fs_state_scheme \<Rightarrow> u64 \<Rightarrow> bool" where
  "buffer_ok content Z s b \<longleftrightarrow> (\<exists>h n m. bhs s b = Some h \<and> bdevs s (b_bd h) \<noteq> None \<and> (b, n) \<in> live s \<and> (b_data h, m) \<in> live s \<and> 1024 \<le> m \<and>
     (b_state h = BH_Uptodate \<longrightarrow> blk_no h \<in> Z \<longrightarrow> holds_block content s h))"

definition data_of :: "('f, 'a) fs_state_scheme \<Rightarrow> u64 \<Rightarrow> u64" where
  "data_of s b = b_data (the (bhs s b))"

definition cache_inv ::
  "('f \<Rightarrow> u64 \<Rightarrow> u8) \<Rightarrow> ('f \<Rightarrow> bool) \<Rightarrow> u64 set \<Rightarrow> ('f, 'a) fs_state_scheme \<Rightarrow> u64 list \<Rightarrow> bool" where
  "cache_inv content ready Z s bs \<longleftrightarrow> km_inv s \<and> ready (flash s) \<and>
     dlist (lists s) (bh_head s) (map (\<lambda>b. b + lru_off) bs) \<and> (\<forall>p \<in> page_pool. \<not> in_page p (bh_head s)) \<and>
     distinct (bs @ map (data_of s) bs) \<and> (\<forall>b \<in> set bs. buffer_ok content Z s b)"

lemma data_apart:
  assumes "distinct (bs @ map (data_of s) bs)" "c \<in> set bs" "e \<in> set bs"
  shows "data_of s c \<noteq> e" "c \<noteq> e \<Longrightarrow> data_of s c \<noteq> data_of s e"
  using assms by (auto simp: distinct_map dest: inj_onD)

lemma fs_more_fields:
  fixes s s' :: "('f, 'a) fs_state_scheme"
  assumes "km_state.more s' = km_state.more s"
  shows "lists s' = lists s" "bhs s' = bhs s" "bh_head s' = bh_head s" "flash s' = flash s" "bdevs s' = bdevs s"
    "inodes s' = inodes s" "sbs s' = sbs s" "files s' = files s" "tasks s' = tasks s" "cregs s' = cregs s"
  using assms by (cases s; cases s'; simp)+

lemma km_inv_flash [simp]:
  fixes s :: "('f, 'a) fs_state_scheme"
  shows "km_inv (s\<lparr>flash := d\<rparr>) = km_inv s" "live (s\<lparr>flash := d\<rparr>) = live s"
    "km_inv (s\<lparr>bhs := b\<rparr>) = km_inv s" "live (s\<lparr>bhs := b\<rparr>) = live s"
    "free_count (s\<lparr>flash := d\<rparr>) = free_count s" "free_count (s\<lparr>bhs := b\<rparr>) = free_count s"
    "free_count (s\<lparr>lists := h\<rparr>) = free_count s"
  by (simp_all add: free_count_def km_inv_def km_rel_def desc_ok_def desc_of_def obj_pages_def live_def used_pages_def mm_inv_def)

lemma blocks_apart:
  fixes a b :: u64
  assumes "a < 2 ^ 54" "b < 2 ^ 54" "a \<noteq> b" "k < 1024" "j < 1024"
  shows "a * BLOCK_SZ + of_nat k \<noteq> b * BLOCK_SZ + of_nat j"
proof
  have u: "unat (a * BLOCK_SZ + of_nat k) = unat a * 1024 + k" if "a < 2 ^ 54" "k < 1024" for a :: u64 and k
    using that by (simp add: BLOCK_SZ_def unat_word_ariths unat_of_nat word_less_nat_alt)
  assume "a * BLOCK_SZ + of_nat k = b * BLOCK_SZ + of_nat j"
  then have "unat a * 1024 + k = unat b * 1024 + j" using u assms by metis
  then have "unat a = unat b" using assms(4,5) by linarith
  then show False using assms(3) by (simp add: word_unat_eq_iff)
qed

lemma block_byte: "k < 1024 \<Longrightarrow> 1024 \<le> n \<Longrightarrow> in_block x n (x + of_nat k)"
  by (simp add: in_block_def unat_of_nat)

text \<open>A step that leaves a buffer head, its objects, their bytes and its block alone.\<close>

lemma buffer_ok_frame:
  assumes "buffer_ok content Z s c" "bhs s' c = bhs s c" "bdevs s' = bdevs s"
    and "\<And>n. (c, n) \<in> live s \<Longrightarrow> (c, n) \<in> live s'"
    and "\<And>n. (data_of s c, n) \<in> live s \<Longrightarrow> (data_of s c, n) \<in> live s'"
    and "\<And>n z. (data_of s c, n) \<in> live s \<Longrightarrow> in_block (data_of s c) n z \<Longrightarrow> mem s' z = mem s z"
    and "\<And>k. blk_no (the (bhs s c)) \<in> Z \<Longrightarrow> k < 1024 \<Longrightarrow> content (flash s') (PFLASH1_BASE + blk_no (the (bhs s c)) * BLOCK_SZ + of_nat k) =
      content (flash s) (PFLASH1_BASE + blk_no (the (bhs s c)) * BLOCK_SZ + of_nat k)"
  shows "buffer_ok content Z s' c"
proof -
  obtain h n m where h: "bhs s c = Some h" "(c, n) \<in> live s" "(b_data h, m) \<in> live s" "1024 \<le> m"
      "b_state h = BH_Uptodate \<longrightarrow> blk_no h \<in> Z \<longrightarrow> holds_block content s h" "bdevs s (b_bd h) \<noteq> None"
    using assms(1) by (auto simp: buffer_ok_def)
  have d: "data_of s c = b_data h" using h(1) by (simp add: data_of_def)
  have "mem s' (b_data h + of_nat k) = mem s (b_data h + of_nat k)" if "k < 1024" for k
    using assms(6) [of m] h(3) block_byte [OF that h(4)] d by simp
  then have "b_state h = BH_Uptodate \<longrightarrow> blk_no h \<in> Z \<longrightarrow> holds_block content s' h"
    using h(1,5) assms(7) by (simp add: holds_block_def)
  then show ?thesis using h assms(2,3) assms(4) [OF h(2)] assms(5) [of m] d by (auto simp: buffer_ok_def)
qed

text \<open>The objects of the buffers in the list are live.\<close>

lemma cache_live:
  assumes "cache_inv content ready Z s bs" "c \<in> set bs"
  shows "\<exists>h. bhs s c = Some h \<and> data_of s c = b_data h" "c \<in> fst ` live s" "data_of s c \<in> fst ` live s"
proof -
  obtain h n m where "bhs s c = Some h" "(c, n) \<in> live s" "(b_data h, m) \<in> live s"
    using assms by (auto simp: cache_inv_def buffer_ok_def)
  then show "\<exists>h. bhs s c = Some h \<and> data_of s c = b_data h" "c \<in> fst ` live s" "data_of s c \<in> fst ` live s"
    by (force simp: data_of_def)+
qed

text \<open>
  What the operations of the cache leave alone: the objects in \<open>K\<close> and their bytes, and the records
  of the layers above.
\<close>

definition kept :: "(u64 \<times> nat) set \<Rightarrow> ('f, 'a) fs_state_scheme \<Rightarrow> ('f, 'a) fs_state_scheme \<Rightarrow> bool" where
  "kept K s s' \<longleftrightarrow> K \<subseteq> live s' \<and> (\<forall>y m z. (y, m) \<in> K \<longrightarrow> in_block y m z \<longrightarrow> mem s' z = mem s z) \<and>
     bdevs s' = bdevs s \<and> inodes s' = inodes s \<and> sbs s' = sbs s \<and> files s' = files s \<and> tasks s' = tasks s \<and> cregs s' = cregs s"

lemma kept_trans: "kept K s s1 \<Longrightarrow> kept K s1 s2 \<Longrightarrow> kept K s s2"
  by (simp add: kept_def)

lemma kept_mono: "kept K s s' \<Longrightarrow> L \<subseteq> K \<Longrightarrow> kept L s s'"
  unfolding kept_def by blast

lemma kept_refl: "K \<subseteq> live s \<Longrightarrow> kept K s s"
  by (simp add: kept_def)

text \<open>The two objects of a new buffer.\<close>

lemma bread_objects:
  fixes s :: "('f, 'a) fs_state_scheme"
  assumes inv: "km_inv s" and room: "4 \<le> free_count s"
  shows "\<exists>b nb s1 dat nd s2. kmalloc sizeof_buffer_head s = Inr (b, s1) \<and> kmalloc (ucast BLOCK_SZ) s1 = Inr (dat, s2) \<and>
    km_inv s2 \<and> 48 \<le> nb \<and> 1024 \<le> nd \<and> b \<notin> fst ` live s \<and> dat \<notin> insert b (fst ` live s) \<and>
    live s2 = insert (dat, nd) (insert (b, nb) (live s)) \<and> km_state.more s2 = km_state.more s \<and>
    free_count s \<le> free_count s2 + 4 \<and> (\<forall>y m z. (y, m) \<in> live s \<longrightarrow> in_block y m z \<longrightarrow> mem s2 z = mem s z)"
proof -
  have sz: "sizeof_buffer_head \<le> 4096" "(ucast BLOCK_SZ :: u32) \<le> 4096" "unat (ucast BLOCK_SZ :: u32) = 1024" "unat sizeof_buffer_head = 48"
    by (simp_all add: sizeof_buffer_head_def BLOCK_SZ_def)
  have mm: "mm_inv s" using inv by (auto simp: km_inv_def dest: km_relD(1))
  obtain b nb s1 where k1: "kmalloc sizeof_buffer_head s = Inr (b, s1)" "km_inv s1" "48 \<le> nb" "\<forall>m. (b, m) \<notin> live s"
      "live s1 = insert (b, nb) (live s)" "\<forall>y m z. (y, m) \<in> live s \<longrightarrow> in_block y m z \<longrightarrow> mem s1 z = mem s z"
    using km.alloc_law [OF inv _ sz(1)] room sz(4) by (auto simp: km_enough_def free_count_def)
  have room1: "km_enough s1" using kmalloc_count [OF mm k1(1)] room by (simp add: km_enough_def free_count_def)
  obtain dat nd s2 where k2: "kmalloc (ucast BLOCK_SZ) s1 = Inr (dat, s2)" "km_inv s2" "1024 \<le> nd" "\<forall>m. (dat, m) \<notin> live s1"
      "live s2 = insert (dat, nd) (live s1)" "\<forall>y m z. (y, m) \<in> live s1 \<longrightarrow> in_block y m z \<longrightarrow> mem s2 z = mem s1 z"
    using km.alloc_law [OF k1(2) room1 sz(2)] sz(3) by auto
  have "b \<notin> fst ` live s" "dat \<notin> insert b (fst ` live s)" using k1(4,5) k2(4) by auto
  moreover have "\<forall>y m z. (y, m) \<in> live s \<longrightarrow> in_block y m z \<longrightarrow> mem s2 z = mem s z"
    using k1(5,6) k2(6) by simp
  moreover have "free_count s \<le> free_count s2 + 4"
    using kmalloc_count [OF mm k1(1)] kmalloc_count [OF _ k2(1)] k1(2) by (auto simp: km_inv_def dest: km_relD(1))
  ultimately show ?thesis
    using k1(1,3,5) k2(1,2,3,5) kmalloc_more [OF k1(1)] kmalloc_more [OF k2(1)]
    by (intro exI [of _ b] exI [of _ nb] exI [of _ s1] exI [of _ dat] exI [of _ nd] exI [of _ s2]) simp
qed

lemma new_node_fresh:
  assumes "cache_inv content ready Z s bs" "b \<notin> fst ` live s" "km_inv t" "(b, nb) \<in> live t" "48 \<le> nb"
  shows "b + lru_off \<notin> set (bh_head s # map (\<lambda>b. b + lru_off) bs)"
proof -
  obtain C Fd Fo where R: "km_rel t C Fd Fo" using assms(3) by (auto simp: km_inv_def)
  have "in_block b nb (b + lru_off)" using assms(5) by (simp add: in_block_def lru_off_def)
  then obtain p where "p \<in> page_pool" "in_page p (b + lru_off)"
    using live_block_used [OF R assms(4)] used_pool_page by blast
  then have "b + lru_off \<noteq> bh_head s" using assms(1) by (auto simp: cache_inv_def)
  moreover have "b \<notin> set bs" using cache_live(2) [OF assms(1)] assms(2) by auto
  ultimately show ?thesis by auto
qed

definition matches :: "('f, 'a) fs_state_scheme \<Rightarrow> u64 \<Rightarrow> u64 \<Rightarrow> u64 \<Rightarrow> bool" where
  "matches s bd blk b \<longleftrightarrow> (\<exists>h. bhs s b = Some h \<and> blk_no h = blk \<and> b_bd h = bd)"

lemma scan_cache:
  assumes "\<forall>b \<in> set bs. bhs s b \<noteq> None"
  shows "iter_body (get_blk_body bd blk) (map (\<lambda>b. b + lru_off) bs) s = Inr (find (matches s bd blk) bs, s)"
  using assms
proof (induction bs)
  case Nil
  then show ?case by simp
next
  case (Cons b bs)
  then obtain h where "bhs s b = Some h" by auto
  then show ?case using Cons by (simp add: get_blk_body_def matches_def)
qed

lemma get_blk_scan:
  assumes "cache_inv content ready Z s bs"
  shows "get_blk fl bd blk s = (case find (matches s bd blk) bs of Some b \<Rightarrow> Inr (b, s) | None \<Rightarrow> bread fl bd blk s)"
proof -
  have d: "dlist (lists s) (bh_head s) (map (\<lambda>b. b + lru_off) bs)" and k: "\<forall>b \<in> set bs. bhs s b \<noteq> None"
    using assms by (auto simp: cache_inv_def buffer_ok_def)
  have "list_for_each lists (bh_head s) (get_blk_body bd blk) s = Inr (find (matches s bd blk) bs, s)"
    by (rule trans [OF list_for_each_iter [where lh = lists and xs = "map (\<lambda>b. b + lru_off) bs", OF d]])
      (auto simp: get_blk_body_def bindR_eq_Inr scan_cache [OF k])
  then show ?thesis by (simp add: get_blk_def split: option.splits)
qed

text \<open>The chip after the bytes of a buffer were programmed.\<close>

definition written_block :: "(u8 \<Rightarrow> u8 \<Rightarrow> u8) \<Rightarrow> memory \<Rightarrow> buffer_head \<Rightarrow> (u64 \<Rightarrow> u8) \<Rightarrow> u64 \<Rightarrow> u8" where
  "written_block pg m h f x = (let o' = x - pflash1_addr (blk_no h * BLOCK_SZ) in
     if unat o' < 1024 then pg (f x) (m (b_data h + o')) else f x)"

lemma written_block_state [simp]: "written_block pg m (h\<lparr>b_state := v\<rparr>) = written_block pg m h"
  by (cases h) (simp add: written_block_def fun_eq_iff Let_def)

lemma written_block_same:
  "k < 1024 \<Longrightarrow> written_block pg m h f (PFLASH1_BASE + blk_no h * BLOCK_SZ + of_nat k) =
     pg (f (PFLASH1_BASE + blk_no h * BLOCK_SZ + of_nat k)) (m (b_data h + of_nat k))"
  by (simp add: written_block_def pflash1_addr_def Let_def unat_of_nat)

lemma written_block_other:
  assumes "a < nr_blocks" "blk_no h < nr_blocks" "a \<noteq> blk_no h" "k < 1024"
  shows "written_block pg m h f (PFLASH1_BASE + a * BLOCK_SZ + of_nat k) = f (PFLASH1_BASE + a * BLOCK_SZ + of_nat k)"
proof -
  let ?x = "PFLASH1_BASE + a * BLOCK_SZ + of_nat k"
  let ?j = "unat (?x - pflash1_addr (blk_no h * BLOCK_SZ))"
  have "a < 2 ^ 54" "blk_no h < 2 ^ 54" using assms(1,2) by (simp_all add: word_less_nat_alt)
  moreover have "a * BLOCK_SZ + of_nat k = blk_no h * BLOCK_SZ + of_nat ?j" by (simp add: pflash1_addr_def)
  ultimately have "\<not> ?j < 1024" using blocks_apart assms(3,4) by blast
  then show ?thesis by (simp add: written_block_def)
qed

lemma kfree_room:
  assumes "km_inv s" "(x, n) \<in> live s" "kfree x s = Inr s'"
  shows "free_count s \<le> free_count s'"
proof -
  obtain C Fd Fo where "km_rel s C Fd Fo" using assms(1) by (auto simp: km_inv_def)
  then have "used_pages s' \<subseteq> used_pages s" using free_s_rel [OF _ assms(2)] assms(3) by (fastforce simp: kfree_def)
  then show ?thesis unfolding free_count_def by (intro card_mono) auto
qed

text \<open>Bytes of a buffer may change once it is marked dirty.\<close>

lemma cache_inv_dirty:
  fixes s :: "('f, 'a) fs_state_scheme"
  assumes I: "cache_inv content ready Z s bs" and b: "b \<in> set bs" "bhs s b = Some h"
    and m: "\<And>x. \<not> in_block (b_data h) 1024 x \<Longrightarrow> m x = mem s x"
  shows "cache_inv content ready Z (s\<lparr>mem := m, bhs := (bhs s)(b \<mapsto> h\<lparr>b_state := BH_Dirty\<rparr>)\<rparr>) bs"
    "live (s\<lparr>mem := m, bhs := (bhs s)(b \<mapsto> h\<lparr>b_state := BH_Dirty\<rparr>)\<rparr>) = live s"
    "free_count (s\<lparr>mem := m, bhs := (bhs s)(b \<mapsto> h\<lparr>b_state := BH_Dirty\<rparr>)\<rparr>) = free_count s"
proof -
  let ?s = "s\<lparr>mem := m, bhs := (bhs s)(b \<mapsto> h\<lparr>b_state := BH_Dirty\<rparr>)\<rparr>"
  have inv: "km_inv s" and dis: "distinct (bs @ map (data_of s) bs)" and bok: "\<forall>b \<in> set bs. buffer_ok content Z s b"
    using I by (auto simp: cache_inv_def)
  have db: "data_of s b = b_data h" using b(2) by (simp add: data_of_def)
  obtain n l where bl: "(b, n) \<in> live s" "(b_data h, l) \<in> live s" "1024 \<le> l" "bdevs s (b_bd h) \<noteq> None"
    using bok b by (fastforce simp: buffer_ok_def)
  have m': "m x = mem s x" if "\<not> in_block (b_data h) l x" for x using that bl(3) by (intro m) (simp add: in_block_def)
  note lw = live_write [OF inv bl(2) m']
  show live: "live ?s = live s" using lw(2) by simp
  show "free_count ?s = free_count s" by (simp add: free_count_def used_pages_def)
  have "buffer_ok content Z ?s b" unfolding buffer_ok_def live using bl by (auto simp: BH_Dirty_def BH_Uptodate_def)
  moreover have "buffer_ok content Z ?s c" if c: "c \<in> set bs" "c \<noteq> b" for c
  proof (rule buffer_ok_frame [of content Z s])
    show "mem ?s z = mem s z" if "(data_of s c, i) \<in> live s" "in_block (data_of s c) i z" for i z
      using m' [of z] km.objs_apart [OF inv that(1) bl(2)] that(2) data_apart(2) [OF dis c(1) b(1) c(2)] db by simp
  qed (use bok c live in auto)
  moreover have "map (data_of ?s) bs = map (data_of s) bs" using b(2) by (auto simp: data_of_def)
  then have "distinct (bs @ map (data_of ?s) bs)" using dis by metis
  ultimately show "cache_inv content ready Z ?s bs"
    using I lw(1) unfolding cache_inv_def by auto
qed

context flash_device
begin

lemma bread_ok:
  fixes s :: "('f, 'a) fs_state_scheme"
  assumes I: "cache_inv content ready Z s bs" and bd: "bdevs s bd \<noteq> None" and room: "4 \<le> free_count s" and blk: "blk < nr_blocks"
  shows "\<exists>b s'. bread fl bd blk s = Inr (b, s') \<and> cache_inv content ready Z s' (b # bs) \<and> content (flash s') = content (flash s) \<and>
    kept (live s) s s' \<and> free_count s \<le> free_count s' + 4 \<and> b \<notin> fst ` live s \<and> data_of s' b \<notin> fst ` live s \<and>
    (\<forall>c \<in> set bs. bhs s' c = bhs s c) \<and> (\<exists>h. bhs s' b = Some h \<and> blk_no h = blk \<and> b_bd h = bd \<and> b_state h = BH_Uptodate \<and> holds_block content s' h)"
proof -
  have inv: "km_inv s" and rdy: "ready (flash s)" and d: "dlist (lists s) (bh_head s) (map (\<lambda>b. b + lru_off) bs)"
    and dis: "distinct (bs @ map (data_of s) bs)" and bok: "\<forall>b \<in> set bs. buffer_ok content Z s b"
    using I by (auto simp: cache_inv_def)
  obtain b nb s1 dat nd s2 where k: "kmalloc sizeof_buffer_head s = Inr (b, s1)" "kmalloc (ucast BLOCK_SZ) s1 = Inr (dat, s2)"
      "km_inv s2" "48 \<le> nb" "1024 \<le> nd" "b \<notin> fst ` live s" "dat \<notin> insert b (fst ` live s)"
      "live s2 = insert (dat, nd) (insert (b, nb) (live s))" "km_state.more s2 = km_state.more s"
      "\<And>y m z. (y, m) \<in> live s \<Longrightarrow> in_block y m z \<Longrightarrow> mem s2 z = mem s z" "free_count s \<le> free_count s2 + 4"
    using bread_objects [OF inv room] by metis
  note mf = fs_more_fields [OF k(9)]
  obtain d' where rb: "pflash_read fl blk dat s2 = s2\<lparr>mem := (\<lambda>x. if unat (x - dat) < 1024
      then content (flash s) (PFLASH1_BASE + blk * BLOCK_SZ + (x - dat)) else mem s2 x), flash := d'\<rparr>"
      "ready d'" "content d' = content (flash s)"
    using read_block [of s2 blk dat, unfolded mf(4), OF rdy blk] by auto
  let ?m = "\<lambda>x. if unat (x - dat) < 1024 then content (flash s) (PFLASH1_BASE + blk * BLOCK_SZ + (x - dat)) else mem s2 x"
  let ?h = "\<lparr>b_state = BH_Uptodate, b_data = dat, b_bd = bd, blk_no = blk\<rparr>"
  have x: "b + lru_off \<notin> set (bh_head s # map (\<lambda>b. b + lru_off) bs)"
    using new_node_fresh [OF I k(6,3) _ k(4)] k(8) by simp
  obtain h' where h': "list_add (b + lru_off) (bh_head s) (make_node (b + lru_off) (lists s)) = Inr h'"
      "dlist h' (bh_head s) ((b + lru_off) # map (\<lambda>b. b + lru_off) bs)"
    using ll.add_law [OF dlist_make_node [OF d x] x] by blast
  let ?s' = "s2\<lparr>mem := ?m, flash := d', bhs := (bhs s)(b \<mapsto> ?h), lists := h'\<rparr>"
  have run: "bread fl bd blk s = Inr (b, ?s')"
    using k(1,2) bd rb(1) h'(1) mf by (auto simp: bread_def)
  have lw: "km_inv ?s'" "live ?s' = live s2"
    using live_write [OF k(3), of dat nd ?m] k(5,8) by (auto simp: in_block_def)
  have new: "holds_block content ?s' ?h"
    using rb(3) mf by (simp add: holds_block_def BLOCK_SZ_def unat_of_nat)
  have keep: "mem ?s' z = mem s z" if "(y, m) \<in> live s" "in_block y m z" for y m z
  proof -
    have "y \<noteq> dat" using that(1) k(7) by force
    then have "\<not> in_block dat nd z" using km.objs_apart [OF k(3), of y m dat nd z] that k(8) by auto
    then show ?thesis using k(10) [OF that] k(5) by (simp add: in_block_def)
  qed
  have old: "buffer_ok content Z ?s' c" if c: "c \<in> set bs" for c
    by (rule buffer_ok_frame [of content Z s]) (use keep bok c lw(2) k(6,8) rb(3) cache_live(2) [OF I c] mf(5) in auto)
  have "buffer_ok content Z ?s' b" using new lw(2) k(5,8) bd mf(5) by (auto simp: buffer_ok_def)
  moreover have "distinct ((b # bs) @ map (data_of ?s') (b # bs))"
  proof -
    have e: "map (data_of ?s') bs = map (data_of s) bs" using cache_live(2) [OF I] k(6) by (auto simp: data_of_def)
    have db: "data_of ?s' b = dat" by (simp add: data_of_def)
    show ?thesis using dis cache_live(2,3) [OF I] k(6,7) unfolding list.map e db by auto
  qed
  ultimately have "cache_inv content ready Z ?s' (b # bs)"
    using I old lw(1) rb(2) h'(2) mf by (auto simp: cache_inv_def)
  moreover have "kept (live s) s ?s'" using keep lw(2) k(8) mf by (auto simp: kept_def)
  moreover have "free_count s \<le> free_count ?s' + 4" using k(11) by (simp add: free_count_def used_pages_def)
  moreover have "b \<notin> fst ` live s \<and> data_of ?s' b \<notin> fst ` live s \<and> (\<forall>c \<in> set bs. bhs ?s' c = bhs s c)"
    using k(6,7) cache_live(2) [OF I] by (auto simp: data_of_def)
  ultimately show ?thesis using run new rb(3) by (intro exI [of _ b] exI [of _ ?s']) simp
qed

lemma get_blk_new:
  fixes s :: "('f, 'a) fs_state_scheme"
  assumes I: "cache_inv content ready Z s bs" and "bdevs s bd \<noteq> None" "4 \<le> free_count s" "blk < nr_blocks"
    and no: "\<And>c. c \<in> set bs \<Longrightarrow> \<not> matches s bd blk c"
  shows "\<exists>b s' h. get_blk fl bd blk s = Inr (b, s') \<and> cache_inv content ready Z s' (b # bs) \<and>
    content (flash s') = content (flash s) \<and> kept (live s) s s' \<and> free_count s \<le> free_count s' + 4 \<and>
    b \<notin> fst ` live s \<and> data_of s' b \<notin> fst ` live s \<and> (\<forall>c \<in> set bs. bhs s' c = bhs s c) \<and>
    bhs s' b = Some h \<and> blk_no h = blk \<and> b_bd h = bd \<and> b_state h = BH_Uptodate \<and> holds_block content s' h"
proof -
  have "find (matches s bd blk) bs = None" using no by (auto simp: find_None_iff)
  then show ?thesis using bread_ok [OF assms(1-4)] get_blk_scan [OF I, of fl bd blk] by fastforce
qed

lemma kept_buffer:
  assumes "cache_inv content ready Z s bs" "kept (live s) s s'" "c \<in> set bs" "k < 1024"
  shows "mem s' (data_of s c + of_nat k) = mem s (data_of s c + of_nat k)"
proof -
  obtain m where "(data_of s c, m) \<in> live s" "1024 \<le> m"
    using assms(1,3) by (fastforce simp: cache_inv_def buffer_ok_def data_of_def)
  then show ?thesis using assms(2) block_byte [OF assms(4)] unfolding kept_def by blast
qed

lemma get_blk_ok:
  fixes s :: "('f, 'a) fs_state_scheme"
  assumes I: "cache_inv content ready Z s bs" and "bdevs s bd \<noteq> None" "4 \<le> free_count s" "blk < nr_blocks"
  shows "\<exists>b s' bs' h. get_blk fl bd blk s = Inr (b, s') \<and> cache_inv content ready Z s' bs' \<and> b \<in> set bs' \<and>
    content (flash s') = content (flash s) \<and> free_count s \<le> free_count s' + 4 \<and> bhs s' b = Some h \<and> blk_no h = blk \<and> b_bd h = bd \<and>
    (if \<exists>c \<in> set bs. matches s bd blk c
     then s' = s \<and> bs' = bs \<and> (b_state h = BH_Uptodate \<longrightarrow> blk \<in> Z \<longrightarrow> holds_block content s' h)
     else bs' = b # bs \<and> b_state h = BH_Uptodate \<and> holds_block content s' h \<and>
       (\<forall>c \<in> set bs. bhs s' c = bhs s c \<and> (\<forall>k < 1024. mem s' (data_of s c + of_nat k) = mem s (data_of s c + of_nat k))) \<and>
       kept (live s) s s')"
proof (cases "find (matches s bd blk) bs")
  case None
  then have no: "\<not> (\<exists>c \<in> set bs. matches s bd blk c)" by (auto simp: find_None_iff)
  obtain b s' h where g: "get_blk fl bd blk s = Inr (b, s')" "cache_inv content ready Z s' (b # bs)"
      "content (flash s') = content (flash s)" "kept (live s) s s'" "\<forall>c \<in> set bs. bhs s' c = bhs s c" "free_count s \<le> free_count s' + 4"
      "bhs s' b = Some h" "blk_no h = blk" "b_bd h = bd" "b_state h = BH_Uptodate" "holds_block content s' h"
    using get_blk_new [OF assms] no by blast
  then show ?thesis using no kept_buffer [OF I g(4)]
    by (intro exI [of _ b] exI [of _ s'] exI [of _ "b # bs"] exI [of _ h]) simp
next
  case (Some c)
  then have c: "c \<in> set bs" "matches s bd blk c" by (auto simp: find_Some_iff)
  then obtain h where "bhs s c = Some h" "blk_no h = blk" "b_bd h = bd" by (auto simp: matches_def)
  moreover have "buffer_ok content Z s c" using I c(1) by (simp add: cache_inv_def)
  ultimately show ?thesis using get_blk_scan [OF I, of fl bd blk] Some c I
    by (intro exI [of _ c] exI [of _ s] exI [of _ bs] exI [of _ h]) (auto simp: buffer_ok_def)
qed

end

text \<open>The release of a buffer, given what the write back of a dirty one did to the chip.\<close>

lemma brelse_core:
  fixes s :: "('f, 'a) fs_state_scheme"
  assumes I: "cache_inv content ready Z s bs" and b: "b \<in> set bs" "bhs s b = Some h"
    and w: "(if b_state h = BH_Dirty then bindR (deref (bdevs s) (b_bd h)) (\<lambda>_. pflash_write fl (blk_no h) (b_data h) s)
        else Inr s) = Inr (s\<lparr>flash := d'\<rparr>)" "ready d'"
    and other: "\<And>c k. c \<in> set bs - {b} \<Longrightarrow> blk_no (the (bhs s c)) \<in> Z \<Longrightarrow> k < 1024 \<Longrightarrow>
      content d' (PFLASH1_BASE + blk_no (the (bhs s c)) * BLOCK_SZ + of_nat k) =
      content (flash s) (PFLASH1_BASE + blk_no (the (bhs s c)) * BLOCK_SZ + of_nat k)"
  shows "\<exists>s'. brelse fl b s = Inr s' \<and> cache_inv content ready Z s' (remove1 b bs) \<and>
    live s' = {p \<in> live s. fst p \<noteq> b \<and> fst p \<noteq> b_data h} \<and> kept (live s') s s' \<and> free_count s \<le> free_count s' \<and>
    bhs s' = (bhs s)(b := None) \<and> flash s' = d'"
proof -
  have inv: "km_inv s" and rdy: "ready (flash s)" and d: "dlist (lists s) (bh_head s) (map (\<lambda>b. b + lru_off) bs)"
    and dis: "distinct (bs @ map (data_of s) bs)" and bok: "\<forall>b \<in> set bs. buffer_ok content Z s b"
    using I by (auto simp: cache_inv_def)
  obtain n m where bl: "(b, n) \<in> live s" "(b_data h, m) \<in> live s" "bdevs s (b_bd h) \<noteq> None"
    using bok b by (fastforce simp: buffer_ok_def)
  have db: "data_of s b = b_data h" using b(2) by (simp add: data_of_def)
  then have hb: "b_data h \<noteq> b" using data_apart(1) [OF dis b(1) b(1)] by simp
  have i1: "km_inv (s\<lparr>flash := d'\<rparr>)" "(b_data h, m) \<in> live (s\<lparr>flash := d'\<rparr>)" using inv bl(2) by simp_all
  obtain s1 where k1: "kfree (b_data h) (s\<lparr>flash := d'\<rparr>) = Inr s1" "km_inv s1" "live s1 = live s - {(b_data h, m)}"
      "\<forall>z. \<not> in_block (b_data h) m z \<longrightarrow> mem s1 z = mem s z"
    using km.release_law [OF i1] by auto
  obtain h' where h': "list_del (b + lru_off) (lists s) = Inr h'" "dlist h' (bh_head s) (map (\<lambda>b. b + lru_off) (remove1 b bs))"
    using ll.del_law [OF d, of "b + lru_off"] b(1) by (auto simp: remove1_map_add)
  have i2: "km_inv (s1\<lparr>lists := h'\<rparr>)" "(b, n) \<in> live (s1\<lparr>lists := h'\<rparr>)" using k1(2,3) bl(1) hb by auto
  obtain s2 where k2: "kfree b (s1\<lparr>lists := h'\<rparr>) = Inr s2" "km_inv s2" "live s2 = live s1 - {(b, n)}"
      "\<forall>z. \<not> in_block b n z \<longrightarrow> mem s2 z = mem s1 z"
    using km.release_law [OF i2] by auto
  note mf = fs_more_fields [OF free_s_more [OF k1(1) [unfolded kfree_def]]] fs_more_fields [OF free_s_more [OF k2(1) [unfolded kfree_def]]]
  let ?s' = "s2\<lparr>bhs := (bhs s)(b := None), lists := drop_node (b + lru_off) h'\<rparr>"
  have run: "brelse fl b s = Inr ?s'"
    using b(2) w(1) k1(1) h'(1) k2(1) mf by (simp add: brelse_def)
  have live': "live ?s' = {p \<in> live s. fst p \<noteq> b \<and> fst p \<noteq> b_data h}"
  proof (rule set_eqI)
    fix p show "p \<in> live ?s' \<longleftrightarrow> p \<in> {p \<in> live s. fst p \<noteq> b \<and> fst p \<noteq> b_data h}"
      using k1(3) k2(3) km.objs_functional [OF inv bl(1), of "snd p"] km.objs_functional [OF inv bl(2), of "snd p"]
      by (cases p) auto
  qed
  have room: "free_count s \<le> free_count ?s'" using kfree_room [OF i1 k1(1)] kfree_room [OF i2 k2(1)] by simp
  have keep: "mem ?s' z = mem s z" if "(y, i) \<in> live ?s'" "in_block y i z" for y i z
    using that live' k1(4) k2(4) km.objs_apart [OF inv _ bl(2), of y i z] km.objs_apart [OF inv _ bl(1), of y i z] by auto
  have old: "buffer_ok content Z ?s' c" if c: "c \<in> set bs" "c \<noteq> b" for c
  proof (rule buffer_ok_frame [of content Z s])
    note ne = data_apart(1) [OF dis b(1) c(1)] data_apart(1) [OF dis c(1) b(1)] data_apart(2) [OF dis c(1) b(1) c(2)]
    show "bhs ?s' c = bhs s c" using c(2) by simp
    show "(c, i) \<in> live ?s'" if "(c, i) \<in> live s" for i unfolding live' using that c(2) ne db by simp
    show "(data_of s c, i) \<in> live ?s'" if "(data_of s c, i) \<in> live s" for i unfolding live' using that ne db by simp
    show "mem ?s' z = mem s z" if "(data_of s c, i) \<in> live s" "in_block (data_of s c) i z" for i z
      using keep [of "data_of s c" i z] that ne db unfolding live' by simp
    show "content (flash ?s') (PFLASH1_BASE + blk_no (the (bhs s c)) * BLOCK_SZ + of_nat k) =
        content (flash s) (PFLASH1_BASE + blk_no (the (bhs s c)) * BLOCK_SZ + of_nat k)" if "blk_no (the (bhs s c)) \<in> Z" "k < 1024" for k
      using other [of c k] c that mf by auto
  qed (use bok c mf in auto)
  have nt: "b + lru_off \<notin> set (bh_head s # map (\<lambda>b. b + lru_off) (remove1 b bs))"
    using dlist_distinct [OF d] imageI [OF b(1), of "\<lambda>b. b + lru_off"] dis by auto
  have "map (data_of ?s') (remove1 b bs) = map (data_of s) (remove1 b bs)" using dis by (auto simp: data_of_def)
  moreover have "distinct (remove1 b bs @ map (data_of s) (remove1 b bs))"
    using dis set_remove1_subset [of b bs] by (auto simp: distinct_map intro: inj_on_subset)
  ultimately have "distinct (remove1 b bs @ map (data_of ?s') (remove1 b bs))" by metis
  then have "cache_inv content ready Z ?s' (remove1 b bs)"
    using I k2(2) w(2) old dis mf dlist_drop_node [OF h'(2) nt] by (auto simp: cache_inv_def)
  moreover have "kept (live ?s') s ?s'" using keep mf by (simp add: kept_def)
  moreover have "flash ?s' = d'" using mf by simp
  ultimately show ?thesis using run live' room by (intro exI [of _ ?s']) simp
qed

lemma brelse_clean_buffer:
  fixes s :: "('f, 'a) fs_state_scheme"
  assumes "cache_inv content ready Z s bs" "b \<in> set bs" "bhs s b = Some h" "b_state h \<noteq> BH_Dirty"
  shows "\<exists>s'. brelse fl b s = Inr s' \<and> cache_inv content ready Z s' (remove1 b bs) \<and>
    live s' = {p \<in> live s. fst p \<noteq> b \<and> fst p \<noteq> b_data h} \<and> kept (live s') s s' \<and> free_count s \<le> free_count s' \<and>
    bhs s' = (bhs s)(b := None) \<and> flash s' = flash s"
  by (rule brelse_core [OF assms(1-3)]) (use assms in \<open>simp_all add: cache_inv_def\<close>)

context flash_untimed
begin

lemma brelse_dirty_buffer:
  fixes s :: "('f, 'a) fs_state_scheme"
  assumes I: "cache_inv content ready Z s bs" and b: "b \<in> set bs" "bhs s b = Some h" and d: "b_state h = BH_Dirty"
    and small: "Z \<subseteq> {..<nr_blocks}" "blk_no h < nr_blocks"
    and other: "\<And>c. c \<in> set bs - {b} \<Longrightarrow> blk_no (the (bhs s c)) \<in> Z \<Longrightarrow> blk_no (the (bhs s c)) \<noteq> blk_no h"
  shows "\<exists>s'. brelse fl b s = Inr s' \<and> cache_inv content ready Z s' (remove1 b bs) \<and>
    live s' = {p \<in> live s. fst p \<noteq> b \<and> fst p \<noteq> b_data h} \<and> kept (live s') s s' \<and> free_count s \<le> free_count s' \<and>
    bhs s' = (bhs s)(b := None) \<and> content (flash s') = written_block prog (mem s) h (content (flash s))"
proof -
  have rdy: "ready (flash s)" and bd: "bdevs s (b_bd h) \<noteq> None"
    using I b by (auto simp: cache_inv_def buffer_ok_def)
  obtain d' where w: "pflash_write fl (blk_no h) (b_data h) s = Inr (s\<lparr>flash := d'\<rparr>)" "ready d'"
      "content d' = written_block prog (mem s) h (content (flash s))"
    using write_block [OF rdy small(2), of "b_data h"] by (auto simp: written_block_def [abs_def] Let_def)
  have "(if b_state h = BH_Dirty then bindR (deref (bdevs s) (b_bd h)) (\<lambda>_. pflash_write fl (blk_no h) (b_data h) s)
      else Inr s) = Inr (s\<lparr>flash := d'\<rparr>)" using d bd w(1) by auto
  from brelse_core [OF I b this w(2)] show ?thesis
    using w(3) written_block_other [OF _ small(2)] other small(1) by fastforce
qed

end

section \<open>Properties\<close>

text \<open>C11: On a flash chip with the documented behaviour and with four free pages, \<^verbatim>\<open>get_blk\<close> of a block
  of the chip returns a buffer of that block and of the asked device. If the list has such a
  buffer, one of them is returned and nothing changes at all; if it is clean and its block is one of those whose buffers are not stale,
  it holds the bytes of the block. Otherwise a new clean buffer with the bytes of the block is at the head of the list,
  before the old buffers, which keep their heads and all their bytes, as does every other object of the
  allocator and every record of the file system. In both cases the chip keeps its content and at most four pages are taken.\<close>

theorem get_blk_returns_block:
  fixes s :: "('f, 'a) fs_state_scheme"
  assumes "flash_device fl content ready status polls prog" "cache_inv content ready Z s bs" "bdevs s bd \<noteq> None" "4 \<le> free_count s"
    and "blk < nr_blocks"
  shows "\<exists>b s' bs' h. get_blk fl bd blk s = Inr (b, s') \<and> cache_inv content ready Z s' bs' \<and> b \<in> set bs' \<and>
    content (flash s') = content (flash s) \<and> free_count s \<le> free_count s' + 4 \<and> bhs s' b = Some h \<and> blk_no h = blk \<and> b_bd h = bd \<and>
    (if \<exists>c \<in> set bs. matches s bd blk c
     then s' = s \<and> bs' = bs \<and> (b_state h = BH_Uptodate \<longrightarrow> blk \<in> Z \<longrightarrow> holds_block content s' h)
     else bs' = b # bs \<and> b_state h = BH_Uptodate \<and> holds_block content s' h \<and>
       (\<forall>c \<in> set bs. bhs s' c = bhs s c \<and> (\<forall>k < 1024. mem s' (data_of s c + of_nat k) = mem s (data_of s c + of_nat k))) \<and>
       kept (live s) s s')"
  using flash_device.get_blk_ok [OF assms] .

text \<open>The kernel after boot with an empty list of buffers, an open file and a flash chip in read mode.\<close>

definition blank_inode :: inode where
  "blank_inode = \<lparr>i_mode = 0, i_uid = 0, i_gid = 0, i_size = 0, i_atime = 0, i_mtime = 0, i_ctime = 0, i_state = 0,
     i_nlink = 0, i_ino = 0, i_op = No_operations, i_sb = NULL, i_count = 0, i_data = replicate 16 0\<rparr>"

definition boot_fs :: "chip fs_state" where
  "boot_fs = task_state.extend (boot_task\<lparr>lists := \<lparr>prv = (prv (lists boot_task))(0xffff000000092000 \<mapsto> 0xffff000000092000),
       nxt = (nxt (lists boot_task))(0xffff000000092000 \<mapsto> 0xffff000000092000)\<rparr>\<rparr>)
     (fs_state.fields Map.empty
       [0xffff000000096000 \<mapsto> blank_inode\<lparr>i_size := 20000, i_op := Minix_inode_operations, i_sb := 0xffff000000095000, i_data := [3, 4, 5, 6, 7, 8, 9, 40, 0]\<rparr>]
       [0xffff000000095000 \<mapsto> \<lparr>s_bd = 0xffff000000093000, s_fs_info = NULL\<rparr>]
       [0xffff000000093000 \<mapsto> \<lparr>nr_blk = 65536, bd_sb = 0xffff000000095000\<rparr>] Map.empty
       [0xffff000000094000 \<mapsto> \<lparr>f_inode = 0xffff000000096000, f_count = 1, f_flags = 0, f_pos = 100\<rparr>]
       0xffff000000094000 0xffff000000092000 0xffff000000093000 0xffff000000096000 (\<lambda>_. blank_inode)
       \<lparr>chip_mode = Read_array, chip_array = (\<lambda>a. ucast (drop_bit 10 a))\<rparr> [])"

lemma boot_fs_fields:
  "console boot_fs = []" "prv (lists boot_fs) 0xffff000000092000 = Some 0xffff000000092000" "nxt (lists boot_fs) 0xffff000000092000 = Some 0xffff000000092000"
  "bhs boot_fs = Map.empty" "bh_head boot_fs = 0xffff000000092000" "chip_mode (flash boot_fs) = Read_array"
  "inodes boot_fs = [0xffff000000096000 \<mapsto> blank_inode\<lparr>i_size := 20000, i_op := Minix_inode_operations, i_sb := 0xffff000000095000, i_data := [3, 4, 5, 6, 7, 8, 9, 40, 0]\<rparr>]"
  "sbs boot_fs = [0xffff000000095000 \<mapsto> \<lparr>s_bd = 0xffff000000093000, s_fs_info = NULL\<rparr>]"
  "bdevs boot_fs = [0xffff000000093000 \<mapsto> \<lparr>nr_blk = 65536, bd_sb = 0xffff000000095000\<rparr>]"
  "files boot_fs = [0xffff000000094000 \<mapsto> \<lparr>f_inode = 0xffff000000096000, f_count = 1, f_flags = 0, f_pos = 100\<rparr>]"
  by (simp_all add: boot_fs_def task_state.defs fs_state.defs)

lemma boot_fs_tasks:
  "tasks boot_fs = tasks boot_task" "get_current boot_fs = 0xffff000000091000" "running boot_fs = 0xffff000000091000"
  using boot_running by (simp_all add: boot_fs_def task_state.defs fs_state.defs get_current_def running_def boot_task_def timer_state.defs)

lemma boot_fs_sched: "sched_inv boot_fs [0xffff000000091000]"
  by (simp add: sched_inv_def boot_fs_tasks boot_task_fields dlist_def list_off_def zero_task_def)
    (simp add: boot_fs_def task_state.defs fs_state.defs boot_task_fields)

lemma boot_fs_km: "km_inv boot_fs" "free_count boot_fs = 3840"
proof -
  have "km_inv fresh_timer" using fresh_timer_inv by (simp add: timer_inv_def)
  then show "km_inv boot_fs" "free_count boot_fs = 3840" using fresh_timer_room
    by (simp_all add: boot_fs_def task_state.defs fs_state.defs boot_task_def timer_state.defs km_inv_def km_rel_def desc_ok_def
        desc_of_def obj_pages_def live_def used_pages_def mm_inv_def free_count_def)
qed

lemma boot_fs_cache: "cache_inv chip_array chip_ready Z boot_fs []"
  using boot_fs_km(1) static_not_pool by (simp add: cache_inv_def boot_fs_fields dlist_def)

text \<open>
  The list of buffers after two calls of \<^verbatim>\<open>bread\<close> for the same block, as two calls of \<^verbatim>\<open>minix_iget\<close> make
  for two inodes of one block.
\<close>

lemma boot_fs_twice:
  assumes "blk < nr_blocks"
  shows "\<exists>c e s. bindR (bread sim_flash 0xffff000000093000 blk boot_fs) (\<lambda>(c, s). bread sim_flash 0xffff000000093000 blk s) = Inr (e, s) \<and>
    cache_inv chip_array chip_ready UNIV s [e, c] \<and> chip_array (flash s) = chip_array (flash boot_fs) \<and> kept (live boot_fs) boot_fs s \<and>
    3832 \<le> free_count s \<and> (\<forall>b \<in> {c, e}. \<exists>h. bhs s b = Some h \<and> blk_no h = blk \<and> b_bd h = 0xffff000000093000 \<and> b_state h = BH_Uptodate)"
proof -
  let ?bd = "0xffff000000093000 :: u64"
  obtain c s1 h1 where r1: "bread sim_flash ?bd blk boot_fs = Inr (c, s1)" "cache_inv chip_array chip_ready UNIV s1 [c]"
      "chip_array (flash s1) = chip_array (flash boot_fs)" "kept (live boot_fs) boot_fs s1" "free_count boot_fs \<le> free_count s1 + 4"
      "bhs s1 c = Some h1" "blk_no h1 = blk" "b_bd h1 = ?bd" "b_state h1 = BH_Uptodate"
    using sim.bread_ok [OF boot_fs_cache, of ?bd blk UNIV] assms by (auto simp: boot_fs_fields boot_fs_km)
  have bd: "bdevs s1 ?bd \<noteq> None" "4 \<le> free_count s1" using r1(4,5) by (simp_all add: kept_def boot_fs_fields boot_fs_km)
  obtain e s2 h2 where r2: "bread sim_flash ?bd blk s1 = Inr (e, s2)" "cache_inv chip_array chip_ready UNIV s2 [e, c]"
      "chip_array (flash s2) = chip_array (flash s1)" "kept (live s1) s1 s2" "free_count s1 \<le> free_count s2 + 4" "bhs s2 c = bhs s1 c"
      "bhs s2 e = Some h2" "blk_no h2 = blk" "b_bd h2 = ?bd" "b_state h2 = BH_Uptodate"
    using sim.bread_ok [OF r1(2) bd assms] by auto
  have "live boot_fs \<subseteq> live s1" using r1(4) by (simp add: kept_def)
  then have "kept (live boot_fs) boot_fs s2" using r1(4) kept_mono [OF r2(4)] kept_trans by blast
  moreover have "3832 \<le> free_count s2" using r1(5) r2(5) boot_fs_km(2) by simp
  ultimately show ?thesis using r1 r2 by (intro exI [of _ c] exI [of _ e] exI [of _ s2]) simp
qed

theorem get_blk_returns_block_witness:
  "\<exists>c e s b s'. bindR (bread sim_flash 0xffff000000093000 5 boot_fs) (\<lambda>(c, s). bread sim_flash 0xffff000000093000 5 s) = Inr (e, s) \<and>
     get_blk sim_flash 0xffff000000093000 7 s = Inr (b, s') \<and> cache_inv chip_array chip_ready UNIV s' [b, e, c]"
proof -
  obtain c e s where r: "bindR (bread sim_flash 0xffff000000093000 5 boot_fs) (\<lambda>(c, s). bread sim_flash 0xffff000000093000 5 s) = Inr (e, s)"
      "cache_inv chip_array chip_ready UNIV s [e, c]" "kept (live boot_fs) boot_fs s" "3832 \<le> free_count s"
      "\<forall>b \<in> {c, e}. \<exists>h. bhs s b = Some h \<and> blk_no h = 5 \<and> b_bd h = 0xffff000000093000 \<and> b_state h = BH_Uptodate"
    using boot_fs_twice [of 5] by auto
  have "bdevs s 0xffff000000093000 \<noteq> None" "4 \<le> free_count s" using r(3,4) by (simp_all add: kept_def boot_fs_fields)
  from get_blk_returns_block [OF sim.flash_device_axioms r(2) this, of 7]
  obtain b s' where "get_blk sim_flash 0xffff000000093000 7 s = Inr (b, s')" "cache_inv chip_array chip_ready UNIV s' [b, e, c]"
    using r(5) by (auto simp: matches_def)
  then show ?thesis using r(1) by blast
qed

end
