(* ===== verification/Gic.thy ===== *)
theory Gic
  imports Prelude
begin

text \<open>
  \<^verbatim>\<open>arch/gic_v3.c\<close>: the driver of the interrupt controller. The controller itself is hardware:
  it is a parameter \<open>bus\<close> of every definition, a read and a write of a 32-bit device register
  on a device state of any type \<open>'d\<close>. A read may change the device, as a read of the
  acknowledge register does.

  The locale \<open>gic_device\<close> states what the driver relies on: the documented behaviour of the
  registers of a GIC distributor and CPU interface, over a view of the device state. The
  lemmas about the driver are proved in the locale, and \<open>pl390\<close>, a register file that decodes
  the addresses of the header, satisfies its laws.

  An interrupt number is a \<^verbatim>\<open>int\<close> that is never negative: it is a \<open>nat\<close> here.
\<close>

section \<open>Registers\<close>

record 'd gic_bus =
  rd32 :: "u64 \<Rightarrow> 'd \<Rightarrow> u32 \<times> 'd"
  wr32 :: "u64 \<Rightarrow> u32 \<Rightarrow> 'd \<Rightarrow> 'd"

definition GIC_BASE :: u64 where "GIC_BASE = 0xffff00003fe00000"
definition GIC_INT_MAX :: nat where "GIC_INT_MAX = 64"
definition GIC_INTNO_PPI0 :: nat where "GIC_INTNO_PPI0 = 16"
definition GIC_INTNO_SPI0 :: nat where "GIC_INTNO_SPI0 = 32"
definition GIC_PRI_SHIFT :: nat where "GIC_PRI_SHIFT = 4"
definition TIMER_IRQ :: nat where "TIMER_IRQ = 27"

definition GIC_GICD_BASE :: u64 where "GIC_GICD_BASE = GIC_BASE"
definition GIC_GICC_BASE :: u64 where "GIC_GICC_BASE = GIC_BASE + 0x10000"

definition GIC_GICD_INT_PER_REG :: nat where "GIC_GICD_INT_PER_REG = 32"
definition GIC_GICD_IPRIORITY_PER_REG :: nat where "GIC_GICD_IPRIORITY_PER_REG = 4"
definition GIC_GICD_IPRIORITY_SIZE_PER_REG :: nat where "GIC_GICD_IPRIORITY_SIZE_PER_REG = 8"
definition GIC_GICD_ITARGETSR_CORE0_TARGET_BMAP :: u32 where
  "GIC_GICD_ITARGETSR_CORE0_TARGET_BMAP = 0x01010101"
definition GIC_GICD_ITARGETSR_PER_REG :: nat where "GIC_GICD_ITARGETSR_PER_REG = 4"
definition GIC_GICD_ITARGETSR_SIZE_PER_REG :: nat where "GIC_GICD_ITARGETSR_SIZE_PER_REG = 8"
definition GIC_GICD_ICFGR_PER_REG :: nat where "GIC_GICD_ICFGR_PER_REG = 16"
definition GIC_GICD_ICFGR_SIZE_PER_REG :: nat where "GIC_GICD_ICFGR_SIZE_PER_REG = 2"
definition GIC_GICD_ICENABLER_PER_REG :: nat where "GIC_GICD_ICENABLER_PER_REG = 32"
definition GIC_GICD_ISENABLER_PER_REG :: nat where "GIC_GICD_ISENABLER_PER_REG = 32"
definition GIC_GICD_ICPENDR_PER_REG :: nat where "GIC_GICD_ICPENDR_PER_REG = 32"
definition GIC_GICD_ISPENDR_PER_REG :: nat where "GIC_GICD_ISPENDR_PER_REG = 32"

definition GIC_GICC_CTLR :: u64 where "GIC_GICC_CTLR = GIC_GICC_BASE + 0x000"
definition GIC_GICC_PMR :: u64 where "GIC_GICC_PMR = GIC_GICC_BASE + 0x004"
definition GIC_GICC_BPR :: u64 where "GIC_GICC_BPR = GIC_GICC_BASE + 0x008"
definition GIC_GICC_IAR :: u64 where "GIC_GICC_IAR = GIC_GICC_BASE + 0x00C"
definition GIC_GICC_EOIR :: u64 where "GIC_GICC_EOIR = GIC_GICC_BASE + 0x010"

definition GICC_CTLR_ENABLE :: u32 where "GICC_CTLR_ENABLE = 0x1"
definition GICC_CTLR_DISABLE :: u32 where "GICC_CTLR_DISABLE = 0x0"
definition GICC_PMR_PRIO_MIN :: u32 where "GICC_PMR_PRIO_MIN = 0xff"
definition GICC_BPR_NO_GROUP :: u32 where "GICC_BPR_NO_GROUP = 0x0"
definition GICC_IAR_INTR_IDMASK :: u32 where "GICC_IAR_INTR_IDMASK = 0x3ff"
definition GICC_IAR_SPURIOUS_INTR :: u32 where "GICC_IAR_SPURIOUS_INTR = 0x3ff"

definition GIC_GICD_CTLR :: u64 where "GIC_GICD_CTLR = GIC_GICD_BASE + 0x000"
definition GIC_GICD_ISENABLER :: "nat \<Rightarrow> u64" where "GIC_GICD_ISENABLER n = GIC_GICD_BASE + 0x100 + of_nat n * 4"
definition GIC_GICD_ICENABLER :: "nat \<Rightarrow> u64" where "GIC_GICD_ICENABLER n = GIC_GICD_BASE + 0x180 + of_nat n * 4"
definition GIC_GICD_ISPENDR :: "nat \<Rightarrow> u64" where "GIC_GICD_ISPENDR n = GIC_GICD_BASE + 0x200 + of_nat n * 4"
definition GIC_GICD_ICPENDR :: "nat \<Rightarrow> u64" where "GIC_GICD_ICPENDR n = GIC_GICD_BASE + 0x280 + of_nat n * 4"
definition GIC_GICD_IPRIORITYR :: "nat \<Rightarrow> u64" where "GIC_GICD_IPRIORITYR n = GIC_GICD_BASE + 0x400 + of_nat n * 4"
definition GIC_GICD_ITARGETSR :: "nat \<Rightarrow> u64" where "GIC_GICD_ITARGETSR n = GIC_GICD_BASE + 0x800 + of_nat n * 4"
definition GIC_GICD_ICFGR :: "nat \<Rightarrow> u64" where "GIC_GICD_ICFGR n = GIC_GICD_BASE + 0xc00 + of_nat n * 4"

definition GIC_GICD_CTLR_ENABLE :: u32 where "GIC_GICD_CTLR_ENABLE = 0x1"
definition GIC_GICD_CTLR_DISABLE :: u32 where "GIC_GICD_CTLR_DISABLE = 0x0"
definition GIC_GICD_ICFGR_LEVEL :: u32 where "GIC_GICD_ICFGR_LEVEL = 0x0"
definition GIC_GICD_ICFGR_EDGE :: u32 where "GIC_GICD_ICFGR_EDGE = 0x2"

definition IRQ_FOUND :: int where "IRQ_FOUND = 1"
definition IRQ_NOT_FOUND :: int where "IRQ_NOT_FOUND = 0"

lemmas gic_addr_defs =
  GIC_BASE_def GIC_GICD_BASE_def GIC_GICC_BASE_def GIC_GICC_CTLR_def GIC_GICC_PMR_def GIC_GICC_BPR_def
  GIC_GICC_IAR_def GIC_GICC_EOIR_def GIC_GICD_CTLR_def GIC_GICD_ISENABLER_def GIC_GICD_ICENABLER_def
  GIC_GICD_ISPENDR_def GIC_GICD_ICPENDR_def GIC_GICD_IPRIORITYR_def GIC_GICD_ITARGETSR_def GIC_GICD_ICFGR_def

lemmas gic_size_defs =
  GIC_INT_MAX_def GIC_INTNO_PPI0_def GIC_INTNO_SPI0_def GIC_PRI_SHIFT_def TIMER_IRQ_def
  GIC_GICD_INT_PER_REG_def GIC_GICD_IPRIORITY_PER_REG_def GIC_GICD_IPRIORITY_SIZE_PER_REG_def
  GIC_GICD_ITARGETSR_PER_REG_def GIC_GICD_ITARGETSR_SIZE_PER_REG_def GIC_GICD_ICFGR_PER_REG_def
  GIC_GICD_ICFGR_SIZE_PER_REG_def GIC_GICD_ICENABLER_PER_REG_def GIC_GICD_ISENABLER_PER_REG_def
  GIC_GICD_ICPENDR_PER_REG_def GIC_GICD_ISPENDR_PER_REG_def

lemmas gic_val_defs =
  GICC_CTLR_ENABLE_def GICC_CTLR_DISABLE_def GICC_PMR_PRIO_MIN_def GICC_BPR_NO_GROUP_def
  GICC_IAR_INTR_IDMASK_def GICC_IAR_SPURIOUS_INTR_def GIC_GICD_CTLR_ENABLE_def GIC_GICD_CTLR_DISABLE_def
  GIC_GICD_ICFGR_LEVEL_def GIC_GICD_ICFGR_EDGE_def GIC_GICD_ITARGETSR_CORE0_TARGET_BMAP_def

section \<open>Driver\<close>

text \<open>
  The loop that drains the acknowledge register. Its condition and its body each read the
  register. There are fewer than 1024 interrupt numbers, the fuel of the loop.
\<close>

fun drain_iar :: "nat \<Rightarrow> 'd gic_bus \<Rightarrow> 'd \<Rightarrow> 'd res" where
  "drain_iar 0 bus d = Inl Out_of_fuel"
| "drain_iar (Suc fuel) bus d =
     (let (pending_irq, d) = rd32 bus GIC_GICC_IAR d in
      if pending_irq AND GICC_IAR_INTR_IDMASK \<noteq> GICC_IAR_SPURIOUS_INTR then
        let (v, d) = rd32 bus GIC_GICC_IAR d; d = wr32 bus GIC_GICC_EOIR v d
        in drain_iar fuel bus d
      else Inr d)"

definition iar_fuel :: nat where "iar_fuel = 1024"

definition init_gicc :: "'d gic_bus \<Rightarrow> 'd \<Rightarrow> 'd res" where
  "init_gicc bus d =
     (let d = wr32 bus GIC_GICC_CTLR GICC_CTLR_DISABLE d;
          d = wr32 bus GIC_GICC_PMR GICC_PMR_PRIO_MIN d;
          d = wr32 bus GIC_GICC_BPR GICC_BPR_NO_GROUP d
      in bindR (drain_iar iar_fuel bus d) (\<lambda>d.
         Inr (wr32 bus GIC_GICC_CTLR GICC_CTLR_ENABLE d)))"

definition init_gicd :: "'d gic_bus \<Rightarrow> 'd \<Rightarrow> 'd" where
  "init_gicd bus d =
     (let d = wr32 bus GIC_GICD_CTLR GIC_GICD_CTLR_DISABLE d;
          regs_nr = (GIC_INT_MAX + GIC_GICD_INT_PER_REG - 1) div GIC_GICD_INT_PER_REG;
          d = fold (\<lambda>i. wr32 bus (GIC_GICD_ICENABLER i) (NOT 0)) [0 ..< regs_nr] d;
          regs_nr = (GIC_INT_MAX + GIC_GICD_INT_PER_REG - 1) div GIC_GICD_INT_PER_REG;
          d = fold (\<lambda>i. wr32 bus (GIC_GICD_ICPENDR i) (NOT 0)) [0 ..< regs_nr] d;
          regs_nr = (GIC_INT_MAX + GIC_GICD_IPRIORITY_PER_REG - 1) div GIC_GICD_IPRIORITY_PER_REG;
          d = fold (\<lambda>i. wr32 bus (GIC_GICD_IPRIORITYR i) (NOT 0)) [0 ..< regs_nr] d;
          d = fold (\<lambda>i. wr32 bus (GIC_GICD_ITARGETSR i) GIC_GICD_ITARGETSR_CORE0_TARGET_BMAP)
                [GIC_INTNO_SPI0 div GIC_GICD_ITARGETSR_PER_REG
                  ..< (GIC_INT_MAX + (GIC_GICD_ITARGETSR_PER_REG - 1)) div GIC_GICD_ITARGETSR_PER_REG] d;
          d = fold (\<lambda>i. wr32 bus (GIC_GICD_ICFGR i) GIC_GICD_ICFGR_LEVEL)
                [GIC_INTNO_PPI0 div GIC_GICD_ICFGR_PER_REG
                  ..< (GIC_INT_MAX + (GIC_GICD_ICFGR_PER_REG - 1)) div GIC_GICD_ICFGR_PER_REG] d
      in wr32 bus GIC_GICD_CTLR GIC_GICD_CTLR_ENABLE d)"

definition gicd_disable_int :: "'d gic_bus \<Rightarrow> nat \<Rightarrow> 'd \<Rightarrow> 'd" where
  "gicd_disable_int bus irq =
     wr32 bus (GIC_GICD_ICENABLER (irq div GIC_GICD_ICENABLER_PER_REG))
       (push_bit (irq mod GIC_GICD_ICENABLER_PER_REG) 1)"

definition gicd_enable_int :: "'d gic_bus \<Rightarrow> nat \<Rightarrow> 'd \<Rightarrow> 'd" where
  "gicd_enable_int bus irq =
     wr32 bus (GIC_GICD_ISENABLER (irq div GIC_GICD_ISENABLER_PER_REG))
       (push_bit (irq mod GIC_GICD_ISENABLER_PER_REG) 1)"

definition gicd_clear_pending :: "'d gic_bus \<Rightarrow> nat \<Rightarrow> 'd \<Rightarrow> 'd" where
  "gicd_clear_pending bus irq =
     wr32 bus (GIC_GICD_ICPENDR (irq div GIC_GICD_ICPENDR_PER_REG))
       (push_bit (irq mod GIC_GICD_ICPENDR_PER_REG) 1)"

definition gicd_probe_pending :: "'d gic_bus \<Rightarrow> nat \<Rightarrow> 'd \<Rightarrow> bool \<times> 'd" where
  "gicd_probe_pending bus irq d =
     (let (v, d) = rd32 bus (GIC_GICD_ISPENDR (irq div GIC_GICD_ISPENDR_PER_REG)) d;
          is_pending = v AND push_bit (irq mod GIC_GICD_ISPENDR_PER_REG) 1
      in (is_pending \<noteq> 0, d))"

definition gicd_set_target :: "'d gic_bus \<Rightarrow> nat \<Rightarrow> u32 \<Rightarrow> 'd \<Rightarrow> 'd" where
  "gicd_set_target bus irq p d =
     (let shift = (irq mod GIC_GICD_ITARGETSR_PER_REG) * GIC_GICD_ITARGETSR_SIZE_PER_REG;
          (reg, d) = rd32 bus (GIC_GICD_ITARGETSR (irq div GIC_GICD_ITARGETSR_PER_REG)) d;
          reg = reg AND NOT (push_bit shift 0xff);
          reg = reg OR push_bit shift p
      in wr32 bus (GIC_GICD_ITARGETSR (irq div GIC_GICD_ITARGETSR_PER_REG)) reg d)"

definition gicd_set_priority :: "'d gic_bus \<Rightarrow> nat \<Rightarrow> u32 \<Rightarrow> 'd \<Rightarrow> 'd" where
  "gicd_set_priority bus irq prio d =
     (let shift = (irq mod GIC_GICD_IPRIORITY_PER_REG) * GIC_GICD_IPRIORITY_SIZE_PER_REG;
          (reg, d) = rd32 bus (GIC_GICD_IPRIORITYR (irq div GIC_GICD_IPRIORITY_PER_REG)) d;
          reg = reg AND NOT (push_bit shift 0xff);
          reg = reg OR push_bit shift prio
      in wr32 bus (GIC_GICD_IPRIORITYR (irq div GIC_GICD_IPRIORITY_PER_REG)) reg d)"

definition gicd_config :: "'d gic_bus \<Rightarrow> nat \<Rightarrow> u32 \<Rightarrow> 'd \<Rightarrow> 'd" where
  "gicd_config bus irq config d =
     (let shift = (irq mod GIC_GICD_ICFGR_PER_REG) * GIC_GICD_ICFGR_SIZE_PER_REG;
          (reg, d) = rd32 bus (GIC_GICD_ICFGR (irq div GIC_GICD_ICFGR_PER_REG)) d;
          reg = reg AND NOT (push_bit shift 0x03);
          reg = reg OR push_bit shift config
      in wr32 bus (GIC_GICD_ICFGR (irq div GIC_GICD_ICFGR_PER_REG)) reg d)"

definition gic_v3_eoi :: "'d gic_bus \<Rightarrow> nat \<Rightarrow> 'd \<Rightarrow> 'd" where
  "gic_v3_eoi bus irq = gicd_clear_pending bus irq"

definition gic_v3_initialize :: "'d gic_bus \<Rightarrow> 'd \<Rightarrow> 'd res" where
  "gic_v3_initialize bus d =
     bindR (init_gicc bus (init_gicd bus d)) (\<lambda>d.
     let d = gicd_config bus TIMER_IRQ GIC_GICD_ICFGR_EDGE d;
         d = gicd_set_priority bus TIMER_IRQ (push_bit GIC_PRI_SHIFT 0) d;
         d = gicd_set_target bus TIMER_IRQ 0x1 d;
         d = gicd_clear_pending bus TIMER_IRQ d
     in Inr (gicd_enable_int bus TIMER_IRQ d))"

text \<open>The scan of \<^verbatim>\<open>gic_v3_find_pending_irq\<close>; the second component is \<^verbatim>\<open>*irqp\<close>, when it is written.\<close>

fun find_pending_loop :: "'d gic_bus \<Rightarrow> nat list \<Rightarrow> 'd \<Rightarrow> int \<times> nat option \<times> 'd" where
  "find_pending_loop bus [] d = (IRQ_NOT_FOUND, None, d)"
| "find_pending_loop bus (i # is) d =
     (let (is_pending, d) = gicd_probe_pending bus i d in
      if is_pending then (IRQ_FOUND, Some i, d) else find_pending_loop bus is d)"

definition gic_v3_find_pending_irq :: "'d gic_bus \<Rightarrow> 'd \<Rightarrow> int \<times> nat option \<times> 'd" where
  "gic_v3_find_pending_irq bus d = find_pending_loop bus [0 ..< GIC_INT_MAX] d"

section \<open>Documented behaviour of the controller\<close>

text \<open>
  The view of a device: its storage registers, which interrupts are enabled, which have a
  latched pending state and which input lines are asserted. Interrupts 0 to 15 are the
  software generated ones, whose enable and pending bits these registers do not control.
\<close>

record gic_view =
  regs :: "u64 \<Rightarrow> u32"
  en :: "nat \<Rightarrow> bool"
  latch :: "nat \<Rightarrow> bool"
  line :: "nat \<Rightarrow> bool"

definition level_sensitive :: "gic_view \<Rightarrow> nat \<Rightarrow> bool" where
  "level_sensitive w i \<longleftrightarrow> \<not> bit (regs w (GIC_GICD_ICFGR (i div 16))) (2 * (i mod 16) + 1)"

definition pending :: "gic_view \<Rightarrow> nat \<Rightarrow> bool" where
  "pending w i \<longleftrightarrow> latch w i \<or> (level_sensitive w i \<and> line w i)"

text \<open>A write to a storage register changes the bits of its write mask.\<close>

definition merge32 :: "u32 \<Rightarrow> u32 \<Rightarrow> u32 \<Rightarrow> u32" where
  "merge32 m v old = (v AND m) OR (old AND NOT m)"

definition storage_regs :: "u64 set" where
  "storage_regs =
     {GIC_GICD_CTLR, GIC_GICC_CTLR, GIC_GICC_PMR, GIC_GICC_BPR} \<union>
     GIC_GICD_IPRIORITYR ` {..<16} \<union> GIC_GICD_ITARGETSR ` {..<16} \<union> GIC_GICD_ICFGR ` {..<4}"

text \<open>The interrupts that a write of \<open>v\<close> to the \<open>n\<close>th register of a bit-per-interrupt bank selects.\<close>

definition selects :: "nat \<Rightarrow> u32 \<Rightarrow> nat \<Rightarrow> bool" where
  "selects n v i \<longleftrightarrow> 16 \<le> i \<and> i div 32 = n \<and> bit v (i mod 32)"

locale gic_device =
  fixes bus :: "'d gic_bus" and view :: "'d \<Rightarrow> gic_view" and wmask :: "u64 \<Rightarrow> u32"
  assumes wr_storage: "a \<in> storage_regs \<Longrightarrow>
      view (wr32 bus a v d) = (view d)\<lparr>regs := (regs (view d))(a := merge32 (wmask a) v (regs (view d) a))\<rparr>"
    and wr_isenabler: "n < 2 \<Longrightarrow>
      view (wr32 bus (GIC_GICD_ISENABLER n) v d) = (view d)\<lparr>en := \<lambda>i. en (view d) i \<or> selects n v i\<rparr>"
    and wr_icenabler: "n < 2 \<Longrightarrow>
      view (wr32 bus (GIC_GICD_ICENABLER n) v d) = (view d)\<lparr>en := \<lambda>i. en (view d) i \<and> \<not> selects n v i\<rparr>"
    and wr_icpendr: "n < 2 \<Longrightarrow>
      view (wr32 bus (GIC_GICD_ICPENDR n) v d) = (view d)\<lparr>latch := \<lambda>i. latch (view d) i \<and> \<not> selects n v i\<rparr>"
    and rd_storage: "a \<in> storage_regs \<Longrightarrow> fst (rd32 bus a d) = regs (view d) a \<and> view (snd (rd32 bus a d)) = view d"
    and rd_ispendr: "n < 2 \<Longrightarrow> view (snd (rd32 bus (GIC_GICD_ISPENDR n) d)) = view d \<and>
      (\<forall>k < 32. bit (fst (rd32 bus (GIC_GICD_ISPENDR n) d)) k \<longleftrightarrow> pending (view d) (32 * n + k))"
    and rd_iar_disabled: "\<not> bit (regs (view d) GIC_GICC_CTLR) 0 \<Longrightarrow>
      fst (rd32 bus GIC_GICC_IAR d) AND GICC_IAR_INTR_IDMASK = GICC_IAR_SPURIOUS_INTR \<and>
      view (snd (rd32 bus GIC_GICC_IAR d)) = view d"
    and ctlr_writable: "bit (wmask GIC_GICC_CTLR) 0" "bit (wmask GIC_GICD_CTLR) 0"

section \<open>Address decoding\<close>

definition gic_at :: "nat \<Rightarrow> u64" where "gic_at k = GIC_BASE + of_nat k"

lemma gic_at_inj: "k < 0x20000 \<Longrightarrow> k' < 0x20000 \<Longrightarrow> gic_at k = gic_at k' \<longleftrightarrow> k = k'"
  by (simp add: gic_at_def word_of_nat_eq_iff take_bit_nat_eq_self)

lemma gic_at_addrs:
  "GIC_GICD_CTLR = gic_at 0" "GIC_GICC_CTLR = gic_at 0x10000" "GIC_GICC_PMR = gic_at 0x10004"
  "GIC_GICC_BPR = gic_at 0x10008" "GIC_GICC_IAR = gic_at 0x1000c" "GIC_GICC_EOIR = gic_at 0x10010"
  "GIC_GICD_ISENABLER n = gic_at (0x100 + 4 * n)" "GIC_GICD_ICENABLER n = gic_at (0x180 + 4 * n)"
  "GIC_GICD_ISPENDR n = gic_at (0x200 + 4 * n)" "GIC_GICD_ICPENDR n = gic_at (0x280 + 4 * n)"
  "GIC_GICD_IPRIORITYR n = gic_at (0x400 + 4 * n)" "GIC_GICD_ITARGETSR n = gic_at (0x800 + 4 * n)"
  "GIC_GICD_ICFGR n = gic_at (0xc00 + 4 * n)"
  by (simp_all add: gic_at_def gic_addr_defs)

text \<open>The banks do not overlap, and no bank repeats a register.\<close>

lemma gic_banks [simp]:
  "n < 16 \<Longrightarrow> m < 16 \<Longrightarrow> GIC_GICD_IPRIORITYR n = GIC_GICD_IPRIORITYR m \<longleftrightarrow> n = m"
  "n < 16 \<Longrightarrow> m < 16 \<Longrightarrow> GIC_GICD_ITARGETSR n = GIC_GICD_ITARGETSR m \<longleftrightarrow> n = m"
  "n < 16 \<Longrightarrow> m < 16 \<Longrightarrow> GIC_GICD_ICFGR n = GIC_GICD_ICFGR m \<longleftrightarrow> n = m"
  "n < 16 \<Longrightarrow> m < 16 \<Longrightarrow> GIC_GICD_IPRIORITYR n \<noteq> GIC_GICD_ITARGETSR m"
  "n < 16 \<Longrightarrow> m < 16 \<Longrightarrow> GIC_GICD_ITARGETSR m \<noteq> GIC_GICD_IPRIORITYR n"
  "n < 16 \<Longrightarrow> m < 16 \<Longrightarrow> GIC_GICD_IPRIORITYR n \<noteq> GIC_GICD_ICFGR m"
  "n < 16 \<Longrightarrow> m < 16 \<Longrightarrow> GIC_GICD_ICFGR m \<noteq> GIC_GICD_IPRIORITYR n"
  "n < 16 \<Longrightarrow> m < 16 \<Longrightarrow> GIC_GICD_ITARGETSR n \<noteq> GIC_GICD_ICFGR m"
  "n < 16 \<Longrightarrow> m < 16 \<Longrightarrow> GIC_GICD_ICFGR m \<noteq> GIC_GICD_ITARGETSR n"
  "n < 16 \<Longrightarrow> GIC_GICD_IPRIORITYR n \<noteq> GIC_GICD_CTLR \<and> GIC_GICD_CTLR \<noteq> GIC_GICD_IPRIORITYR n \<and> GIC_GICD_IPRIORITYR n \<noteq> GIC_GICC_CTLR \<and> GIC_GICC_CTLR \<noteq> GIC_GICD_IPRIORITYR n
     \<and> GIC_GICD_IPRIORITYR n \<noteq> GIC_GICC_PMR \<and> GIC_GICC_PMR \<noteq> GIC_GICD_IPRIORITYR n \<and> GIC_GICD_IPRIORITYR n \<noteq> GIC_GICC_BPR \<and> GIC_GICC_BPR \<noteq> GIC_GICD_IPRIORITYR n"
  "n < 16 \<Longrightarrow> GIC_GICD_ITARGETSR n \<noteq> GIC_GICD_CTLR \<and> GIC_GICD_CTLR \<noteq> GIC_GICD_ITARGETSR n \<and> GIC_GICD_ITARGETSR n \<noteq> GIC_GICC_CTLR \<and> GIC_GICC_CTLR \<noteq> GIC_GICD_ITARGETSR n
     \<and> GIC_GICD_ITARGETSR n \<noteq> GIC_GICC_PMR \<and> GIC_GICC_PMR \<noteq> GIC_GICD_ITARGETSR n \<and> GIC_GICD_ITARGETSR n \<noteq> GIC_GICC_BPR \<and> GIC_GICC_BPR \<noteq> GIC_GICD_ITARGETSR n"
  "n < 16 \<Longrightarrow> GIC_GICD_ICFGR n \<noteq> GIC_GICD_CTLR \<and> GIC_GICD_CTLR \<noteq> GIC_GICD_ICFGR n \<and> GIC_GICD_ICFGR n \<noteq> GIC_GICC_CTLR \<and> GIC_GICC_CTLR \<noteq> GIC_GICD_ICFGR n
     \<and> GIC_GICD_ICFGR n \<noteq> GIC_GICC_PMR \<and> GIC_GICC_PMR \<noteq> GIC_GICD_ICFGR n \<and> GIC_GICD_ICFGR n \<noteq> GIC_GICC_BPR \<and> GIC_GICC_BPR \<noteq> GIC_GICD_ICFGR n"
  "distinct [GIC_GICD_CTLR, GIC_GICC_CTLR, GIC_GICC_PMR, GIC_GICC_BPR]"
  by (auto simp: gic_at_addrs gic_at_inj)

lemma storage_intro [simp]:
  "GIC_GICD_CTLR \<in> storage_regs" "GIC_GICC_CTLR \<in> storage_regs" "GIC_GICC_PMR \<in> storage_regs"
  "GIC_GICC_BPR \<in> storage_regs" "n < 16 \<Longrightarrow> GIC_GICD_IPRIORITYR n \<in> storage_regs"
  "n < 16 \<Longrightarrow> GIC_GICD_ITARGETSR n \<in> storage_regs" "n < 4 \<Longrightarrow> GIC_GICD_ICFGR n \<in> storage_regs"
  by (auto simp: storage_regs_def)

section \<open>The driver on a documented controller\<close>

lemma bit_merge32: "bit (merge32 m v old) k = (if bit m k then bit v k else bit old k)"
  by (auto simp: merge32_def bit_simps dest: bit_imp_le_length)

lemma merge32_merge32 [simp]: "merge32 m v (merge32 m v' old) = merge32 m v old"
  by (rule bit_word_eqI) (simp add: bit_merge32)

lemma selects_all: "selects n (- 1) i \<longleftrightarrow> 16 \<le> i \<and> i div 32 = n"
  by (auto simp: selects_def bit_simps)

lemma selects_one: "selects (irq div 32) (2 ^ (irq mod 32)) i \<longleftrightarrow> 16 \<le> i \<and> i = irq"
proof -
  have "i = irq" if "i div 32 = irq div 32" "i mod 32 = irq mod 32"
    using that by (metis div_mult_mod_eq)
  then show ?thesis by (auto simp: selects_def bit_simps)
qed

context gic_device
begin

lemma fold_storage:
  assumes "\<forall>i \<in> set is. A i \<in> storage_regs"
  shows "view (fold (\<lambda>i. wr32 bus (A i) v) is d) = (view d)\<lparr>regs :=
    \<lambda>a. if a \<in> A ` set is then merge32 (wmask a) v (regs (view d) a) else regs (view d) a\<rparr>"
  using assms by (induction "is" arbitrary: d) (auto simp: wr_storage fun_eq_iff)

lemma fold_icenabler:
  assumes "\<forall>i \<in> set is. i < 2"
  shows "view (fold (\<lambda>i. wr32 bus (GIC_GICD_ICENABLER i) v) is d) =
    (view d)\<lparr>en := \<lambda>i. en (view d) i \<and> (\<forall>n \<in> set is. \<not> selects n v i)\<rparr>"
  using assms by (induction "is" arbitrary: d) (auto simp: wr_icenabler fun_eq_iff)

lemma fold_icpendr:
  assumes "\<forall>i \<in> set is. i < 2"
  shows "view (fold (\<lambda>i. wr32 bus (GIC_GICD_ICPENDR i) v) is d) =
    (view d)\<lparr>latch := \<lambda>i. latch (view d) i \<and> (\<forall>n \<in> set is. \<not> selects n v i)\<rparr>"
  using assms by (induction "is" arbitrary: d) (auto simp: wr_icpendr fun_eq_iff)

lemma all_selected: "(\<forall>n \<in> {0 ..< 2}. \<not> selects n (- 1) i) \<longleftrightarrow> \<not> (16 \<le> i \<and> i < 64)"
proof -
  have "i div 32 \<in> {0 ..< 2} \<longleftrightarrow> i < 64" by auto
  then show ?thesis unfolding selects_all by blast
qed

lemma init_gicd_en: "en (view (init_gicd bus d)) i \<longleftrightarrow> en (view d) i \<and> \<not> (16 \<le> i \<and> i < 64)"
  and init_gicd_latch: "latch (view (init_gicd bus d)) i \<longleftrightarrow> latch (view d) i \<and> \<not> (16 \<le> i \<and> i < 64)"
  by (simp_all add: init_gicd_def gic_size_defs Let_def wr_storage fold_storage fold_icenabler fold_icpendr
      all_selected del: upt_rec_numeral)

lemma init_gicd_regs:
  "bit (regs (view (init_gicd bus d)) GIC_GICD_CTLR) 0"
  "n < 16 \<Longrightarrow> regs (view (init_gicd bus d)) (GIC_GICD_IPRIORITYR n) =
     merge32 (wmask (GIC_GICD_IPRIORITYR n)) (NOT 0) (regs (view d) (GIC_GICD_IPRIORITYR n))"
  by (auto simp: init_gicd_def gic_size_defs gic_val_defs Let_def wr_storage fold_storage fold_icenabler fold_icpendr
      bit_merge32 ctlr_writable simp del: upt_rec_numeral)

lemma drain_stop:
  assumes "\<not> bit (regs (view d) GIC_GICC_CTLR) 0"
  shows "drain_iar iar_fuel bus d = Inr (snd (rd32 bus GIC_GICC_IAR d))"
proof -
  have "drain_iar (Suc n) bus d = Inr (snd (rd32 bus GIC_GICC_IAR d))" for n
    using rd_iar_disabled [OF assms] by (simp add: case_prod_unfold Let_def)
  from this [of 1023] show ?thesis by (simp add: iar_fuel_def)
qed

lemma init_gicc_view:
  "\<exists>d'. init_gicc bus d = Inr d' \<and> view d' = (view d)\<lparr>regs := (regs (view d))(
     GIC_GICC_PMR := merge32 (wmask GIC_GICC_PMR) 0xff (regs (view d) GIC_GICC_PMR),
     GIC_GICC_BPR := merge32 (wmask GIC_GICC_BPR) 0 (regs (view d) GIC_GICC_BPR),
     GIC_GICC_CTLR := merge32 (wmask GIC_GICC_CTLR) 1 (regs (view d) GIC_GICC_CTLR))\<rparr>"
proof -
  let ?d = "wr32 bus GIC_GICC_BPR GICC_BPR_NO_GROUP (wr32 bus GIC_GICC_PMR GICC_PMR_PRIO_MIN
    (wr32 bus GIC_GICC_CTLR GICC_CTLR_DISABLE d))"
  let ?e = "snd (rd32 bus GIC_GICC_IAR ?d)"
  have ne: "GIC_GICC_CTLR \<noteq> GIC_GICC_PMR" "GIC_GICC_CTLR \<noteq> GIC_GICC_BPR" "GIC_GICC_PMR \<noteq> GIC_GICC_BPR"
    using gic_banks(13) by auto
  have off: "\<not> bit (regs (view ?d) GIC_GICC_CTLR) 0"
    using ne by (simp add: wr_storage gic_val_defs bit_merge32 ctlr_writable)
  have "init_gicc bus d = Inr (wr32 bus GIC_GICC_CTLR GICC_CTLR_ENABLE ?e)"
    using drain_stop [OF off] by (simp add: init_gicc_def Let_def)
  moreover have "view (wr32 bus GIC_GICC_CTLR GICC_CTLR_ENABLE ?e) = (view d)\<lparr>regs := (regs (view d))(
     GIC_GICC_PMR := merge32 (wmask GIC_GICC_PMR) 0xff (regs (view d) GIC_GICC_PMR),
     GIC_GICC_BPR := merge32 (wmask GIC_GICC_BPR) 0 (regs (view d) GIC_GICC_BPR),
     GIC_GICC_CTLR := merge32 (wmask GIC_GICC_CTLR) 1 (regs (view d) GIC_GICC_CTLR))\<rparr>"
    using rd_iar_disabled [OF off] ne by (simp add: wr_storage gic_val_defs fun_upd_twist)
  ultimately show ?thesis by blast
qed

lemma irq_regs: "irq < 64 \<Longrightarrow> irq div 32 < 2" "irq < 64 \<Longrightarrow> irq div 4 < 16" "irq < 64 \<Longrightarrow> irq div 16 < 4"
  for irq :: nat by auto

lemma set_priority_view:
  assumes "irq < 64"
  shows "view (gicd_set_priority bus irq p d) = (view d)\<lparr>regs := (regs (view d))(
    GIC_GICD_IPRIORITYR (irq div 4) := merge32 (wmask (GIC_GICD_IPRIORITYR (irq div 4)))
      (regs (view d) (GIC_GICD_IPRIORITYR (irq div 4)) AND NOT (push_bit (irq mod 4 * 8) 0xff)
        OR push_bit (irq mod 4 * 8) p) (regs (view d) (GIC_GICD_IPRIORITYR (irq div 4))))\<rparr>"
  using irq_regs [OF assms] rd_storage [of "GIC_GICD_IPRIORITYR (irq div 4)" d]
  by (simp add: gicd_set_priority_def gic_size_defs Let_def case_prod_unfold wr_storage)

lemma set_target_view:
  assumes "irq < 64"
  shows "view (gicd_set_target bus irq p d) = (view d)\<lparr>regs := (regs (view d))(
    GIC_GICD_ITARGETSR (irq div 4) := merge32 (wmask (GIC_GICD_ITARGETSR (irq div 4)))
      (regs (view d) (GIC_GICD_ITARGETSR (irq div 4)) AND NOT (push_bit (irq mod 4 * 8) 0xff)
        OR push_bit (irq mod 4 * 8) p) (regs (view d) (GIC_GICD_ITARGETSR (irq div 4))))\<rparr>"
  using irq_regs [OF assms] rd_storage [of "GIC_GICD_ITARGETSR (irq div 4)" d]
  by (simp add: gicd_set_target_def gic_size_defs Let_def case_prod_unfold wr_storage)

lemma config_view:
  assumes "irq < 64"
  shows "view (gicd_config bus irq c d) = (view d)\<lparr>regs := (regs (view d))(
    GIC_GICD_ICFGR (irq div 16) := merge32 (wmask (GIC_GICD_ICFGR (irq div 16)))
      (regs (view d) (GIC_GICD_ICFGR (irq div 16)) AND NOT (push_bit (irq mod 16 * 2) 3)
        OR push_bit (irq mod 16 * 2) c) (regs (view d) (GIC_GICD_ICFGR (irq div 16))))\<rparr>"
  using irq_regs [OF assms] rd_storage [of "GIC_GICD_ICFGR (irq div 16)" d]
  by (simp add: gicd_config_def gic_size_defs Let_def case_prod_unfold wr_storage)

lemma bit_ops_view:
  assumes "16 \<le> irq" "irq < 64"
  shows "view (gicd_enable_int bus irq d) = (view d)\<lparr>en := (en (view d))(irq := True)\<rparr>"
    and "view (gicd_disable_int bus irq d) = (view d)\<lparr>en := (en (view d))(irq := False)\<rparr>"
    and "view (gicd_clear_pending bus irq d) = (view d)\<lparr>latch := (latch (view d))(irq := False)\<rparr>"
  using assms irq_regs(1) [OF assms(2)]
  by (auto simp: gicd_enable_int_def gicd_disable_int_def gicd_clear_pending_def gic_size_defs
      wr_isenabler wr_icenabler wr_icpendr selects_one fun_eq_iff)

lemma probe_pending:
  assumes "irq < 64"
  shows "fst (gicd_probe_pending bus irq d) = pending (view d) irq" "view (snd (gicd_probe_pending bus irq d)) = view d"
proof -
  have "(v AND push_bit k 1 \<noteq> 0) = bit v k" if "k < 32" for v :: u32 and k
    using and_exp_eq_0_iff_not_bit [of v k] by (simp add: push_bit_eq_mult)
  moreover have "32 * (irq div 32) + irq mod 32 = irq" by simp
  ultimately show "fst (gicd_probe_pending bus irq d) = pending (view d) irq"
      "view (snd (gicd_probe_pending bus irq d)) = view d"
    using rd_ispendr [OF irq_regs(1) [OF assms], of d]
    by (auto simp: gicd_probe_pending_def gic_size_defs Let_def case_prod_unfold)
qed

lemma find_pending_loop:
  assumes "\<forall>i \<in> set is. i < 64"
  shows "\<exists>d'. view d' = view d \<and> find_pending_loop bus is d =
    (case find (pending (view d)) is of None \<Rightarrow> (IRQ_NOT_FOUND, None, d') | Some i \<Rightarrow> (IRQ_FOUND, Some i, d'))"
  using assms
proof (induction "is" arbitrary: d)
  case Nil
  then show ?case by auto
next
  case (Cons i "is")
  let ?d = "snd (gicd_probe_pending bus i d)"
  have p: "fst (gicd_probe_pending bus i d) = pending (view d) i" "view ?d = view d"
    using Cons.prems by (simp_all add: probe_pending)
  show ?case
  proof (cases "pending (view d) i")
    case True
    then show ?thesis using p by (intro exI [of _ ?d]) (simp add: case_prod_unfold)
  next
    case False
    then show ?thesis using p Cons.IH [of ?d] Cons.prems by (simp add: case_prod_unfold)
  qed
qed

end

lemma byte_field:
  fixes p r :: u32
  assumes "k < 8" "p < 256" "a < 4" "b < 4"
  shows "bit (r AND NOT (push_bit (b * 8) 0xff) OR push_bit (b * 8) p) (a * 8 + k) \<longleftrightarrow>
    (if a = b then bit p k else bit r (a * 8 + k))"
proof -
  have m: "bit (0xff :: int) j \<longleftrightarrow> j < 8" for j
    using bit_mask_iff [of 8 j, where ?'a = int] by (auto simp: mask_eq_exp_minus_1)
  have p8: "\<not> bit p j" if "8 \<le> j" for j
  proof
    assume "bit p j"
    then have "bit (unat p) j" by (simp add: bit_unsigned_iff)
    then have "odd (unat p div 2 ^ j)" by (simp only: bit_iff_odd) simp
    moreover have "unat p < 2 ^ j"
      using assms(2) power_increasing [OF that, of "2 :: nat"] by (simp add: word_less_nat_alt)
    ultimately show False by simp
  qed
  have "a * 8 + k < 32" using assms by linarith
  moreover have "a = b \<longleftrightarrow> b * 8 \<le> a * 8 + k \<and> a * 8 + k - b * 8 < 8" using assms(1) by arith
  moreover have "a = b \<Longrightarrow> a * 8 + k - b * 8 = k" by simp
  ultimately show ?thesis using p8 by (auto simp: bit_simps m)
qed

context gic_device
begin

lemma priority_bits:
  assumes "i < 64" "irq < 64" "k < 8" "bit (wmask (GIC_GICD_IPRIORITYR (i div 4))) (i mod 4 * 8 + k)" "p < 256"
  shows "bit (regs (view (gicd_set_priority bus irq p d)) (GIC_GICD_IPRIORITYR (i div 4))) (i mod 4 * 8 + k) \<longleftrightarrow>
    (if i = irq then bit p k else bit (regs (view d) (GIC_GICD_IPRIORITYR (i div 4))) (i mod 4 * 8 + k))"
proof (cases "i div 4 = irq div 4")
  case True
  have "i = irq \<longleftrightarrow> i mod 4 = irq mod 4" using True by (metis div_mult_mod_eq)
  then show ?thesis
    using byte_field [OF assms(3,5), of "i mod 4" "irq mod 4"] assms True by (simp add: set_priority_view bit_merge32)
next
  case False
  then have "i \<noteq> irq" by auto
  then show ?thesis using False assms by (simp add: set_priority_view)
qed

lemma other_steps [simp]:
  "irq < 64 \<Longrightarrow> en (view (gicd_set_priority bus irq p d)) = en (view d)"
  "irq < 64 \<Longrightarrow> en (view (gicd_set_target bus irq p d)) = en (view d)"
  "irq < 64 \<Longrightarrow> en (view (gicd_config bus irq p d)) = en (view d)"
  "irq < 64 \<Longrightarrow> latch (view (gicd_set_priority bus irq p d)) = latch (view d)"
  "irq < 64 \<Longrightarrow> latch (view (gicd_set_target bus irq p d)) = latch (view d)"
  "irq < 64 \<Longrightarrow> latch (view (gicd_config bus irq p d)) = latch (view d)"
  "irq < 64 \<Longrightarrow> n < 16 \<Longrightarrow> regs (view (gicd_set_target bus irq p d)) (GIC_GICD_IPRIORITYR n) = regs (view d) (GIC_GICD_IPRIORITYR n)"
  "irq < 64 \<Longrightarrow> n < 16 \<Longrightarrow> regs (view (gicd_config bus irq p d)) (GIC_GICD_IPRIORITYR n) = regs (view d) (GIC_GICD_IPRIORITYR n)"
  "irq < 64 \<Longrightarrow> a \<in> {GIC_GICD_CTLR, GIC_GICC_CTLR} \<Longrightarrow> regs (view (gicd_set_priority bus irq p d)) a = regs (view d) a"
  "irq < 64 \<Longrightarrow> a \<in> {GIC_GICD_CTLR, GIC_GICC_CTLR} \<Longrightarrow> regs (view (gicd_set_target bus irq p d)) a = regs (view d) a"
  "irq < 64 \<Longrightarrow> a \<in> {GIC_GICD_CTLR, GIC_GICC_CTLR} \<Longrightarrow> regs (view (gicd_config bus irq p d)) a = regs (view d) a"
  using irq_regs [of irq] by (auto simp: set_priority_view set_target_view config_view)

lemma initialize_ready:
  "\<exists>d'. gic_v3_initialize bus d = Inr d' \<and>
    bit (regs (view d') GIC_GICD_CTLR) 0 \<and> bit (regs (view d') GIC_GICC_CTLR) 0 \<and>
    (\<forall>i. 16 \<le> i \<and> i < 64 \<longrightarrow> (en (view d') i \<longleftrightarrow> i = TIMER_IRQ) \<and> \<not> latch (view d') i) \<and>
    (\<forall>i k. i < 64 \<and> k < 8 \<and> bit (wmask (GIC_GICD_IPRIORITYR (i div 4))) (i mod 4 * 8 + k) \<longrightarrow>
       (bit (regs (view d') (GIC_GICD_IPRIORITYR (i div 4))) (i mod 4 * 8 + k) \<longleftrightarrow> i \<noteq> TIMER_IRQ))"
proof -
  obtain e where e: "init_gicc bus (init_gicd bus d) = Inr e" and v: "view e = (view (init_gicd bus d))\<lparr>regs := (regs (view (init_gicd bus d)))(
     GIC_GICC_PMR := merge32 (wmask GIC_GICC_PMR) 0xff (regs (view (init_gicd bus d)) GIC_GICC_PMR),
     GIC_GICC_BPR := merge32 (wmask GIC_GICC_BPR) 0 (regs (view (init_gicd bus d)) GIC_GICC_BPR),
     GIC_GICC_CTLR := merge32 (wmask GIC_GICC_CTLR) 1 (regs (view (init_gicd bus d)) GIC_GICC_CTLR))\<rparr>"
    using init_gicc_view by blast
  let ?p = "gicd_set_priority bus TIMER_IRQ 0 (gicd_config bus TIMER_IRQ GIC_GICD_ICFGR_EDGE e)"
  let ?f = "gicd_clear_pending bus TIMER_IRQ (gicd_set_target bus TIMER_IRQ 1 ?p)"
  let ?d' = "gicd_enable_int bus TIMER_IRQ ?f"
  have t: "TIMER_IRQ < 64" "16 \<le> TIMER_IRQ" by (simp_all add: TIMER_IRQ_def)
  have ne: "GIC_GICD_CTLR \<noteq> GIC_GICC_PMR" "GIC_GICD_CTLR \<noteq> GIC_GICC_BPR" "GIC_GICD_CTLR \<noteq> GIC_GICC_CTLR"
    by (simp_all add: gic_at_addrs gic_at_inj)
  have run: "gic_v3_initialize bus d = Inr ?d'" using e by (simp add: gic_v3_initialize_def Let_def)
  have regs': "regs (view ?d') a = regs (view (gicd_set_target bus TIMER_IRQ 1 ?p)) a" for a
    using t by (simp add: bit_ops_view)
  have ctl: "bit (regs (view ?d') GIC_GICD_CTLR) 0" "bit (regs (view ?d') GIC_GICC_CTLR) 0"
    unfolding regs' using t ne by (simp_all add: v init_gicd_regs bit_merge32 ctlr_writable)
  have en: "(en (view ?d') i \<longleftrightarrow> i = TIMER_IRQ) \<and> \<not> latch (view ?d') i" if "16 \<le> i" "i < 64" for i
    using that t by (simp add: bit_ops_view v init_gicd_en init_gicd_latch)
  have pr: "bit (regs (view ?d') (GIC_GICD_IPRIORITYR (i div 4))) (i mod 4 * 8 + k) \<longleftrightarrow> i \<noteq> TIMER_IRQ"
    if i: "i < 64" "k < 8" "bit (wmask (GIC_GICD_IPRIORITYR (i div 4))) (i mod 4 * 8 + k)" for i k
  proof -
    have n: "i div 4 < 16" "i mod 4 * 8 + k < 32" using i(1,2) mod_less_divisor [of 4 i] by linarith+
    show ?thesis unfolding regs' using priority_bits [OF i(1) t(1) i(2,3), of 0] t n i(3)
      by (simp add: v init_gicd_regs bit_merge32 bit_simps)
  qed
  show ?thesis using run ctl en pr by blast
qed

end

section \<open>A register file with the documented behaviour\<close>

text \<open>
  A controller whose state is its view: priorities have their upper four bits, the targets of
  the private interrupts and the configuration of the software generated ones are read-only.
\<close>

definition pl390_wmask :: "u64 \<Rightarrow> u32" where
  "pl390_wmask a =
     (if a \<in> GIC_GICD_IPRIORITYR ` {..<16} then 0xf0f0f0f0
      else if a \<in> GIC_GICD_ITARGETSR ` {..<8} \<or> a = GIC_GICD_ICFGR 0 then 0
      else if a \<in> GIC_GICD_ICFGR ` {1..<4} then 0xaaaaaaaa
      else if a \<in> {GIC_GICC_CTLR, GIC_GICD_CTLR} then 1 else 0xff)"

definition pl390_rd :: "u64 \<Rightarrow> gic_view \<Rightarrow> u32 \<times> gic_view" where
  "pl390_rd a w =
     (if a \<in> storage_regs then (regs w a, w)
      else if a = GIC_GICD_ISPENDR 0 then (horner_sum of_bool 2 (map (pending w) [0..<32]), w)
      else if a = GIC_GICD_ISPENDR 1 then (horner_sum of_bool 2 (map (pending w) [32..<64]), w)
      else if a = GIC_GICC_IAR \<and> bit (regs w GIC_GICC_CTLR) 0 then
        (case find (\<lambda>i. en w i \<and> pending w i) [0..<64] of
           None \<Rightarrow> (0x3ff, w) | Some i \<Rightarrow> (of_nat i, w\<lparr>latch := (latch w)(i := False)\<rparr>))
      else (0x3ff, w))"

definition pl390_wr :: "u64 \<Rightarrow> u32 \<Rightarrow> gic_view \<Rightarrow> gic_view" where
  "pl390_wr a v w =
     (if a \<in> storage_regs then w\<lparr>regs := (regs w)(a := merge32 (pl390_wmask a) v (regs w a))\<rparr>
      else if a = GIC_GICD_ISENABLER 0 then w\<lparr>en := \<lambda>i. en w i \<or> selects 0 v i\<rparr>
      else if a = GIC_GICD_ISENABLER 1 then w\<lparr>en := \<lambda>i. en w i \<or> selects 1 v i\<rparr>
      else if a = GIC_GICD_ICENABLER 0 then w\<lparr>en := \<lambda>i. en w i \<and> \<not> selects 0 v i\<rparr>
      else if a = GIC_GICD_ICENABLER 1 then w\<lparr>en := \<lambda>i. en w i \<and> \<not> selects 1 v i\<rparr>
      else if a = GIC_GICD_ICPENDR 0 then w\<lparr>latch := \<lambda>i. latch w i \<and> \<not> selects 0 v i\<rparr>
      else if a = GIC_GICD_ICPENDR 1 then w\<lparr>latch := \<lambda>i. latch w i \<and> \<not> selects 1 v i\<rparr>
      else w)"

definition pl390 :: "gic_view gic_bus" where
  "pl390 = \<lparr>rd32 = pl390_rd, wr32 = pl390_wr\<rparr>"

lemma not_storage [simp]:
  "n < 2 \<Longrightarrow> GIC_GICD_ISENABLER n \<notin> storage_regs" "n < 2 \<Longrightarrow> GIC_GICD_ICENABLER n \<notin> storage_regs"
  "n < 2 \<Longrightarrow> GIC_GICD_ISPENDR n \<notin> storage_regs" "n < 2 \<Longrightarrow> GIC_GICD_ICPENDR n \<notin> storage_regs"
  "GIC_GICC_IAR \<notin> storage_regs"
  by (auto simp: storage_regs_def gic_at_addrs gic_at_inj)

lemma bank_index: "n < 2 \<longleftrightarrow> n = 0 \<or> n = Suc 0" for n :: nat by auto

interpretation pl: gic_device pl390 "\<lambda>w. w" pl390_wmask
proof (unfold_locales, goal_cases)
  case (1 a v d)
  then show ?case by (simp add: pl390_def pl390_wr_def)
next
  case (2 n v d)
  then show ?case using not_storage(1) [of n]
    by (auto simp: bank_index pl390_def pl390_wr_def gic_at_addrs gic_at_inj simp del: not_storage)
next
  case (3 n v d)
  then show ?case using not_storage(2) [of n]
    by (auto simp: bank_index pl390_def pl390_wr_def gic_at_addrs gic_at_inj simp del: not_storage)
next
  case (4 n v d)
  then show ?case using not_storage(4) [of n]
    by (auto simp: bank_index pl390_def pl390_wr_def gic_at_addrs gic_at_inj simp del: not_storage)
next
  case (5 a d)
  then show ?case by (simp add: pl390_def pl390_rd_def)
next
  case (6 n d)
  then show ?case using not_storage(3) [of n]
    by (auto simp: bank_index pl390_def pl390_rd_def bit_horner_sum_bit_iff gic_at_addrs gic_at_inj
        simp del: not_storage upt_rec_numeral)
next
  case (7 d)
  have "GIC_GICC_IAR \<noteq> GIC_GICD_ISPENDR 0" "GIC_GICC_IAR \<noteq> GIC_GICD_ISPENDR 1"
    by (simp_all add: gic_at_addrs gic_at_inj)
  with 7 show ?case by (simp add: pl390_def pl390_rd_def gic_val_defs del: upt_rec_numeral)
next
  case 8
  then show ?case by (auto simp: pl390_wmask_def)
next
  case 9
  then show ?case by (auto simp: pl390_wmask_def)
qed

section \<open>Properties\<close>

text \<open>C31: On any controller with the documented registers \<^verbatim>\<open>gic_v3_initialize\<close> returns. Then the
  distributor and the CPU interface are on, exactly the timer interrupt of the peripheral
  interrupts is enabled, none of them has a latched pending state, and the timer has the
  highest priority and every other interrupt the lowest, on the implemented priority bits.\<close>

theorem gic_v3_initialize_ready:
  assumes "gic_device bus view wmask"
  shows "\<exists>d'. gic_v3_initialize bus d = Inr d' \<and>
    bit (regs (view d') GIC_GICD_CTLR) 0 \<and> bit (regs (view d') GIC_GICC_CTLR) 0 \<and>
    (\<forall>i. 16 \<le> i \<and> i < 64 \<longrightarrow> (en (view d') i \<longleftrightarrow> i = TIMER_IRQ) \<and> \<not> latch (view d') i) \<and>
    (\<forall>i k. i < 64 \<and> k < 8 \<and> bit (wmask (GIC_GICD_IPRIORITYR (i div 4))) (i mod 4 * 8 + k) \<longrightarrow>
       (bit (regs (view d') (GIC_GICD_IPRIORITYR (i div 4))) (i mod 4 * 8 + k) \<longleftrightarrow> i \<noteq> TIMER_IRQ))"
  by (rule gic_device.initialize_ready [OF assms])

text \<open>C32: On any controller with the documented registers \<^verbatim>\<open>gic_v3_find_pending_irq\<close> is the search
  for the first pending interrupt in the order of their numbers: it writes \<^verbatim>\<open>*irqp\<close> and returns
  \<^verbatim>\<open>IRQ_FOUND\<close> exactly when there is one below \<^verbatim>\<open>GIC_INT_MAX\<close>, and it changes nothing.\<close>

theorem gic_v3_find_pending_irq_first:
  assumes "gic_device bus view wmask"
  shows "\<exists>d'. view d' = view d \<and> gic_v3_find_pending_irq bus d =
    (case find (pending (view d)) [0 ..< 64] of
       None \<Rightarrow> (IRQ_NOT_FOUND, None, d') | Some i \<Rightarrow> (IRQ_FOUND, Some i, d'))"
  unfolding gic_v3_find_pending_irq_def GIC_INT_MAX_def
  by (rule gic_device.find_pending_loop [OF assms]) simp

text \<open>For a peripheral interrupt, \<^verbatim>\<open>gicd_enable_int\<close>, \<^verbatim>\<open>gicd_disable_int\<close> and \<^verbatim>\<open>gic_v3_eoi\<close> change the
  enable bit and the latched pending bit of that interrupt and of no other.\<close>

theorem gicd_bit_operations:
  assumes "gic_device bus view wmask" "16 \<le> irq" "irq < GIC_INT_MAX"
  shows "view (gicd_enable_int bus irq d) = (view d)\<lparr>en := (en (view d))(irq := True)\<rparr> \<and>
    view (gicd_disable_int bus irq d) = (view d)\<lparr>en := (en (view d))(irq := False)\<rparr> \<and>
    view (gic_v3_eoi bus irq d) = (view d)\<lparr>latch := (latch (view d))(irq := False)\<rparr>"
  using gic_device.bit_ops_view [OF assms(1,2)] assms(3) by (simp add: gic_v3_eoi_def GIC_INT_MAX_def)

definition reset_gic :: gic_view where
  "reset_gic = \<lparr>regs = \<lambda>_. 0, en = \<lambda>_. True, latch = \<lambda>i. i = 40, line = \<lambda>_. False\<rparr>"

theorem gic_v3_initialize_ready_witness:
  "\<exists>d'. gic_v3_initialize pl390 reset_gic = Inr d' \<and> en d' 27 \<and> \<not> en d' 40 \<and> \<not> latch d' 40"
proof -
  obtain d' where "gic_v3_initialize pl390 reset_gic = Inr d'"
      "\<forall>i. 16 \<le> i \<and> i < 64 \<longrightarrow> (en d' i \<longleftrightarrow> i = TIMER_IRQ) \<and> \<not> latch d' i"
    using gic_v3_initialize_ready [OF pl.gic_device_axioms, of reset_gic] by blast
  then show ?thesis by (auto simp: TIMER_IRQ_def)
qed

theorem gic_v3_find_pending_irq_first_witness:
  "\<exists>d'. gic_v3_find_pending_irq pl390 reset_gic = (IRQ_FOUND, Some 40, d')"
proof -
  have "find (pending reset_gic) [0 ..< 64] = Some 40"
  proof -
    have "pending reset_gic = (\<lambda>i. i = 40)" by (simp add: pending_def reset_gic_def fun_eq_iff)
    then show ?thesis by (simp add: upt_rec)
  qed
  then show ?thesis using gic_v3_find_pending_irq_first [OF pl.gic_device_axioms, of reset_gic] by auto
qed

theorem gicd_bit_operations_witness:
  "\<not> latch (gic_v3_eoi pl390 40 reset_gic) 40 \<and> en (gic_v3_eoi pl390 40 reset_gic) 40"
  using gicd_bit_operations [OF pl.gic_device_axioms, of 40 reset_gic] by (simp add: GIC_INT_MAX_def reset_gic_def)

end
