(* ===== verification/Printf.thy ===== *)
theory Printf
  imports Lib
begin

text \<open>
  \<^verbatim>\<open>lib/printf.c\<close> as the kernel configures it: without floating point, with \<^verbatim>\<open>long long\<close> and \<^verbatim>\<open>ptrdiff_t\<close>.
  Output goes to a buffer in memory, to nowhere, to the UART or to a function, which is the first
  argument of every routine. The memory that the code reads and writes is behind the address
  translation \<open>tr\<close> of the processor; an address it does not map is a fault. The list of variable
  arguments is a list of 64-bit slots. \<^verbatim>\<open>char\<close> is unsigned on AArch64.
\<close>

section \<open>Output functions\<close>

text \<open>\<open>uart\<close>: the bytes written to the data register of the UART, oldest first.\<close>

record out_state =
  pmem :: memory
  uart :: "u8 list"

type_synonym translation = "u64 \<Rightarrow> u64 res"

datatype out_fct_type = Out_buffer | Out_null | Out_char | Out_fct "u8 \<Rightarrow> out_state \<Rightarrow> out_state"

definition read_char :: "translation \<Rightarrow> u64 \<Rightarrow> out_state \<Rightarrow> u8 res" where
  "read_char tr p s = bindR (tr p) (\<lambda>a. Inr (pmem s a))"

definition putchar :: "u8 \<Rightarrow> out_state \<Rightarrow> out_state" where
  "putchar c s = s\<lparr>uart := uart s @ [c]\<rparr>"

text \<open>\<^verbatim>\<open>putc\<close> ignores its first argument; \<^verbatim>\<open>log\<close> marks a place of the code that was reached.\<close>

definition putc :: "u64 \<Rightarrow> u8 \<Rightarrow> out_state \<Rightarrow> out_state" where
  "putc p c s = s\<lparr>uart := uart s @ [c]\<rparr>"

definition log_mark :: "out_state \<Rightarrow> out_state" where
  "log_mark = putc NULL 10 \<circ> putc NULL 35 \<circ> putc NULL 35 \<circ> putc NULL 35 \<circ> putc NULL 35 \<circ> putc NULL 35"

definition out :: "translation \<Rightarrow> out_fct_type \<Rightarrow> u8 \<Rightarrow> u64 \<Rightarrow> u64 \<Rightarrow> u64 \<Rightarrow> out_state \<Rightarrow> out_state res" where
  "out tr f c buffer idx maxlen s =
     (case f of
        Out_buffer \<Rightarrow>
          if idx < maxlen then bindR (tr (buffer + idx)) (\<lambda>a. Inr (s\<lparr>pmem := (pmem s)(a := c)\<rparr>)) else Inr s
      | Out_null \<Rightarrow> Inr s
      | Out_char \<Rightarrow> Inr (if c \<noteq> 0 then putchar c s else s)
      | Out_fct g \<Rightarrow> Inr (if c \<noteq> 0 then g c s else s))"

section \<open>Characters and flags\<close>

definition ch :: "char \<Rightarrow> u8" where
  "ch c = of_char c"

definition FLAGS_ZEROPAD :: u32 where "FLAGS_ZEROPAD = 1"
definition FLAGS_LEFT :: u32 where "FLAGS_LEFT = 2"
definition FLAGS_PLUS :: u32 where "FLAGS_PLUS = 4"
definition FLAGS_SPACE :: u32 where "FLAGS_SPACE = 8"
definition FLAGS_HASH :: u32 where "FLAGS_HASH = 16"
definition FLAGS_UPPERCASE :: u32 where "FLAGS_UPPERCASE = 32"
definition FLAGS_CHAR :: u32 where "FLAGS_CHAR = 64"
definition FLAGS_SHORT :: u32 where "FLAGS_SHORT = 128"
definition FLAGS_LONG :: u32 where "FLAGS_LONG = 256"
definition FLAGS_LONG_LONG :: u32 where "FLAGS_LONG_LONG = 512"
definition FLAGS_PRECISION :: u32 where "FLAGS_PRECISION = 1024"

definition NTOA_BUFFER_SIZE :: nat where "NTOA_BUFFER_SIZE = 32"

abbreviation has :: "u32 \<Rightarrow> u32 \<Rightarrow> bool" where
  "has flags f \<equiv> flags AND f \<noteq> 0"

definition is_digit :: "u8 \<Rightarrow> bool" where
  "is_digit c \<longleftrightarrow> c \<ge> ch CHR ''0'' \<and> c \<le> ch CHR ''9''"

section \<open>Strings\<close>

function strnlen_loop :: "nat \<Rightarrow> translation \<Rightarrow> u64 \<Rightarrow> u64 \<Rightarrow> out_state \<Rightarrow> u64 res" where
  "strnlen_loop fuel tr p maxsize s =
     (if fuel = 0 then Inl Out_of_fuel
      else bindR (read_char tr p s) (\<lambda>c.
        if c \<noteq> 0 \<and> maxsize \<noteq> 0 then strnlen_loop (fuel - 1) tr (p + 1) (maxsize - 1) s else Inr p))"
  by pat_completeness auto
termination by (relation "measure (\<lambda>(fuel, _). fuel)") auto

declare strnlen_loop.simps [simp del]

definition strnlen_s :: "translation \<Rightarrow> u64 \<Rightarrow> u64 \<Rightarrow> out_state \<Rightarrow> u32 res" where
  "strnlen_s tr str maxsize s = bindR (strnlen_loop str_fuel tr str maxsize s) (\<lambda>p. Inr (ucast (p - str)))"

function atoi_loop :: "nat \<Rightarrow> translation \<Rightarrow> u64 \<Rightarrow> u32 \<Rightarrow> out_state \<Rightarrow> (u32 \<times> u64) res" where
  "atoi_loop fuel tr p i s =
     (if fuel = 0 then Inl Out_of_fuel
      else bindR (read_char tr p s) (\<lambda>c.
        if is_digit c then atoi_loop (fuel - 1) tr (p + 1) (i * 10 + (ucast c - ucast (ch CHR ''0''))) s else Inr (i, p)))"
  by pat_completeness auto
termination by (relation "measure (\<lambda>(fuel, _). fuel)") auto

declare atoi_loop.simps [simp del]

text \<open>The number, and the address of the first character that is not a digit.\<close>

definition atoi :: "translation \<Rightarrow> u64 \<Rightarrow> out_state \<Rightarrow> (u32 \<times> u64) res" where
  "atoi tr str s = atoi_loop str_fuel tr str 0 s"

section \<open>Numbers\<close>

text \<open>\<open>n\<close> times the character \<open>c\<close>; the characters of a list.\<close>

fun out_n :: "nat \<Rightarrow> translation \<Rightarrow> out_fct_type \<Rightarrow> u8 \<Rightarrow> u64 \<Rightarrow> u64 \<Rightarrow> u64 \<Rightarrow> out_state \<Rightarrow> (u64 \<times> out_state) res" where
  "out_n 0 tr f c buffer idx maxlen s = Inr (idx, s)"
| "out_n (Suc n) tr f c buffer idx maxlen s =
     bindR (out tr f c buffer idx maxlen s) (out_n n tr f c buffer (idx + 1) maxlen)"

fun out_list :: "u8 list \<Rightarrow> translation \<Rightarrow> out_fct_type \<Rightarrow> u64 \<Rightarrow> u64 \<Rightarrow> u64 \<Rightarrow> out_state \<Rightarrow> (u64 \<times> out_state) res" where
  "out_list [] tr f buffer idx maxlen s = Inr (idx, s)"
| "out_list (c # cs) tr f buffer idx maxlen s =
     bindR (out tr f c buffer idx maxlen s) (out_list cs tr f buffer (idx + 1) maxlen)"

text \<open>
  The local array \<^verbatim>\<open>buf\<close> and its fill \<^verbatim>\<open>len\<close> are the list of the first \<^verbatim>\<open>len\<close> characters; the code never reads
  the array at or above \<^verbatim>\<open>len\<close>.
\<close>

definition out_rev ::
  "translation \<Rightarrow> out_fct_type \<Rightarrow> u64 \<Rightarrow> u64 \<Rightarrow> u64 \<Rightarrow> u8 list \<Rightarrow> u32 \<Rightarrow> u32 \<Rightarrow> out_state \<Rightarrow> (u64 \<times> out_state) res" where
  "out_rev tr f buffer idx maxlen buf width flags s =
     (let start_idx = idx in
      bindR (if \<not> has flags FLAGS_LEFT \<and> \<not> has flags FLAGS_ZEROPAD
             then out_n (unat width - length buf) tr f (ch CHR '' '') buffer idx maxlen s else Inr (idx, s)) (\<lambda>(idx, s).
      bindR (out_list (rev buf) tr f buffer idx maxlen s) (\<lambda>(idx, s).
      if has flags FLAGS_LEFT
      then out_n (unat width - unat (idx - start_idx)) tr f (ch CHR '' '') buffer idx maxlen s
      else Inr (idx, s))))"

definition push :: "u8 list \<Rightarrow> char \<Rightarrow> u8 list" where
  "push buf c = (if length buf < NTOA_BUFFER_SIZE then buf @ [ch c] else buf)"

text \<open>Zeros up to a length of \<open>n\<close>, as far as the array reaches.\<close>

definition pad_zeros :: "nat \<Rightarrow> u8 list \<Rightarrow> u8 list" where
  "pad_zeros n buf = buf @ replicate (min n NTOA_BUFFER_SIZE - length buf) (ch CHR ''0'')"

definition ntoa_hash :: "u8 list \<Rightarrow> u32 \<Rightarrow> u32 \<Rightarrow> u32 \<Rightarrow> u32 \<Rightarrow> u8 list" where
  "ntoa_hash buf base prec width flags =
     (if has flags FLAGS_HASH then
        let buf = (if \<not> has flags FLAGS_PRECISION \<and> buf \<noteq> [] \<and> (length buf = unat prec \<or> length buf = unat width)
                   then let buf = butlast buf in if buf \<noteq> [] \<and> base = 16 then butlast buf else buf
                   else buf);
            buf = (if base = 16 \<and> \<not> has flags FLAGS_UPPERCASE \<and> length buf < NTOA_BUFFER_SIZE then push buf CHR ''x''
                   else if base = 16 \<and> has flags FLAGS_UPPERCASE \<and> length buf < NTOA_BUFFER_SIZE then push buf CHR ''X''
                   else if base = 2 \<and> length buf < NTOA_BUFFER_SIZE then push buf CHR ''b''
                   else buf)
        in push buf CHR ''0''
      else buf)"

definition ntoa_sign :: "bool \<Rightarrow> u32 \<Rightarrow> u8 list \<Rightarrow> u8 list" where
  "ntoa_sign negative flags buf =
     (if length buf < NTOA_BUFFER_SIZE then
        if negative then push buf CHR ''-''
        else if has flags FLAGS_PLUS then push buf CHR ''+''
        else if has flags FLAGS_SPACE then push buf CHR '' ''
        else buf
      else buf)"

definition ntoa_format ::
  "translation \<Rightarrow> out_fct_type \<Rightarrow> u64 \<Rightarrow> u64 \<Rightarrow> u64 \<Rightarrow> u8 list \<Rightarrow> bool \<Rightarrow> u32 \<Rightarrow> u32 \<Rightarrow> u32 \<Rightarrow> u32 \<Rightarrow> out_state
     \<Rightarrow> (u64 \<times> out_state) res" where
  "ntoa_format tr f buffer idx maxlen buf negative base prec width flags s =
     (let (width, buf) =
        (if \<not> has flags FLAGS_LEFT then
           let width = (if width \<noteq> 0 \<and> has flags FLAGS_ZEROPAD \<and> (negative \<or> has flags (FLAGS_PLUS OR FLAGS_SPACE))
                        then width - 1 else width);
               buf = pad_zeros (unat prec) buf;
               buf = (if has flags FLAGS_ZEROPAD then pad_zeros (unat width) buf else buf)
           in (width, buf)
         else (width, buf));
        buf = ntoa_hash buf base prec width flags;
        buf = ntoa_sign negative flags buf
      in out_rev tr f buffer idx maxlen buf width flags s)"

definition digit_char :: "u32 \<Rightarrow> u8 \<Rightarrow> u8" where
  "digit_char flags digit =
     (if digit < 10 then ch CHR ''0'' + digit
      else (if has flags FLAGS_UPPERCASE then ch CHR ''A'' else ch CHR ''a'') + digit - 10)"

function ntoa_digits :: "u64 \<Rightarrow> u64 \<Rightarrow> u32 \<Rightarrow> u8 list \<Rightarrow> u8 list" where
  "ntoa_digits value base flags buf =
     (let buf' = buf @ [digit_char flags (ucast (value mod base))]; value' = value div base in
      if value' \<noteq> 0 \<and> length buf' < NTOA_BUFFER_SIZE then ntoa_digits value' base flags buf' else buf')"
  by pat_completeness auto
termination by (relation "measure (\<lambda>(value, base, flags, buf). NTOA_BUFFER_SIZE - length buf)") (auto simp: Let_def)

declare ntoa_digits.simps [simp del]

definition ntoa_long ::
  "translation \<Rightarrow> out_fct_type \<Rightarrow> u64 \<Rightarrow> u64 \<Rightarrow> u64 \<Rightarrow> u64 \<Rightarrow> bool \<Rightarrow> u64 \<Rightarrow> u32 \<Rightarrow> u32 \<Rightarrow> u32 \<Rightarrow> out_state
     \<Rightarrow> (u64 \<times> out_state) res" where
  "ntoa_long tr f buffer idx maxlen value negative base prec width flags s =
     (let flags = (if value = 0 then flags AND NOT FLAGS_HASH else flags);
          buf = (if \<not> has flags FLAGS_PRECISION \<or> value \<noteq> 0 then ntoa_digits value base flags [] else [])
      in ntoa_format tr f buffer idx maxlen buf negative (ucast base) prec width flags s)"

text \<open>\<^verbatim>\<open>unsigned long long\<close> has 64 bits, as \<^verbatim>\<open>unsigned long\<close> has.\<close>

definition ntoa_long_long ::
  "translation \<Rightarrow> out_fct_type \<Rightarrow> u64 \<Rightarrow> u64 \<Rightarrow> u64 \<Rightarrow> u64 \<Rightarrow> bool \<Rightarrow> u64 \<Rightarrow> u32 \<Rightarrow> u32 \<Rightarrow> u32 \<Rightarrow> out_state
     \<Rightarrow> (u64 \<times> out_state) res" where
  "ntoa_long_long tr f buffer idx maxlen value negative base prec width flags s =
     (let flags = (if value = 0 then flags AND NOT FLAGS_HASH else flags);
          buf = (if \<not> has flags FLAGS_PRECISION \<or> value \<noteq> 0 then ntoa_digits value base flags [] else [])
      in ntoa_format tr f buffer idx maxlen buf negative (ucast base) prec width flags s)"

section \<open>Format specifiers\<close>

text \<open>The next variable argument; reading past the last one is undefined.\<close>

definition va_arg :: "u64 list \<Rightarrow> (u64 \<times> u64 list) res" where
  "va_arg va = (case va of [] \<Rightarrow> Inl Out_of_bounds | v # vs \<Rightarrow> Inr (v, vs))"

definition flag_of :: "u8 \<Rightarrow> u32 option" where
  "flag_of c =
     (if c = ch CHR ''0'' then Some FLAGS_ZEROPAD else if c = ch CHR ''-'' then Some FLAGS_LEFT
      else if c = ch CHR ''+'' then Some FLAGS_PLUS else if c = ch CHR '' '' then Some FLAGS_SPACE
      else if c = ch CHR ''#'' then Some FLAGS_HASH else None)"

function parse_flags :: "nat \<Rightarrow> translation \<Rightarrow> u64 \<Rightarrow> u32 \<Rightarrow> out_state \<Rightarrow> (u32 \<times> u64) res" where
  "parse_flags fuel tr format flags s =
     (if fuel = 0 then Inl Out_of_fuel
      else bindR (read_char tr format s) (\<lambda>c.
        case flag_of c of Some b \<Rightarrow> parse_flags (fuel - 1) tr (format + 1) (flags OR b) s | None \<Rightarrow> Inr (flags, format)))"
  by pat_completeness auto
termination by (relation "measure (\<lambda>(fuel, _). fuel)") auto

declare parse_flags.simps [simp del]

definition parse_width ::
  "translation \<Rightarrow> u64 \<Rightarrow> u32 \<Rightarrow> u64 list \<Rightarrow> out_state \<Rightarrow> (u32 \<times> u32 \<times> u64 \<times> u64 list) res" where
  "parse_width tr format flags va s =
     bindR (read_char tr format s) (\<lambda>c.
     if is_digit c then bindR (atoi tr format s) (\<lambda>(width, format). Inr (flags, width, format, va))
     else if c = ch CHR ''*'' then
       bindR (va_arg va) (\<lambda>(v, va).
       let w = ucast v :: u32 in
       if sint w < 0 then
         if w = - (2 ^ 31) then Inl Signed_overflow else Inr (flags OR FLAGS_LEFT, - w, format + 1, va)
       else Inr (flags, w, format + 1, va))
     else Inr (flags, 0, format, va))"

definition parse_precision ::
  "translation \<Rightarrow> u64 \<Rightarrow> u32 \<Rightarrow> u64 list \<Rightarrow> out_state \<Rightarrow> (u32 \<times> u32 \<times> u64 \<times> u64 list) res" where
  "parse_precision tr format flags va s =
     bindR (read_char tr format s) (\<lambda>c.
     if c = ch CHR ''.'' then
       let flags = flags OR FLAGS_PRECISION; format = format + 1 in
       bindR (read_char tr format s) (\<lambda>c.
       if is_digit c then bindR (atoi tr format s) (\<lambda>(precision, format). Inr (flags, precision, format, va))
       else if c = ch CHR ''*'' then
         bindR (va_arg va) (\<lambda>(v, va).
         let prec = ucast v :: u32 in Inr (flags, if sint prec > 0 then prec else 0, format + 1, va))
       else Inr (flags, 0, format, va))
     else Inr (flags, 0, format, va))"

definition parse_length :: "translation \<Rightarrow> u64 \<Rightarrow> u32 \<Rightarrow> out_state \<Rightarrow> (u32 \<times> u64) res" where
  "parse_length tr format flags s =
     bindR (read_char tr format s) (\<lambda>c.
     if c = ch CHR ''l'' then
       bindR (read_char tr (format + 1) s) (\<lambda>c.
       Inr (if c = ch CHR ''l'' then (flags OR FLAGS_LONG OR FLAGS_LONG_LONG, format + 2) else (flags OR FLAGS_LONG, format + 1)))
     else if c = ch CHR ''h'' then
       bindR (read_char tr (format + 1) s) (\<lambda>c.
       Inr (if c = ch CHR ''h'' then (flags OR FLAGS_SHORT OR FLAGS_CHAR, format + 2) else (flags OR FLAGS_SHORT, format + 1)))
     else if c = ch CHR ''t'' \<or> c = ch CHR ''j'' \<or> c = ch CHR ''z'' then Inr (flags OR FLAGS_LONG, format + 1)
     else Inr (flags, format))"

section \<open>Conversions\<close>

text \<open>\<^verbatim>\<open>value > 0 ? value : 0 - value\<close>, which overflows for the least number of its type.\<close>

definition magnitude :: "nat \<Rightarrow> int \<Rightarrow> u64 res" where
  "magnitude bits v = (if v = - (2 ^ (bits - 1)) then Inl Signed_overflow else Inr (word_of_int \<bar>v\<bar>))"

definition int_base :: "u8 \<Rightarrow> u32 \<times> u32" where
  "int_base c =
     (if c = ch CHR ''x'' \<or> c = ch CHR ''X'' then (16, 0) else if c = ch CHR ''o'' then (8, 0)
      else if c = ch CHR ''b'' then (2, 0) else (10, FLAGS_HASH))"

definition int_flags :: "u8 \<Rightarrow> u32 \<Rightarrow> u32" where
  "int_flags c flags =
     (let flags = flags AND NOT (snd (int_base c));
          flags = (if c = ch CHR ''X'' then flags OR FLAGS_UPPERCASE else flags);
          flags = (if c \<noteq> ch CHR ''i'' \<and> c \<noteq> ch CHR ''d'' then flags AND NOT (FLAGS_PLUS OR FLAGS_SPACE) else flags)
      in if has flags FLAGS_PRECISION then flags AND NOT FLAGS_ZEROPAD else flags)"

definition conv_int ::
  "translation \<Rightarrow> out_fct_type \<Rightarrow> u64 \<Rightarrow> u64 \<Rightarrow> u64 \<Rightarrow> u8 \<Rightarrow> u32 \<Rightarrow> u32 \<Rightarrow> u32 \<Rightarrow> u64 list \<Rightarrow> out_state
     \<Rightarrow> (u64 \<times> u64 list \<times> out_state) res" where
  "conv_int tr f buffer idx maxlen c flags width precision va s =
     (let base = fst (int_base c); flags = int_flags c flags in
      bindR (va_arg va) (\<lambda>(v, va).
      bindR (if c = ch CHR ''i'' \<or> c = ch CHR ''d'' then
               if has flags FLAGS_LONG_LONG then
                 bindR (magnitude 64 (sint v)) (\<lambda>w.
                 ntoa_long_long tr f buffer idx maxlen w (sint v < 0) (ucast base) precision width flags s)
               else if has flags FLAGS_LONG then
                 bindR (magnitude 64 (sint v)) (\<lambda>w.
                 ntoa_long tr f buffer idx maxlen w (sint v < 0) (ucast base) precision width flags s)
               else
                 let value = (if has flags FLAGS_CHAR then uint (ucast v :: u8)
                              else if has flags FLAGS_SHORT then sint (ucast v :: u16) else sint (ucast v :: u32))
                 in bindR (magnitude 32 value) (\<lambda>w.
                    ntoa_long tr f buffer idx maxlen w (value < 0) (ucast base) precision width flags s)
             else
               if has flags FLAGS_LONG_LONG then
                 ntoa_long_long tr f buffer idx maxlen v False (ucast base) precision width flags s
               else if has flags FLAGS_LONG then
                 ntoa_long tr f buffer idx maxlen v False (ucast base) precision width flags s
               else
                 let value = (if has flags FLAGS_CHAR then ucast (ucast v :: u8)
                              else if has flags FLAGS_SHORT then ucast (ucast v :: u16) else ucast (ucast v :: u32)) :: u64
                 in ntoa_long tr f buffer idx maxlen value False (ucast base) precision width flags s) (\<lambda>(idx, s).
      Inr (idx, va, s))))"

definition conv_char ::
  "translation \<Rightarrow> out_fct_type \<Rightarrow> u64 \<Rightarrow> u64 \<Rightarrow> u64 \<Rightarrow> u32 \<Rightarrow> u32 \<Rightarrow> u64 list \<Rightarrow> out_state
     \<Rightarrow> (u64 \<times> u64 list \<times> out_state) res" where
  "conv_char tr f buffer idx maxlen flags width va s =
     (let pad = unat width - 1 in
      bindR (if \<not> has flags FLAGS_LEFT then out_n pad tr f (ch CHR '' '') buffer idx maxlen s else Inr (idx, s)) (\<lambda>(idx, s).
      bindR (va_arg va) (\<lambda>(v, va).
      bindR (out tr f (ucast v) buffer idx maxlen s) (\<lambda>s.
      bindR (if has flags FLAGS_LEFT then out_n pad tr f (ch CHR '' '') buffer (idx + 1) maxlen s else Inr (idx + 1, s)) (\<lambda>(idx, s).
      Inr (idx, va, s))))))"

text \<open>\<open>left\<close>: how many characters the precision still allows, if one is given.\<close>

function out_string ::
  "nat \<Rightarrow> translation \<Rightarrow> out_fct_type \<Rightarrow> u64 \<Rightarrow> u64 \<Rightarrow> u64 \<Rightarrow> u64 \<Rightarrow> u32 option \<Rightarrow> out_state \<Rightarrow> (u64 \<times> out_state) res" where
  "out_string fuel tr f buffer idx maxlen p left s =
     (if fuel = 0 then Inl Out_of_fuel
      else bindR (read_char tr p s) (\<lambda>c.
        if c \<noteq> 0 \<and> left \<noteq> Some 0 then
          bindR (out tr f c buffer idx maxlen s) (\<lambda>s.
          out_string (fuel - 1) tr f buffer (idx + 1) maxlen (p + 1) (map_option (\<lambda>n. n - 1) left) s)
        else Inr (idx, s)))"
  by pat_completeness auto
termination by (relation "measure (\<lambda>(fuel, _). fuel)") auto

declare out_string.simps [simp del]

definition conv_string ::
  "translation \<Rightarrow> out_fct_type \<Rightarrow> u64 \<Rightarrow> u64 \<Rightarrow> u64 \<Rightarrow> u32 \<Rightarrow> u32 \<Rightarrow> u32 \<Rightarrow> u64 list \<Rightarrow> out_state
     \<Rightarrow> (u64 \<times> u64 list \<times> out_state) res" where
  "conv_string tr f buffer idx maxlen flags width precision va s =
     bindR (va_arg va) (\<lambda>(p, va).
     bindR (strnlen_s tr p (if precision \<noteq> 0 then ucast precision else - 1) s) (\<lambda>l.
     let l = (if has flags FLAGS_PRECISION then min l precision else l); pad = unat width - unat l in
     bindR (if \<not> has flags FLAGS_LEFT then out_n pad tr f (ch CHR '' '') buffer idx maxlen s else Inr (idx, s)) (\<lambda>(idx, s).
     bindR (out_string str_fuel tr f buffer idx maxlen p (if has flags FLAGS_PRECISION then Some precision else None) s) (\<lambda>(idx, s).
     bindR (if has flags FLAGS_LEFT then out_n pad tr f (ch CHR '' '') buffer idx maxlen s else Inr (idx, s)) (\<lambda>(idx, s).
     Inr (idx, va, s))))))"

definition conv_pointer ::
  "translation \<Rightarrow> out_fct_type \<Rightarrow> u64 \<Rightarrow> u64 \<Rightarrow> u64 \<Rightarrow> u32 \<Rightarrow> u32 \<Rightarrow> u64 list \<Rightarrow> out_state
     \<Rightarrow> (u64 \<times> u64 list \<times> out_state) res" where
  "conv_pointer tr f buffer idx maxlen flags precision va s =
     bindR (va_arg va) (\<lambda>(v, va).
     bindR (ntoa_long_long tr f buffer idx maxlen v False 16 precision 16 (flags OR FLAGS_ZEROPAD OR FLAGS_UPPERCASE) s) (\<lambda>(idx, s).
     Inr (idx, va, s)))"

definition is_int_conv :: "u8 \<Rightarrow> bool" where
  "is_int_conv c \<longleftrightarrow> c \<in> {ch CHR ''d'', ch CHR ''i'', ch CHR ''u'', ch CHR ''x'', ch CHR ''X'', ch CHR ''o'', ch CHR ''b''}"

definition convert ::
  "translation \<Rightarrow> out_fct_type \<Rightarrow> u64 \<Rightarrow> u64 \<Rightarrow> u64 \<Rightarrow> u8 \<Rightarrow> u32 \<Rightarrow> u32 \<Rightarrow> u32 \<Rightarrow> u64 list \<Rightarrow> out_state
     \<Rightarrow> (u64 \<times> u64 list \<times> out_state) res" where
  "convert tr f buffer idx maxlen c flags width precision va s =
     (if is_int_conv c then conv_int tr f buffer idx maxlen c flags width precision va s
      else if c = ch CHR ''c'' then conv_char tr f buffer idx maxlen flags width va s
      else if c = ch CHR ''s'' then conv_string tr f buffer idx maxlen flags width precision va s
      else if c = ch CHR ''p'' then conv_pointer tr f buffer idx maxlen flags precision va s
      else bindR (out tr f c buffer idx maxlen s) (\<lambda>s. Inr (idx + 1, va, s)))"

section \<open>The formatter\<close>

text \<open>The fields of a specifier, from the character after the per cent sign to the conversion.\<close>

definition parse_spec ::
  "translation \<Rightarrow> u64 \<Rightarrow> u64 list \<Rightarrow> out_state \<Rightarrow> (u32 \<times> u32 \<times> u32 \<times> u64 \<times> u64 list) res" where
  "parse_spec tr format va s =
     bindR (parse_flags str_fuel tr format 0 s) (\<lambda>(flags, format).
     bindR (parse_width tr format flags va s) (\<lambda>(flags, width, format, va).
     bindR (parse_precision tr format flags va s) (\<lambda>(flags, precision, format, va).
     bindR (parse_length tr format flags s) (\<lambda>(flags, format).
     Inr (flags, width, precision, format, va)))))"

function vsnprintf_loop ::
  "nat \<Rightarrow> translation \<Rightarrow> out_fct_type \<Rightarrow> u64 \<Rightarrow> u64 \<Rightarrow> u64 \<Rightarrow> u64 list \<Rightarrow> u64 \<Rightarrow> out_state \<Rightarrow> (u64 \<times> out_state) res" where
  "vsnprintf_loop fuel tr f buffer maxlen format va idx s =
     (if fuel = 0 then Inl Out_of_fuel
      else bindR (read_char tr format s) (\<lambda>c.
        if c = 0 then Inr (idx, s)
        else if c \<noteq> ch CHR ''%'' then
          bindR (out tr f c buffer idx maxlen s) (vsnprintf_loop (fuel - 1) tr f buffer maxlen (format + 1) va (idx + 1))
        else
          bindR (parse_spec tr (format + 1) va s) (\<lambda>(flags, width, precision, format, va).
          bindR (read_char tr format s) (\<lambda>c.
          bindR (convert tr f buffer idx maxlen c flags width precision va s) (\<lambda>(idx, va, s).
          vsnprintf_loop (fuel - 1) tr f buffer maxlen (format + 1) va idx s)))))"
  by pat_completeness auto
termination by (relation "measure (\<lambda>(fuel, _). fuel)") auto

declare vsnprintf_loop.simps [simp del]

text \<open>The terminating zero, in the last place of a full buffer. The result is converted to \<^verbatim>\<open>int\<close>.\<close>

definition vsnprintf_end :: "translation \<Rightarrow> out_fct_type \<Rightarrow> u64 \<Rightarrow> u64 \<Rightarrow> u64 \<Rightarrow> out_state \<Rightarrow> (int \<times> out_state) res" where
  "vsnprintf_end tr f buffer maxlen idx s =
     bindR (out tr f 0 buffer (if idx < maxlen then idx else maxlen - 1) maxlen s) (\<lambda>s.
     Inr (sint (ucast idx :: u32), s))"

text \<open>\<^verbatim>\<open>_vsnprintf\<close>.\<close>

definition vsnprintf_core ::
  "translation \<Rightarrow> out_fct_type \<Rightarrow> u64 \<Rightarrow> u64 \<Rightarrow> u64 \<Rightarrow> u64 list \<Rightarrow> out_state \<Rightarrow> (int \<times> out_state) res" where
  "vsnprintf_core tr f buffer maxlen format va s =
     (let f = (if buffer = NULL then Out_null else f) in
      bindR (vsnprintf_loop str_fuel tr f buffer maxlen format va 0 s) (\<lambda>(idx, s).
      vsnprintf_end tr f buffer maxlen idx s))"

text \<open>\<^verbatim>\<open>printf_\<close> passes the address of a local array as buffer, which is never null.\<close>

definition printf :: "translation \<Rightarrow> u64 \<Rightarrow> u64 list \<Rightarrow> out_state \<Rightarrow> (int \<times> out_state) res" where
  "printf tr format va s = vsnprintf_core tr Out_char 1 (- 1) format va s"

definition sprintf :: "translation \<Rightarrow> u64 \<Rightarrow> u64 \<Rightarrow> u64 list \<Rightarrow> out_state \<Rightarrow> (int \<times> out_state) res" where
  "sprintf tr buffer format va s = vsnprintf_core tr Out_buffer buffer (- 1) format va s"

definition snprintf :: "translation \<Rightarrow> u64 \<Rightarrow> u64 \<Rightarrow> u64 \<Rightarrow> u64 list \<Rightarrow> out_state \<Rightarrow> (int \<times> out_state) res" where
  "snprintf tr buffer count format va s = vsnprintf_core tr Out_buffer buffer count format va s"

definition vprintf :: "translation \<Rightarrow> u64 \<Rightarrow> u64 list \<Rightarrow> out_state \<Rightarrow> (int \<times> out_state) res" where
  "vprintf tr format va s = vsnprintf_core tr Out_char 1 (- 1) format va s"

definition vsnprintf :: "translation \<Rightarrow> u64 \<Rightarrow> u64 \<Rightarrow> u64 \<Rightarrow> u64 list \<Rightarrow> out_state \<Rightarrow> (int \<times> out_state) res" where
  "vsnprintf tr buffer count format va s = vsnprintf_core tr Out_buffer buffer count format va s"

definition fctprintf ::
  "translation \<Rightarrow> (u8 \<Rightarrow> out_state \<Rightarrow> out_state) \<Rightarrow> u64 \<Rightarrow> u64 list \<Rightarrow> out_state \<Rightarrow> (int \<times> out_state) res" where
  "fctprintf tr g format va s = vsnprintf_core tr (Out_fct g) 1 (- 1) format va s"

end
