(* ===== verification/Printf_Correct.thy ===== *)
theory Printf_Correct
  imports Printf
begin

text \<open>
  What the formatter promises. The locale \<open>out_sink\<close> carries a relation that one output step establishes
  through the whole formatter; it is interpreted for the buffer and for the UART.
\<close>

section \<open>Sinks\<close>

locale out_sink =
  fixes tr :: translation and f :: out_fct_type and buffer maxlen :: u64 and R :: "out_state \<Rightarrow> out_state \<Rightarrow> bool"
  assumes R_refl: "R s s"
    and R_trans: "R s s1 \<Longrightarrow> R s1 s2 \<Longrightarrow> R s s2"
    and R_out: "out tr f c buffer idx maxlen s = Inr s' \<Longrightarrow> R s s'"
begin

lemma R_out_n: "out_n n tr f c buffer idx maxlen s = Inr (idx', s') \<Longrightarrow> R s s'"
proof (induction n arbitrary: idx s)
  case 0
  then show ?case using R_refl by simp
next
  case (Suc n)
  then show ?case using R_out R_trans by (fastforce simp: bindR_eq_Inr)
qed

lemma R_out_list: "out_list cs tr f buffer idx maxlen s = Inr (idx', s') \<Longrightarrow> R s s'"
proof (induction cs arbitrary: idx s)
  case Nil
  then show ?case using R_refl by simp
next
  case (Cons c cs)
  then show ?case using R_out R_trans by (fastforce simp: bindR_eq_Inr)
qed

lemma R_pad: "(if b then out_n n tr f c buffer idx maxlen s else Inr (idx, s)) = Inr (idx', s') \<Longrightarrow> R s s'"
  using R_out_n R_refl by (auto split: if_splits)

lemma R_out_rev: "out_rev tr f buffer idx maxlen buf width flags s = Inr (idx', s') \<Longrightarrow> R s s'"
  unfolding out_rev_def Let_def bindR_eq_Inr
  by (fastforce simp: bindR_eq_Inr dest!: R_out_n R_out_list split: if_splits intro: R_trans)

lemma R_ntoa_format: "ntoa_format tr f buffer idx maxlen buf negative base prec width flags s = Inr (idx', s') \<Longrightarrow> R s s'"
  unfolding ntoa_format_def Let_def case_prod_unfold by (rule R_out_rev)

lemma R_ntoa:
  "ntoa_long tr f buffer idx maxlen v negative base prec width flags s = Inr (idx', s') \<Longrightarrow> R s s'"
  "ntoa_long_long tr f buffer idx maxlen v negative base prec width flags s = Inr (idx', s') \<Longrightarrow> R s s'"
  unfolding ntoa_long_def ntoa_long_long_def Let_def by (blast dest: R_ntoa_format)+

lemma R_conv_int: "conv_int tr f buffer idx maxlen c flags width precision va s = Inr (idx', va', s') \<Longrightarrow> R s s'"
  unfolding conv_int_def Let_def bindR_eq_Inr
  by (auto simp: bindR_eq_Inr split: if_splits dest: R_ntoa)

lemma R_conv_char: "conv_char tr f buffer idx maxlen flags width va s = Inr (idx', va', s') \<Longrightarrow> R s s'"
  unfolding conv_char_def Let_def bindR_eq_Inr
  by (fastforce simp: bindR_eq_Inr dest!: R_pad R_out intro: R_trans)

lemma R_out_string: "out_string fuel tr f buffer idx maxlen p left s = Inr (idx', s') \<Longrightarrow> R s s'"
proof (induction fuel arbitrary: idx p left s)
  case 0
  then show ?case by (simp add: out_string.simps)
next
  case (Suc fuel)
  from Suc.prems show ?case
    by (subst (asm) out_string.simps) (auto simp: bindR_eq_Inr split: if_splits intro: R_refl R_trans dest: R_out Suc.IH)
qed

lemma R_conv_string: "conv_string tr f buffer idx maxlen flags width precision va s = Inr (idx', va', s') \<Longrightarrow> R s s'"
  unfolding conv_string_def Let_def bindR_eq_Inr
  by (fastforce simp: bindR_eq_Inr dest!: R_pad R_out_string intro: R_trans)

lemma R_conv_pointer: "conv_pointer tr f buffer idx maxlen flags precision va s = Inr (idx', va', s') \<Longrightarrow> R s s'"
  unfolding conv_pointer_def by (auto simp: bindR_eq_Inr dest: R_ntoa)

lemma R_convert: "convert tr f buffer idx maxlen c flags width precision va s = Inr (idx', va', s') \<Longrightarrow> R s s'"
  unfolding convert_def
  by (auto simp: bindR_eq_Inr split: if_splits dest: R_conv_int R_conv_char R_conv_string R_conv_pointer R_out)

lemma R_loop: "vsnprintf_loop fuel tr f buffer maxlen format va idx s = Inr (idx', s') \<Longrightarrow> R s s'"
proof (induction fuel arbitrary: format va idx s)
  case 0
  then show ?case by (simp add: vsnprintf_loop.simps)
next
  case (Suc fuel)
  from Suc.prems show ?case
    by (subst (asm) vsnprintf_loop.simps)
      (auto simp: bindR_eq_Inr split: if_splits intro: R_refl R_trans dest: R_out R_convert Suc.IH)
qed

lemma R_core: "buffer \<noteq> NULL \<Longrightarrow> vsnprintf_core tr f buffer maxlen format va s = Inr (r, s') \<Longrightarrow> R s s'"
  unfolding vsnprintf_core_def vsnprintf_end_def by (auto simp: bindR_eq_Inr dest!: R_loop R_out intro: R_trans)

end

section \<open>The buffer and the UART\<close>

definition wrote :: "translation \<Rightarrow> u64 \<Rightarrow> u64 \<Rightarrow> out_state \<Rightarrow> out_state \<Rightarrow> bool" where
  "wrote tr buffer maxlen s s' \<longleftrightarrow> uart s' = uart s \<and>
     (\<forall>a. pmem s' a \<noteq> pmem s a \<longrightarrow> (\<exists>k < maxlen. tr (buffer + k) = Inr a))"

definition shown :: "out_state \<Rightarrow> out_state \<Rightarrow> bool" where
  "shown s s' \<longleftrightarrow> pmem s' = pmem s \<and> (\<exists>cs. uart s' = uart s @ cs)"

interpretation buf: out_sink tr Out_buffer buffer maxlen "wrote tr buffer maxlen" for tr buffer maxlen
proof unfold_locales
  show "wrote tr buffer maxlen s s" for s by (simp add: wrote_def)
  show "wrote tr buffer maxlen s s2" if "wrote tr buffer maxlen s s1" "wrote tr buffer maxlen s1 s2" for s s1 s2
    using that unfolding wrote_def by metis
  show "wrote tr buffer maxlen s s'" if "out tr Out_buffer c buffer idx maxlen s = Inr s'" for c idx s s'
    using that by (auto simp: out_def wrote_def bindR_eq_Inr split: if_splits)
qed

interpretation null: out_sink tr Out_null buffer maxlen "(=)" for tr buffer maxlen
  by unfold_locales (auto simp: out_def)

interpretation con: out_sink tr Out_char buffer maxlen shown for tr buffer maxlen
  by unfold_locales (auto simp: out_def shown_def putchar_def)

section \<open>Strings in memory\<close>

text \<open>The characters \<open>xs\<close>, none of them zero, and then a zero are read at \<open>p\<close>.\<close>

fun tstr :: "translation \<Rightarrow> out_state \<Rightarrow> u64 \<Rightarrow> u8 list \<Rightarrow> bool" where
  "tstr tr s p [] \<longleftrightarrow> read_char tr p s = Inr 0"
| "tstr tr s p (x # xs) \<longleftrightarrow> read_char tr p s = Inr x \<and> x \<noteq> 0 \<and> tstr tr s (p + 1) xs"

lemma read_char_uart [simp]: "read_char tr p (s\<lparr>uart := u\<rparr>) = read_char tr p s"
  by (simp add: read_char_def)

lemma tstr_uart [simp]: "tstr tr (s\<lparr>uart := u\<rparr>) p xs = tstr tr s p xs"
  by (induction xs arbitrary: p) simp_all

lemma ch_simps [simp]:
  "ch CHR ''0'' = 48" "ch CHR ''9'' = 57" "ch CHR '' '' = 32" "ch CHR ''-'' = 45" "ch CHR ''+'' = 43" "ch CHR ''#'' = 35"
  "ch CHR ''*'' = 42" "ch CHR ''.'' = 46" "ch CHR ''%'' = 37" "ch CHR ''l'' = 108" "ch CHR ''h'' = 104" "ch CHR ''t'' = 116"
  "ch CHR ''j'' = 106" "ch CHR ''z'' = 122" "ch CHR ''d'' = 100" "ch CHR ''i'' = 105" "ch CHR ''u'' = 117" "ch CHR ''x'' = 120"
  "ch CHR ''X'' = 88" "ch CHR ''o'' = 111" "ch CHR ''b'' = 98" "ch CHR ''c'' = 99" "ch CHR ''s'' = 115" "ch CHR ''p'' = 112"
  "ch CHR ''a'' = 97" "ch CHR ''A'' = 65"
  by (simp_all add: ch_def)

lemma strnlen_loop_tstr:
  assumes "tstr tr s p xs" "length xs < fuel" "length xs \<le> unat maxsize"
  shows "strnlen_loop fuel tr p maxsize s = Inr (p + of_nat (length xs))"
  using assms
proof (induction xs arbitrary: p fuel maxsize)
  case Nil
  then show ?case by (subst strnlen_loop.simps) simp
next
  case (Cons x xs)
  have "maxsize \<noteq> 0" using Cons.prems(3) by auto
  moreover have "length xs \<le> unat (maxsize - 1)" using Cons.prems(3) \<open>maxsize \<noteq> 0\<close> by (simp add: unat_minus_one)
  then have "strnlen_loop (fuel - 1) tr (p + 1) (maxsize - 1) s = Inr (p + 1 + of_nat (length xs))"
    using Cons.prems by (intro Cons.IH) auto
  ultimately show ?case using Cons.prems by (subst strnlen_loop.simps) (simp add: add.assoc)
qed

lemma out_string_char:
  assumes "tstr tr s p xs" "length xs < fuel"
  shows "out_string fuel tr Out_char buffer idx maxlen p None s = Inr (idx + of_nat (length xs), s\<lparr>uart := uart s @ xs\<rparr>)"
  using assms
proof (induction xs arbitrary: p fuel idx s)
  case Nil
  then show ?case by (subst out_string.simps) simp
next
  case (Cons x xs)
  then have "out_string (fuel - 1) tr Out_char buffer (idx + 1) maxlen (p + 1) None (putchar x s) =
      Inr (idx + 1 + of_nat (length xs), (putchar x s)\<lparr>uart := uart (putchar x s) @ xs\<rparr>)"
    by (intro Cons.IH) (auto simp: putchar_def)
  then show ?case using Cons.prems by (subst out_string.simps) (simp add: out_def putchar_def add.assoc)
qed

text \<open>A conversion right after the per cent sign has no flags, width, precision or length.\<close>

lemma str_fuel_pos [simp]: "str_fuel \<noteq> 0"
  by (simp add: str_fuel_def)

lemma parse_spec_plain:
  assumes "read_char tr p s = Inr c" "flag_of c = None" "\<not> is_digit c" "c \<notin> {42, 46, 108, 104, 116, 106, 122}"
  shows "parse_spec tr p va s = Inr (0, 0, 0, p, va)"
proof -
  have "parse_flags str_fuel tr p 0 s = Inr (0, p)" using assms(1,2) by (subst parse_flags.simps) simp
  then show ?thesis using assms(1,3,4) by (simp add: parse_spec_def parse_width_def parse_precision_def parse_length_def)
qed

lemma flag_of_eq: "flag_of c = None \<longleftrightarrow> c \<notin> {48, 45, 43, 32, 35}"
  by (auto simp: flag_of_def)

lemma vsnprintf_conversion:
  assumes "tstr tr s p [37, c]" "flag_of c = None" "\<not> is_digit c" "c \<notin> {42, 46, 108, 104, 116, 106, 122}" "1 < fuel"
    and "convert tr f buffer idx maxlen c 0 0 0 va s = Inr (idx', va', s')" "read_char tr (p + 2) s' = Inr 0"
  shows "vsnprintf_loop fuel tr f buffer maxlen p va idx s = Inr (idx', s')"
proof -
  have r: "read_char tr p s = Inr 37" "read_char tr (p + 1) s = Inr c" using assms(1) by simp_all
  have "vsnprintf_loop (fuel - 1) tr f buffer maxlen (p + 1 + 1) va' idx' s' = Inr (idx', s')"
    using assms(5,7) by (subst vsnprintf_loop.simps) (simp add: add.assoc)
  then show ?thesis
    using assms(5,6) r parse_spec_plain [OF r(2) assms(2-4)] by (subst vsnprintf_loop.simps) simp
qed

lemma result_length: "n < 2 ^ 31 \<Longrightarrow> sint (ucast (of_nat n :: u64) :: u32) = int n"
  by (subst sint_ucast_small) (simp_all add: uint_nat unat_of_nat)

text \<open>\<^verbatim>\<open>printf("%s", p)\<close>.\<close>

lemma printf_string:
  assumes "tstr tr s fmt [ch CHR ''%'', ch CHR ''s'']" "tstr tr s p xs" "length xs < 2 ^ 31"
  shows "printf tr fmt [p] s = Inr (int (length xs), s\<lparr>uart := uart s @ xs\<rparr>)"
proof -
  let ?s = "s\<lparr>uart := uart s @ xs\<rparr>"
  have f: "length xs < str_fuel" "length xs \<le> unat (- 1 :: u64)"
    using assms(3) by (simp_all add: str_fuel_def unsigned_minus_1_eq_mask mask_eq_exp_minus_1)
  have "strnlen_s tr p (- 1) s = Inr (of_nat (length xs))"
    using strnlen_loop_tstr [OF assms(2) f] by (simp add: strnlen_s_def ucast_of_nat)
  then have "convert tr Out_char 1 0 (- 1) 115 0 0 0 [p] s = Inr (of_nat (length xs), [], ?s)"
    using out_string_char [OF assms(2) f(1), of 1 0 "- 1"]
    by (simp add: convert_def is_int_conv_def conv_string_def va_arg_def)
  moreover have "read_char tr (fmt + 2) ?s = Inr 0" using assms(1) by (simp add: add.assoc)
  ultimately have "vsnprintf_loop str_fuel tr Out_char 1 (- 1) fmt [p] 0 s = Inr (of_nat (length xs), ?s)"
    using assms(1) by (intro vsnprintf_conversion [where c = 115]) (simp_all add: flag_of_eq is_digit_def str_fuel_def)
  then show ?thesis using result_length [OF assms(3)] by (simp add: printf_def vsnprintf_core_def vsnprintf_end_def out_def)
qed

section \<open>Digits\<close>

text \<open>The digits of \<open>n\<close> in base \<open>b\<close>, least significant first, and the number they stand for.\<close>

function digits_of :: "nat \<Rightarrow> nat \<Rightarrow> nat list" where
  "digits_of b n = (if n < b \<or> b < 2 then [n] else n mod b # digits_of b (n div b))"
  by pat_completeness auto
termination by (relation "measure snd") auto

declare digits_of.simps [simp del]

definition number_of :: "nat \<Rightarrow> nat list \<Rightarrow> nat" where
  "number_of b ds = foldr (\<lambda>d n. d + b * n) ds 0"

lemma number_of_digits: "2 \<le> b \<Longrightarrow> number_of b (digits_of b n) = n"
proof (induction b n rule: digits_of.induct)
  case (1 b n)
  then show ?case by (subst digits_of.simps) (simp add: number_of_def)
qed

lemma digits_less: "2 \<le> b \<Longrightarrow> d \<in> set (digits_of b n) \<Longrightarrow> d < b"
proof (induction b n rule: digits_of.induct)
  case (1 b n)
  then show ?case by (subst (asm) (2) digits_of.simps) (auto split: if_splits)
qed

lemma digits_nonempty: "digits_of b n \<noteq> []"
  by (subst digits_of.simps) simp

lemma digits_length: "2 \<le> b \<Longrightarrow> 0 < k \<Longrightarrow> n < b ^ k \<Longrightarrow> length (digits_of b n) \<le> k"
proof (induction k arbitrary: n)
  case 0
  then show ?case by simp
next
  case (Suc k)
  show ?case
  proof (cases "n < b")
    case True
    then show ?thesis by (subst digits_of.simps) simp
  next
    case False
    have nb: "n div b < b ^ k" using Suc.prems by (simp add: less_mult_imp_div_less mult.commute)
    moreover have "0 < k" using False Suc.prems(3) by (cases k) auto
    ultimately show ?thesis using Suc False by (subst digits_of.simps) simp
  qed
qed

text \<open>The conversion loop against the reference: the first 32 digits.\<close>

lemma ntoa_digits_eq:
  assumes "2 \<le> unat base" "unat base \<le> 36" "length buf < 32"
  shows "ntoa_digits v base flags buf =
    buf @ map (\<lambda>d. digit_char flags (of_nat d)) (take (32 - length buf) (digits_of (unat base) (unat v)))"
  using assms
proof (induction v base flags buf rule: ntoa_digits.induct)
  case (1 v base flags buf)
  let ?b = "unat base" and ?c = "digit_char flags (ucast (v mod base))"
  have m: "unat (v mod base) = unat v mod ?b" "unat (v div base) = unat v div ?b" by (simp_all add: unat_mod unat_div)
  have c: "?c = digit_char flags (of_nat (unat v mod ?b))"
    unfolding m(1) [symmetric] by simp
  have z: "v div base = 0 \<longleftrightarrow> unat v < ?b" using "1.prems"(1) m(2) by (metis div_eq_0_iff not_numeral_le_zero unat_eq_zero)
  show ?case
  proof (cases "v div base \<noteq> 0 \<and> length (buf @ [?c]) < NTOA_BUFFER_SIZE")
    case True
    then have l: "length (buf @ [?c]) < 32" by (simp add: NTOA_BUFFER_SIZE_def)
    have "ntoa_digits v base flags buf = ntoa_digits (v div base) base flags (buf @ [?c])"
      using True by (subst ntoa_digits.simps) (simp add: Let_def)
    also have "\<dots> = buf @ [?c] @ map (\<lambda>d. digit_char flags (of_nat d)) (take (32 - length (buf @ [?c])) (digits_of ?b (unat v div ?b)))"
      using "1.IH" [OF refl refl True "1.prems"(1,2) l] m(2) by simp
    finally show ?thesis
      using True z c l "1.prems"(1) by (subst digits_of.simps) (simp add: take_Cons' not_less)
  next
    case False
    then have "ntoa_digits v base flags buf = buf @ [?c]" by (subst ntoa_digits.simps) (auto simp: Let_def)
    moreover have "take (32 - length buf) (digits_of ?b (unat v)) = [unat v mod ?b]"
      using False z "1.prems" by (subst digits_of.simps) (auto simp: take_Cons' NTOA_BUFFER_SIZE_def)
    ultimately show ?thesis using c by simp
  qed
qed

section \<open>Numbers\<close>

lemma has_zero [simp]: "\<not> has 0 f"
  by simp

lemma ntoa_long_plain:
  assumes "length (ntoa_digits v base 0 []) < NTOA_BUFFER_SIZE"
  shows "ntoa_long tr f buffer idx maxlen v negative base 0 0 0 s =
    out_list ((if negative then [ch CHR ''-''] else []) @ rev (ntoa_digits v base 0 [])) tr f buffer idx maxlen s"
  using assms
  by (auto simp: ntoa_long_def ntoa_format_def pad_zeros_def ntoa_hash_def ntoa_sign_def push_def out_rev_def Let_def
      bindR_def case_prod_unfold split: sum.splits)

lemma out_list_char:
  "0 \<notin> set cs \<Longrightarrow> out_list cs tr Out_char buffer idx maxlen s = Inr (idx + of_nat (length cs), s\<lparr>uart := uart s @ cs\<rparr>)"
  by (induction cs arbitrary: idx s) (auto simp: out_def putchar_def add.assoc)

definition put_chars :: "u64 \<Rightarrow> u8 list \<Rightarrow> memory \<Rightarrow> memory" where
  "put_chars p cs m = (\<lambda>a. if unat (a - p) < length cs then cs ! unat (a - p) else m a)"

lemma put_chars_Cons:
  assumes "length cs < 2 ^ 64 - 1"
  shows "put_chars (p + 1) cs (m(p := c)) = put_chars p (c # cs) m"
proof (rule ext)
  fix a
  show "put_chars (p + 1) cs (m(p := c)) a = put_chars p (c # cs) m a"
  proof (cases "a = p")
    case True
    have "unat (- 1 :: u64) = 2 ^ 64 - 1" by (simp add: unsigned_minus_1_eq_mask mask_eq_exp_minus_1)
    then show ?thesis using True assms by (simp add: put_chars_def)
  next
    case False
    then have "a - p \<noteq> 0" by simp
    then have "unat (a - p) = Suc (unat (a - p - 1))" by (simp add: unat_minus_one unat_gt_0)
    then have "unat (a - p) = Suc (unat (a - (p + 1)))" by (simp add: diff_diff_eq)
    then show ?thesis using False by (simp add: put_chars_def)
  qed
qed

lemma out_list_buffer:
  assumes "unat idx + length cs < 2 ^ 64"
  shows "out_list cs Inr Out_buffer buffer idx (- 1) s =
    Inr (idx + of_nat (length cs), s\<lparr>pmem := put_chars (buffer + idx) cs (pmem s)\<rparr>)"
  using assms
proof (induction cs arbitrary: idx s)
  case Nil
  then show ?case by (simp add: put_chars_def)
next
  case (Cons c cs)
  have m1: "unat (- 1 :: u64) = 2 ^ 64 - 1" by (simp add: unsigned_minus_1_eq_mask mask_eq_exp_minus_1)
  have i: "idx < - 1" using Cons.prems by (simp add: word_less_nat_alt m1)
  then have "idx \<noteq> - 1" by auto
  then have "unat (idx + 1) = Suc (unat idx)" using Cons.prems by (simp add: unat_word_ariths)
  then have "out_list cs Inr Out_buffer buffer (idx + 1) (- 1) (s\<lparr>pmem := (pmem s)(buffer + idx := c)\<rparr>) =
      Inr (idx + 1 + of_nat (length cs), s\<lparr>pmem := put_chars (buffer + (idx + 1)) cs ((pmem s)(buffer + idx := c))\<rparr>)"
    using Cons.IH [of "idx + 1" "s\<lparr>pmem := (pmem s)(buffer + idx := c)\<rparr>"] Cons.prems by (simp del: fun_upd_apply)
  then show ?case using i put_chars_Cons [of cs "buffer + idx" "pmem s" c] Cons.prems by (simp add: out_def add.assoc del: fun_upd_apply)
qed

definition dec_digit :: "nat \<Rightarrow> u8" where
  "dec_digit d = 48 + of_nat d"

lemma dec_digit_char: "d < 10 \<Longrightarrow> digit_char flags (of_nat d) = dec_digit d"
  by (simp add: digit_char_def dec_digit_def word_less_nat_alt unat_of_nat)

text \<open>The decimal representation of a number, most significant digit first.\<close>

definition dec :: "nat \<Rightarrow> u8 list" where
  "dec n = rev (map dec_digit (digits_of 10 n))"

lemma dec_length: "n < 2 ^ 64 \<Longrightarrow> length (dec n) \<le> 20"
  using digits_length [of 10 20 n] by (simp add: dec_def)

lemma ntoa_digits_dec:
  shows "rev (ntoa_digits v 10 flags []) = dec (unat v)" "length (ntoa_digits v 10 flags []) \<le> 20"
proof -
  have l: "length (digits_of 10 (unat v)) \<le> 20" using digits_length [of 10 20 "unat v"] unat_u64_less [of v] by simp
  have "ntoa_digits v 10 flags [] = map (\<lambda>d. digit_char flags (of_nat d)) (digits_of 10 (unat v))"
    using l by (subst ntoa_digits_eq) simp_all
  also have "\<dots> = map dec_digit (digits_of 10 (unat v))"
    using digits_less [of 10] dec_digit_char by (intro map_cong) auto
  finally show "rev (ntoa_digits v 10 flags []) = dec (unat v)" "length (ntoa_digits v 10 flags []) \<le> 20"
    using l by (simp_all add: dec_def)
qed

lemma dec_digit_range: "d < 10 \<Longrightarrow> is_digit (dec_digit d) \<and> dec_digit d \<noteq> 0 \<and> unat (dec_digit d - 48) = d"
  by (simp add: is_digit_def dec_digit_def word_le_nat_alt unat_word_ariths unat_of_nat word_unat_eq_iff)

lemma dec_chars: "c \<in> set (dec n) \<Longrightarrow> is_digit c \<and> c \<noteq> 0"
  using digits_less [of 10] dec_digit_range by (auto simp: dec_def)


lemma vsnprintf_plain:
  assumes "tstr tr s p xs" "ch CHR ''%'' \<notin> set xs" "length xs < fuel"
  shows "vsnprintf_loop fuel tr Out_char buffer maxlen p va idx s = Inr (idx + of_nat (length xs), s\<lparr>uart := uart s @ xs\<rparr>)"
  using assms
proof (induction xs arbitrary: p fuel idx s)
  case Nil
  then show ?case by (subst vsnprintf_loop.simps) simp
next
  case (Cons x xs)
  then have "vsnprintf_loop (fuel - 1) tr Out_char buffer maxlen (p + 1) va (idx + 1) (putchar x s) =
      Inr (idx + 1 + of_nat (length xs), (putchar x s)\<lparr>uart := uart (putchar x s) @ xs\<rparr>)"
    by (intro Cons.IH) (auto simp: putchar_def)
  then show ?case using Cons.prems by (subst vsnprintf_loop.simps) (auto simp: out_def putchar_def add.assoc)
qed

lemma dec_digit_ucast: "d < 10 \<Longrightarrow> ucast (dec_digit d) - 48 = (of_nat d :: u32)"
proof -
  assume d: "d < 10"
  then have "unat (dec_digit d) = 48 + d" by (simp add: dec_digit_def unat_word_ariths unat_of_nat)
  with d have "unat (ucast (dec_digit d) :: u32) = 48 + d" by (simp add: unsigned_ucast_eq take_bit_nat_eq_self_iff)
  then have "(ucast (dec_digit d) :: u32) = of_nat (48 + d)" by (metis of_nat_unat ucast_id)
  then show ?thesis by simp
qed

lemma atoi_loop_digits:
  assumes "tstr tr s p (map dec_digit ds)" "\<forall>d \<in> set ds. d < 10" "length ds < fuel"
  shows "atoi_loop fuel tr p i s = Inr (foldl (\<lambda>n d. n * 10 + of_nat d) i ds, p + of_nat (length ds))"
  using assms
proof (induction ds arbitrary: p fuel i)
  case Nil
  then show ?case by (subst atoi_loop.simps) (simp add: is_digit_def)
next
  case (Cons d ds)
  have d: "is_digit (dec_digit d)" "ucast (dec_digit d) - 48 = (of_nat d :: u32)"
    using Cons.prems(2) dec_digit_range [of d] dec_digit_ucast [of d] by simp_all
  have "atoi_loop (fuel - 1) tr (p + 1) (i * 10 + of_nat d) s =
      Inr (foldl (\<lambda>n d. n * 10 + of_nat d) (i * 10 + of_nat d) ds, p + 1 + of_nat (length ds))"
    using Cons.prems by (intro Cons.IH) auto
  then show ?case using Cons.prems d by (subst atoi_loop.simps) (simp add: add.assoc)
qed

lemma foldl_number_of: "foldl (\<lambda>n d. n * 10 + of_nat d) 0 (rev ds) = (of_nat (number_of 10 ds) :: u32)"
  by (induction ds) (simp_all add: number_of_def mult.commute add.commute)

lemma atoi_dec:
  assumes "tstr tr s p (dec n)" "n < 2 ^ 32"
  shows "atoi tr p s = Inr (of_nat n, p + of_nat (length (dec n)))"
proof -
  have "length (dec n) < str_fuel" using dec_length [of n] assms(2) by (simp add: str_fuel_def)
  moreover have "\<forall>d \<in> set (rev (digits_of 10 n)). d < 10" using digits_less [of 10] by simp
  ultimately show ?thesis
    using atoi_loop_digits [of tr s p "rev (digits_of 10 n)" str_fuel 0] assms(1) number_of_digits [of 10 n]
    by (simp add: atoi_def dec_def rev_map foldl_number_of)
qed

lemma tstrI:
  assumes "0 \<notin> set cs" "\<And>k. k < length cs \<Longrightarrow> read_char tr (p + of_nat k) s = Inr (cs ! k)"
    "read_char tr (p + of_nat (length cs)) s = Inr 0"
  shows "tstr tr s p cs"
  using assms
proof (induction cs arbitrary: p)
  case Nil
  then show ?case by simp
next
  case (Cons c cs)
  have "read_char tr p s = Inr c" using Cons.prems(2) [of 0] by simp
  moreover have "read_char tr (p + 1 + of_nat k) s = Inr (cs ! k)" if "k < length cs" for k
    using Cons.prems(2) [of "Suc k"] that by (simp add: add.assoc)
  ultimately show ?case using Cons.prems(1,3) by (auto intro!: Cons.IH simp: add.assoc)
qed

text \<open>\<^verbatim>\<open>sprintf\<close> of a single conversion whose characters are \<open>cs\<close>.\<close>

lemma sprintf_terminated:
  assumes "length cs < 2 ^ 31" "0 \<notin> set cs" "buffer \<noteq> NULL"
    and "vsnprintf_loop str_fuel Inr Out_buffer buffer (- 1) fmt va 0 s =
      Inr (of_nat (length cs), s\<lparr>pmem := put_chars buffer cs (pmem s)\<rparr>)"
  shows "\<exists>s'. sprintf Inr buffer fmt va s = Inr (int (length cs), s') \<and> tstr Inr s' buffer cs \<and> uart s' = uart s"
proof -
  let ?l = "of_nat (length cs) :: u64" and ?m = "put_chars buffer cs (pmem s)"
  let ?s' = "s\<lparr>pmem := ?m(buffer + ?l := 0)\<rparr>"
  have m1: "unat (- 1 :: u64) = 2 ^ 64 - 1" by (simp add: unsigned_minus_1_eq_mask mask_eq_exp_minus_1)
  have k: "unat (of_nat k :: u64) = k" if "k \<le> length cs" for k using that assms(1) by (simp add: unat_of_nat)
  have l: "?l < - 1" using assms(1) by (simp add: word_less_nat_alt m1 k)
  have "(of_nat k :: u64) \<noteq> ?l" if "k < length cs" for k using that k [of k] k [of "length cs"] by (metis le_refl less_imp_le nat_neq_iff)
  then have "tstr Inr ?s' buffer cs"
    using assms(2) k by (intro tstrI) (simp_all add: read_char_def put_chars_def)
  moreover have "sprintf Inr buffer fmt va s = Inr (int (length cs), ?s')"
    using assms(3,4) l result_length [OF assms(1)] by (simp add: sprintf_def vsnprintf_core_def vsnprintf_end_def out_def Let_def del: fun_upd_apply)
  moreover have "uart ?s' = uart s" by simp
  ultimately show ?thesis by blast
qed

section \<open>Properties\<close>

text \<open>C7: \<^verbatim>\<open>snprintf\<close> writes nothing outside the first \<^verbatim>\<open>count\<close> bytes of the buffer, whatever the format and the
  arguments are, writes nothing to the UART, and leaves a zero byte within the buffer if it has room for one.\<close>

theorem snprintf_bounds:
  assumes "snprintf tr buffer count format va s = Inr (r, s')"
  shows "uart s' = uart s \<and>
    (\<forall>a. pmem s' a \<noteq> pmem s a \<longrightarrow> buffer \<noteq> NULL \<and> (\<exists>k < count. tr (buffer + k) = Inr a)) \<and>
    (buffer \<noteq> NULL \<and> 0 < count \<longrightarrow> (\<exists>k < count. read_char tr (buffer + k) s' = Inr 0))"
proof (cases "buffer = NULL")
  case True
  then have "s' = s"
    using assms by (auto simp: snprintf_def vsnprintf_core_def vsnprintf_end_def bindR_eq_Inr out_def dest: null.R_loop)
  then show ?thesis using True by simp
next
  case False
  then have w: "wrote tr buffer count s s'"
    using assms buf.R_core [of buffer] by (simp add: snprintf_def)
  have "\<exists>k < count. read_char tr (buffer + k) s' = Inr 0" if c: "0 < count"
  proof -
    from assms False obtain idx s1 where
      o: "out tr Out_buffer 0 buffer (if idx < count then idx else count - 1) count s1 = Inr s'"
      by (auto simp: snprintf_def vsnprintf_core_def vsnprintf_end_def bindR_eq_Inr)
    define k where "k = (if idx < count then idx else count - 1)"
    have k: "k < count" using c by (auto simp: k_def word_less_nat_alt unat_minus_one unat_gt_0)
    then have "read_char tr (buffer + k) s' = Inr 0"
      using o by (auto simp: out_def bindR_eq_Inr read_char_def bindR_def k_def [symmetric] split: sum.splits)
    then show ?thesis using k by blast
  qed
  then show ?thesis using w False by (auto simp: wrote_def)
qed

text \<open>A memory that holds \<open>cs\<close> at \<open>p\<close> and zeros elsewhere.\<close>

definition text_at :: "u64 \<Rightarrow> u8 list \<Rightarrow> out_state" where
  "text_at p cs = \<lparr>pmem = put_chars p cs (\<lambda>_. 0), uart = []\<rparr>"

lemma snprintf_bounds_witness:
  "\<exists>r s'. snprintf Inr 0x2000 2 0x1000 [] (text_at 0x1000 [97, 98, 99]) = Inr (r, s') \<and>
     (\<forall>a. pmem s' a \<noteq> pmem (text_at 0x1000 [97, 98, 99]) a \<longrightarrow> (\<exists>k < 2. Inr (0x2000 + k) = (Inr a :: u64 res)))"
proof -
  let ?s = "text_at 0x1000 [97, 98, 99]"
  have "\<exists>r s'. snprintf Inr 0x2000 2 0x1000 [] ?s = Inr (r, s')"
    by (simp add: snprintf_def vsnprintf_core_def vsnprintf_end_def vsnprintf_loop.simps read_char_def out_def text_at_def put_chars_def str_fuel_def)
  then obtain r s' where e: "snprintf Inr 0x2000 2 0x1000 [] ?s = Inr (r, s')" by blast
  show ?thesis using e snprintf_bounds [OF e] by blast
qed

text \<open>The digits that \<^verbatim>\<open>_ntoa_long\<close> and \<^verbatim>\<open>_ntoa_long_long\<close> put into their buffer are the first 32 of the digits of the
  value in the base, least significant first, and these digits stand for the value.\<close>

theorem ntoa_digits_reference:
  assumes "2 \<le> unat base" "unat base \<le> 36"
  shows "ntoa_digits v base flags [] = map (\<lambda>d. digit_char flags (of_nat d)) (take 32 (digits_of (unat base) (unat v)))
    \<and> number_of (unat base) (digits_of (unat base) (unat v)) = unat v
    \<and> (\<forall>d \<in> set (digits_of (unat base) (unat v)). d < unat base)"
  using assms ntoa_digits_eq [of base "[]" v flags] number_of_digits [of "unat base" "unat v"] digits_less [of "unat base"]
  by simp

lemma ntoa_digits_reference_witness:
  "ntoa_digits 0x1F 16 0 [] = map (\<lambda>d. digit_char 0 (of_nat d)) (take 32 (digits_of (unat (16 :: u64)) (unat (0x1F :: u64))))"
  using ntoa_digits_reference [of 16 "0x1F" 0] by simp

text \<open>C29: \<^verbatim>\<open>sprintf(buffer, "%u", v)\<close> followed by \<^verbatim>\<open>_atoi\<close> on the buffer gives back the unsigned value, and \<^verbatim>\<open>_atoi\<close> stops at the
  end of what was written, whose length \<^verbatim>\<open>sprintf\<close> returned. The format must not lie in the eleven bytes written.\<close>

theorem sprintf_atoi_roundtrip:
  assumes "tstr Inr s fmt [ch CHR ''%'', ch CHR ''u'']" "buffer \<noteq> NULL" "11 \<le> unat (fmt + 2 - buffer)"
  shows "\<exists>r s'. sprintf Inr buffer fmt [v] s = Inr (r, s') \<and> tstr Inr s' buffer (dec (unat (ucast v :: u32)))
    \<and> r = int (length (dec (unat (ucast v :: u32)))) \<and> atoi Inr buffer s' = Inr (ucast v, buffer + word_of_int r)"
proof -
  let ?v = "ucast v :: u32"
  let ?cs = "dec (unat ?v)"
  let ?s = "s\<lparr>pmem := put_chars buffer ?cs (pmem s)\<rparr>"
  have n: "unat ?v < 2 ^ 32" using unsigned_less [of ?v, where 'a = nat] by simp
  then have l: "length ?cs \<le> 10" using digits_length [of 10 10 "unat ?v"] by (simp add: dec_def)
  have u: "unat (ucast ?v :: u64) = unat ?v" by (rule unat_ucast_u32)
  have "out_list ?cs Inr Out_buffer buffer 0 (- 1) s = Inr (of_nat (length ?cs), ?s)"
    using l by (subst out_list_buffer) simp_all
  then have "convert Inr Out_buffer buffer 0 (- 1) 117 0 0 0 [v] s = Inr (of_nat (length ?cs), [], ?s)"
    using ntoa_digits_dec [of "ucast ?v" 0]
    by (simp add: convert_def is_int_conv_def conv_int_def va_arg_def int_base_def int_flags_def ntoa_long_plain NTOA_BUFFER_SIZE_def u)
  moreover have "read_char Inr (fmt + 2) ?s = Inr 0"
    using assms(1,3) l by (simp add: read_char_def put_chars_def add.assoc)
  ultimately have "vsnprintf_loop str_fuel Inr Out_buffer buffer (- 1) fmt [v] 0 s = Inr (of_nat (length ?cs), ?s)"
    using assms(1) by (intro vsnprintf_conversion [where c = 117]) (simp_all add: flag_of_eq is_digit_def str_fuel_def)
  moreover have "0 \<notin> set ?cs" using dec_chars by blast
  ultimately obtain s' where "sprintf Inr buffer fmt [v] s = Inr (int (length ?cs), s')" "tstr Inr s' buffer ?cs"
    using sprintf_terminated [of ?cs] l assms(2) by fastforce
  then show ?thesis using atoi_dec [OF _ n] by simp
qed

lemma sprintf_atoi_roundtrip_witness:
  "\<exists>r s'. sprintf Inr 0x2000 0x1000 [305] (text_at 0x1000 [37, 117]) = Inr (r, s') \<and> atoi Inr 0x2000 s' = Inr (305, 0x2000 + word_of_int r)"
proof -
  have "tstr Inr (text_at 0x1000 [37, 117]) 0x1000 [ch CHR ''%'', ch CHR ''u'']"
    by (simp add: text_at_def read_char_def put_chars_def)
  from sprintf_atoi_roundtrip [OF this, of "0x2000" 305] show ?thesis by auto
qed

text \<open>A format that ends in a per cent sign makes \<^verbatim>\<open>printf\<close> read past its end: it skips the zero byte, counts it
  as a character, and goes on with the bytes that follow.\<close>

theorem printf_trailing_percent:
  assumes "tstr tr s fmt [ch CHR ''%'']" "tstr tr s (fmt + 2) xs" "ch CHR ''%'' \<notin> set xs" "length xs < 2 ^ 31 - 1"
  shows "printf tr fmt va s = Inr (int (length xs) + 1, s\<lparr>uart := uart s @ xs\<rparr>)"
proof -
  have r: "read_char tr fmt s = Inr 37" "read_char tr (fmt + 1) s = Inr 0" using assms(1) by simp_all
  have "vsnprintf_loop (str_fuel - 1) tr Out_char 1 (- 1) (fmt + 2) va 1 s = Inr (1 + of_nat (length xs), s\<lparr>uart := uart s @ xs\<rparr>)"
    using assms by (intro vsnprintf_plain) (simp_all add: str_fuel_def)
  then have "vsnprintf_loop str_fuel tr Out_char 1 (- 1) fmt va 0 s = Inr (of_nat (Suc (length xs)), s\<lparr>uart := uart s @ xs\<rparr>)"
    using r parse_spec_plain [OF r(2), of va]
    by (subst vsnprintf_loop.simps) (simp add: flag_of_eq is_digit_def convert_def is_int_conv_def out_def add.assoc)
  then show ?thesis
    using assms(4) result_length [of "Suc (length xs)"] by (simp add: printf_def vsnprintf_core_def vsnprintf_end_def out_def del: of_nat_Suc)
qed

lemma printf_trailing_percent_witness:
  "\<exists>s'. printf Inr 0x1000 [] (text_at 0x1000 [37, 0, 98, 99]) = Inr (3, s') \<and> uart s' = [98, 99]"
proof -
  let ?s = "text_at 0x1000 [37, 0, 98, 99]"
  have "tstr Inr ?s 0x1000 [ch CHR ''%'']" "tstr Inr ?s (0x1000 + 2) [98, 99]"
    by (simp_all add: text_at_def read_char_def put_chars_def)
  from printf_trailing_percent [OF this, of "[]"] show ?thesis by (simp add: text_at_def)
qed

end
