(* ===== verification/Printf_Render.thy ===== *)
theory Printf_Render
  imports Printf_Correct
begin

text \<open>
  What \<^verbatim>\<open>printf\<close> prints, as a function of the text of the format and the arguments. \<open>render\<close> is the
  reference for the conversions \<open>d\<close>, \<open>i\<close>, \<open>u\<close>, \<open>x\<close>, \<open>o\<close>, \<open>c\<close>, \<open>s\<close> and \<open>p\<close> without fields, for \<open>x\<close> with a hash, and for
  the doubled per cent sign; the code in memory prints exactly what it gives.
\<close>

section \<open>The reference\<close>

text \<open>\<open>None\<close> for a conversion that is not covered, that overflows, or whose argument is missing.\<close>

definition show_signed :: "int \<Rightarrow> u8 list" where
  "show_signed i = (if i < 0 then [45] else []) @ dec (nat \<bar>i\<bar>)"

definition show_base :: "u32 \<Rightarrow> nat \<Rightarrow> nat \<Rightarrow> u8 list" where
  "show_base flags b n = rev (map (\<lambda>d. digit_char flags (of_nat d)) (digits_of b n))"

definition show_pointer :: "nat \<Rightarrow> u8 list" where
  "show_pointer n = (let ds = show_base FLAGS_UPPERCASE 16 n in replicate (16 - length ds) 48 @ ds)"

definition show_arg :: "(u64 \<Rightarrow> u8 list option) \<Rightarrow> u8 \<Rightarrow> u64 \<Rightarrow> u8 list option" where
  "show_arg strs c v =
     (if c = 100 \<or> c = 105 then
        let i = sint (ucast v :: u32) in if i = - (2 ^ 31) then None else Some (show_signed i)
      else if c = 117 then Some (dec (unat (ucast v :: u32)))
      else if c = 120 then Some (show_base 0 16 (unat (ucast v :: u32)))
      else if c = 111 then Some (show_base 0 8 (unat (ucast v :: u32)))
      else if c = 99 then if (ucast v :: u8) = 0 then None else Some [ucast v]
      else if c = 112 then Some (show_pointer (unat v))
      else if c = 115 then strs v
      else None)"

definition show_hash :: "u64 \<Rightarrow> u8 list" where
  "show_hash v = (if (ucast v :: u32) = 0 then [48] else [48, 120] @ show_base 0 16 (unat (ucast v :: u32)))"

definition cat :: "u8 list option \<Rightarrow> u8 list option \<Rightarrow> u8 list option" where
  "cat a b = (case (a, b) of (Some x, Some y) \<Rightarrow> Some (x @ y) | _ \<Rightarrow> None)"

fun render :: "(u64 \<Rightarrow> u8 list option) \<Rightarrow> u8 list \<Rightarrow> u64 list \<Rightarrow> u8 list option" where
  "render strs [] va = Some []"
| "render strs [c] va = (if c = 37 then None else Some [c])"
| "render strs (c # d # fmt) va =
     (if c \<noteq> 37 then cat (Some [c]) (render strs (d # fmt) va)
      else if d = 37 then cat (Some [37]) (render strs fmt va)
      else case va of
        [] \<Rightarrow> None
      | v # va \<Rightarrow>
          if d = 35 then case fmt of e # fmt \<Rightarrow> if e = 120 then cat (Some (show_hash v)) (render strs fmt va) else None | [] \<Rightarrow> None
          else cat (show_arg strs d v) (render strs fmt va))"

lemma cat_Some: "cat a b = Some z \<longleftrightarrow> (\<exists>x y. a = Some x \<and> b = Some y \<and> z = x @ y)"
  by (auto simp: cat_def split: option.splits)

section \<open>Conversions\<close>

text \<open>The text \<open>xs\<close> appended to the output.\<close>

abbreviation printed :: "u8 list \<Rightarrow> out_state \<Rightarrow> out_state" where
  "printed xs s \<equiv> s\<lparr>uart := uart s @ xs\<rparr>"

lemmas flag_defs = FLAGS_ZEROPAD_def FLAGS_LEFT_def FLAGS_PLUS_def FLAGS_SPACE_def FLAGS_HASH_def FLAGS_UPPERCASE_def
  FLAGS_CHAR_def FLAGS_SHORT_def FLAGS_LONG_def FLAGS_LONG_LONG_def FLAGS_PRECISION_def

lemmas conv_defs = convert_def is_int_conv_def conv_int_def va_arg_def int_base_def int_flags_def magnitude_def

lemma digit_char_nonzero: "d < 16 \<Longrightarrow> digit_char flags (of_nat d) \<noteq> 0"
  by (auto simp: digit_char_def word_less_nat_alt unat_of_nat word_unat_eq_iff unat_word_ariths)

lemma show_base_chars: "2 \<le> b \<Longrightarrow> b \<le> 16 \<Longrightarrow> 0 \<notin> set (show_base flags b n)"
  using digits_less [of b _ n] digit_char_nonzero [of _ flags] by (force simp: show_base_def)

lemma show_base_digits:
  assumes "unat base \<in> {8, 16}"
  shows "ntoa_digits v base flags [] = rev (show_base flags (unat base) (unat v))" "length (show_base flags (unat base) (unat v)) \<le> 22"
proof -
  have "(2 :: nat) ^ 64 \<le> unat base ^ 22" using assms by auto
  then have l: "length (digits_of (unat base) (unat v)) \<le> 22" using assms digits_length [of "unat base" 22 "unat v"] unat_u64_less [of v] by auto
  show "length (show_base flags (unat base) (unat v)) \<le> 22" using l by (simp add: show_base_def)
  show "ntoa_digits v base flags [] = rev (show_base flags (unat base) (unat v))"
    using assms l by (subst ntoa_digits_eq) (auto simp: show_base_def)
qed

lemma unat_ucast_word32 [simp]: "unat (ucast (w :: u32) :: u64) = unat w"
  by (simp add: unat_ucast_u32)

lemma convert_signed:
  assumes "c = 100 \<or> c = 105" "sint (ucast v :: u32) \<noteq> - (2 ^ 31)"
  shows "convert tr Out_char buffer idx maxlen c 0 0 0 (v # va) s =
    Inr (idx + of_nat (length (show_signed (sint (ucast v :: u32)))), va, printed (show_signed (sint (ucast v :: u32))) s)"
proof -
  let ?i = "sint (ucast v :: u32)"
  let ?w = "word_of_int \<bar>?i\<bar> :: u64"
  have "\<bar>?i\<bar> \<le> 2 ^ 31" using sint_greater_eq [of "ucast v :: u32"] sint_less [of "ucast v :: u32"] by simp
  then have w: "unat ?w = nat \<bar>?i\<bar>" by (simp add: unat_eq_nat_uint uint_word_of_int take_bit_int_eq_self_iff)
  define n neg where "n = nat \<bar>?i\<bar>" and "neg \<longleftrightarrow> ?i < 0"
  let ?c = "(if neg then [45] else []) @ dec n"
  have "0 \<notin> set ?c" using dec_chars by fastforce
  then have "out_list ?c tr Out_char buffer idx maxlen s = Inr (idx + of_nat (length ?c), printed ?c s)"
    by (rule out_list_char)
  then show ?thesis
    using ntoa_digits_dec [of ?w 0] w assms unfolding show_signed_def n_def [symmetric] neg_def [symmetric]
    by (cases neg) (auto simp: conv_defs ntoa_long_plain NTOA_BUFFER_SIZE_def n_def [symmetric] neg_def [symmetric])
qed

lemma convert_unsigned:
  assumes "(c, base) \<in> {(117, 10), (120, 16), (111, 8)}"
  shows "convert tr Out_char buffer idx maxlen c 0 0 0 (v # va) s =
    bindR (out_list (rev (ntoa_digits (ucast (ucast v :: u32)) base 0 [])) tr Out_char buffer idx maxlen s) (\<lambda>(idx, s). Inr (idx, va, s))"
proof -
  have "length (ntoa_digits (ucast (ucast v :: u32)) base 0 []) < NTOA_BUFFER_SIZE"
    using assms ntoa_digits_dec(2) [of "ucast (ucast v :: u32)" 0] show_base_digits [where base = base and v = "ucast (ucast v :: u32)" and flags = 0]
    by (auto simp: NTOA_BUFFER_SIZE_def)
  then show ?thesis using assms by (auto simp: conv_defs ntoa_long_plain)
qed

lemma convert_string:
  assumes "tstr tr s p xs" "length xs < 2 ^ 31"
  shows "convert tr Out_char buffer idx maxlen 115 0 0 0 (p # va) s = Inr (idx + of_nat (length xs), va, printed xs s)"
proof -
  have f: "length xs < str_fuel" "length xs \<le> unat (- 1 :: u64)"
    using assms(2) by (simp_all add: str_fuel_def unsigned_minus_1_eq_mask mask_eq_exp_minus_1)
  have "strnlen_s tr p (- 1) s = Inr (of_nat (length xs))"
    using strnlen_loop_tstr [OF assms(1) f] by (simp add: strnlen_s_def ucast_of_nat)
  then show ?thesis using out_string_char [OF assms(1) f(1)]
    by (simp add: convert_def is_int_conv_def conv_string_def va_arg_def)
qed


lemmas format_defs = ntoa_format_def pad_zeros_def ntoa_hash_def ntoa_sign_def push_def out_rev_def flag_defs NTOA_BUFFER_SIZE_def

lemma bindR_Inr [simp]: "bindR m Inr = m"
  by (cases m) simp_all

lemma format_plain:
  "ds \<noteq> [] \<Longrightarrow> ntoa_format tr f buffer idx maxlen (rev ds) False 16 0 0 0 s = out_list ds tr f buffer idx maxlen s"
  by (simp add: format_defs)

lemma format_hash:
  "ds \<noteq> [] \<Longrightarrow> length ds \<le> 22 \<Longrightarrow>
    ntoa_format tr f buffer idx maxlen (rev ds) False 16 0 0 FLAGS_HASH s = out_list ([48, 120] @ ds) tr f buffer idx maxlen s"
  by (simp add: format_defs)

lemma format_pointer:
  "length ds \<le> 16 \<Longrightarrow> ntoa_format tr f buffer idx maxlen (rev ds) False 16 0 16 (FLAGS_ZEROPAD OR FLAGS_UPPERCASE) s =
    out_list (replicate (16 - length ds) 48 @ ds) tr f buffer idx maxlen s"
  by (simp add: format_defs)

lemma show_base_nonempty: "show_base flags b n \<noteq> []"
  using digits_nonempty [of b n] by (simp add: show_base_def)

lemma convert_hash:
  "convert tr Out_char buffer idx maxlen 120 FLAGS_HASH 0 0 (v # va) s =
    Inr (idx + of_nat (length (show_hash v)), va, printed (show_hash v) s)"
proof -
  let ?w = "ucast v :: u32"
  let ?v = "ucast ?w :: u64"
  have "show_base FLAGS_HASH = show_base 0" by (simp add: show_base_def digit_char_def FLAGS_UPPERCASE_def FLAGS_HASH_def fun_eq_iff)
  then have e: "ntoa_digits ?v 16 FLAGS_HASH [] = rev (show_base 0 16 (unat ?w))" "length (show_base 0 16 (unat ?w)) \<le> 22"
    using show_base_digits [where base = 16 and v = ?v] by simp_all
  have e0: "ntoa_digits 0 16 0 [] = rev [48]" by (simp add: ntoa_digits.simps digit_char_def)
  have z: "0 \<notin> set (show_hash v)" using show_base_chars [of 16 0] by (auto simp: show_hash_def)
  have "ntoa_long tr Out_char buffer idx maxlen ?v False 16 0 0 FLAGS_HASH s = out_list (show_hash v) tr Out_char buffer idx maxlen s"
  proof (cases "?w = 0")
    case True
    then show ?thesis using e0 format_plain [of "[48]"] by (simp add: ntoa_long_def show_hash_def FLAGS_HASH_def FLAGS_PRECISION_def)
  next
    case False
    then have "?v \<noteq> 0" by (simp add: word_unat_eq_iff)
    then show ?thesis using False e(1) format_hash [OF show_base_nonempty e(2)]
      by (simp add: ntoa_long_def show_hash_def FLAGS_PRECISION_def FLAGS_HASH_def)
  qed
  then show ?thesis using out_list_char [OF z] by (simp add: conv_defs flag_defs)
qed

lemma pointer_digits:
  "ntoa_digits v 16 (FLAGS_ZEROPAD OR FLAGS_UPPERCASE) [] = rev (show_base FLAGS_UPPERCASE 16 (unat v))"
  "length (show_base FLAGS_UPPERCASE 16 (unat v)) \<le> 16"
proof -
  have "show_base (FLAGS_ZEROPAD OR FLAGS_UPPERCASE) = show_base FLAGS_UPPERCASE"
    by (simp add: show_base_def digit_char_def flag_defs fun_eq_iff)
  then show "ntoa_digits v 16 (FLAGS_ZEROPAD OR FLAGS_UPPERCASE) [] = rev (show_base FLAGS_UPPERCASE 16 (unat v))"
    using show_base_digits(1) [where base = 16 and v = v and flags = "FLAGS_ZEROPAD OR FLAGS_UPPERCASE"] by simp
  show "length (show_base FLAGS_UPPERCASE 16 (unat v)) \<le> 16"
    using digits_length [of 16 16 "unat v"] unat_u64_less [of v] by (simp add: show_base_def)
qed

lemma convert_pointer:
  "convert tr Out_char buffer idx maxlen 112 0 0 0 (v # va) s =
    Inr (idx + of_nat (length (show_pointer (unat v))), va, printed (show_pointer (unat v)) s)"
proof -
  have z: "0 \<notin> set (show_pointer (unat v))" using show_base_chars [of 16 FLAGS_UPPERCASE] by (auto simp: show_pointer_def Let_def)
  have "ntoa_long_long tr Out_char buffer idx maxlen v False 16 0 16 (FLAGS_ZEROPAD OR FLAGS_UPPERCASE) s =
      out_list (show_pointer (unat v)) tr Out_char buffer idx maxlen s"
    using pointer_digits(1) [of v] format_pointer [OF pointer_digits(2) [of v]]
    by (cases "v = 0") (simp_all add: ntoa_long_long_def show_pointer_def Let_def flag_defs)
  then show ?thesis using out_list_char [OF z] by (simp add: convert_def is_int_conv_def conv_pointer_def va_arg_def)
qed


lemma convert_shows:
  assumes "show_arg strs c v = Some xs" "\<And>zs. strs v = Some zs \<Longrightarrow> tstr tr s v zs" "length xs < 2 ^ 31"
  shows "convert tr Out_char buffer idx maxlen c 0 0 0 (v # va) s = Inr (idx + of_nat (length xs), va, printed xs s)"
proof -
  let ?v = "ucast (ucast v :: u32) :: u64"
  have num: "convert tr Out_char buffer idx maxlen c 0 0 0 (v # va) s = Inr (idx + of_nat (length xs), va, printed xs s)"
    if "(c, base) \<in> {(117, 10), (120, 16), (111, 8)}" "rev (ntoa_digits ?v base 0 []) = xs" "0 \<notin> set xs" for base
    using convert_unsigned [OF that(1)] that(2) out_list_char [OF that(3)] by simp
  consider "c = 100 \<or> c = 105" | "c = 117" | "c = 120" | "c = 111" | "c = 99" | "c = 112" | "c = 115"
    using assms(1) by (auto simp: show_arg_def split: if_splits)
  then show ?thesis
  proof cases
    case 1
    then show ?thesis using assms(1) convert_signed [OF 1, of v] by (auto simp: show_arg_def Let_def split: if_splits)
  next
    case 2
    then have xs: "xs = dec (unat (ucast v :: u32))" using assms(1) by (simp add: show_arg_def)
    then have "0 \<notin> set xs" using dec_chars by blast
    then show ?thesis using 2 xs ntoa_digits_dec(1) [of ?v 0] by (intro num [of 10]) simp_all
  next
    case 3
    then have xs: "xs = show_base 0 16 (unat (ucast v :: u32))" using assms(1) by (simp add: show_arg_def)
    then show ?thesis using 3 show_base_chars [of 16] show_base_digits(1) [where base = 16 and v = ?v] by (intro num [of 16]) simp_all
  next
    case 4
    then have xs: "xs = show_base 0 8 (unat (ucast v :: u32))" using assms(1) by (simp add: show_arg_def)
    then show ?thesis using 4 show_base_chars [of 8] show_base_digits(1) [where base = 8 and v = ?v] by (intro num [of 8]) simp_all
  next
    case 5
    then show ?thesis using assms(1)
      by (auto simp: show_arg_def convert_def is_int_conv_def conv_char_def va_arg_def out_def putchar_def split: if_splits)
  next
    case 6
    then show ?thesis using assms(1) convert_pointer by (simp add: show_arg_def)
  next
    case 7
    then show ?thesis using assms convert_string by (simp add: show_arg_def)
  qed
qed

section \<open>Formats\<close>

lemma loop_conversion:
  assumes "read_char tr p s = Inr 37" "read_char tr (p + 1) s = Inr c" "flag_of c = None" "\<not> is_digit c"
    "c \<notin> {42, 46, 108, 104, 116, 106, 122}" "fuel \<noteq> 0" "convert tr f buffer idx maxlen c 0 0 0 va s = Inr (idx', va', s')"
  shows "vsnprintf_loop fuel tr f buffer maxlen p va idx s = vsnprintf_loop (fuel - 1) tr f buffer maxlen (p + 2) va' idx' s'"
  using assms parse_spec_plain [OF assms(2-5)] by (subst vsnprintf_loop.simps) (simp add: add.assoc)

lemma loop_hash:
  assumes "read_char tr p s = Inr 37" "read_char tr (p + 1) s = Inr 35" "read_char tr (p + 2) s = Inr c" "c \<in> {112, 120}" "fuel \<noteq> 0"
    "convert tr f buffer idx maxlen c FLAGS_HASH 0 0 va s = Inr (idx', va', s')"
  shows "vsnprintf_loop fuel tr f buffer maxlen p va idx s = vsnprintf_loop (fuel - 1) tr f buffer maxlen (p + 3) va' idx' s'"
proof -
  have "parse_flags (str_fuel - 1) tr (p + 2) FLAGS_HASH s = Inr (FLAGS_HASH, p + 2)"
    using assms(3,4) by (subst parse_flags.simps) (auto simp: flag_of_def str_fuel_def)
  then have "parse_flags str_fuel tr (p + 1) 0 s = Inr (FLAGS_HASH, p + 2)"
    using assms(2) by (subst parse_flags.simps) (simp add: flag_of_def add.assoc)
  then have "parse_spec tr (p + 1) va s = Inr (FLAGS_HASH, 0, 0, p + 2, va)"
    using assms(3,4) by (auto simp: parse_spec_def parse_width_def parse_precision_def parse_length_def is_digit_def)
  then show ?thesis using assms by (subst vsnprintf_loop.simps) (auto simp: add.assoc)
qed

lemma loop_char:
  assumes "read_char tr p s = Inr c" "c \<noteq> 0" "c \<noteq> 37" "fuel \<noteq> 0"
  shows "vsnprintf_loop fuel tr Out_char buffer maxlen p va idx s =
    vsnprintf_loop (fuel - 1) tr Out_char buffer maxlen (p + 1) va (idx + 1) (printed [c] s)"
  using assms by (subst vsnprintf_loop.simps) (simp add: out_def putchar_def)

text \<open>The strings that the arguments point to are in memory.\<close>

definition texts :: "translation \<Rightarrow> out_state \<Rightarrow> (u64 \<Rightarrow> u8 list option) \<Rightarrow> bool" where
  "texts tr s strs \<longleftrightarrow> (\<forall>p xs. strs p = Some xs \<longrightarrow> tstr tr s p xs)"

lemma texts_printed [simp]: "texts tr (printed xs s) strs = texts tr s strs"
  by (simp add: texts_def)

lemma show_arg_plain: "show_arg strs c v = Some xs \<Longrightarrow> flag_of c = None \<and> \<not> is_digit c \<and> c \<notin> {42, 46, 108, 104, 116, 106, 122}"
  by (auto simp: show_arg_def flag_of_eq is_digit_def split: if_splits)

text \<open>One turn of the loop: it prints the first piece \<open>xs\<close> of the output and goes on behind it in the format.\<close>

definition turn ::
  "translation \<Rightarrow> (u64 \<Rightarrow> u8 list option) \<Rightarrow> nat \<Rightarrow> u64 \<Rightarrow> u64 \<Rightarrow> u64 \<Rightarrow> u64 \<Rightarrow> u8 list \<Rightarrow> u64 list \<Rightarrow> u8 list \<Rightarrow> out_state \<Rightarrow> bool" where
  "turn tr strs fuel buffer maxlen idx p fmt va cs s \<longleftrightarrow> (\<exists>xs ys q fmt' va'. cs = xs @ ys \<and> render strs fmt' va' = Some ys \<and>
     tstr tr s q fmt' \<and> length fmt' < length fmt \<and> vsnprintf_loop fuel tr Out_char buffer maxlen p va idx s =
       vsnprintf_loop (fuel - 1) tr Out_char buffer maxlen q va' (idx + of_nat (length xs)) (printed xs s))"

lemma turnI:
  assumes "cs = xs @ ys" "render strs fmt' va' = Some ys" "tstr tr s q fmt'" "length fmt' < length fmt"
    and "vsnprintf_loop fuel tr Out_char buffer maxlen p va idx s =
       vsnprintf_loop (fuel - 1) tr Out_char buffer maxlen q va' (idx + of_nat (length xs)) (printed xs s)"
  shows "turn tr strs fuel buffer maxlen idx p fmt va cs s"
  using assms unfolding turn_def by blast

lemma render_char:
  assumes "render strs (c # fmt) va = Some cs" "tstr tr s p (c # fmt)" "fuel \<noteq> 0" "c \<noteq> 37"
  shows "turn tr strs fuel buffer maxlen idx p (c # fmt) va cs s"
proof -
  obtain ys where "render strs fmt va = Some ys" "cs = [c] @ ys" using assms(1,4) by (cases fmt) (auto simp: cat_Some)
  then show ?thesis using assms loop_char [of tr p s c fuel buffer maxlen va idx] by (intro turnI [of cs "[c]" ys]) auto
qed

lemma render_conversion:
  assumes "render strs (37 # fmt) va = Some cs" "tstr tr s p (37 # fmt)" "texts tr s strs" "fuel \<noteq> 0" "length cs < 2 ^ 31"
  shows "turn tr strs fuel buffer maxlen idx p (37 # fmt) va cs s"
proof -
  obtain d fmt1 where f: "fmt = d # fmt1" using assms(1) by (cases fmt) auto
  have r: "read_char tr p s = Inr 37" "read_char tr (p + 1) s = Inr d" "tstr tr s (p + 2) fmt1"
    using assms(2) f by (simp_all add: add.assoc)
  consider "d = 37" | v vs fmt2 where "d = 35" "va = v # vs" "fmt1 = 120 # fmt2" | v vs where "d \<noteq> 37" "d \<noteq> 35" "va = v # vs"
    using assms(1) f by (auto simp: cat_Some split: list.splits if_splits)
  then show ?thesis
  proof cases
    case 1
    then obtain ys where ys: "render strs fmt1 va = Some ys" "cs = [37] @ ys" using assms(1) f by (auto simp: cat_Some)
    have "convert tr Out_char buffer idx maxlen 37 0 0 0 va s = Inr (idx + 1, va, printed [37] s)"
      by (simp add: convert_def is_int_conv_def out_def putchar_def)
    then show ?thesis using r 1 ys f assms(4) by (intro turnI [OF ys(2,1) r(3)]) (simp_all add: loop_conversion flag_of_eq is_digit_def)
  next
    case 2
    then obtain ys where ys: "cs = show_hash v @ ys" "render strs fmt2 vs = Some ys" using assms(1) f by (auto simp: cat_Some)
    have "tstr tr s (p + 3) fmt2" using r(3) 2(3) by (simp add: add.assoc)
    then show ?thesis using r 2 f assms(4) loop_hash [of tr p s 120 fuel, OF _ _ _ _ _ convert_hash]
      by (intro turnI [OF ys]) simp_all
  next
    case 3
    then obtain xs ys where x: "show_arg strs d v = Some xs" "cs = xs @ ys" "render strs fmt1 vs = Some ys"
      using assms(1) f by (auto simp: cat_Some)
    have "convert tr Out_char buffer idx maxlen d 0 0 0 va s = Inr (idx + of_nat (length xs), vs, printed xs s)"
      using convert_shows [OF x(1)] assms(3,5) x(2) 3(3) by (simp add: texts_def)
    then show ?thesis using r f assms(4) show_arg_plain [OF x(1)] by (intro turnI [OF x(2,3) r(3)]) (simp_all add: loop_conversion)
  qed
qed

lemma render_loop:
  assumes "render strs fmt va = Some cs" "tstr tr s p fmt" "texts tr s strs" "length fmt < fuel" "length cs < 2 ^ 31"
  shows "vsnprintf_loop fuel tr Out_char buffer maxlen p va idx s = Inr (idx + of_nat (length cs), printed cs s)"
  using assms
proof (induction fmt arbitrary: p idx s fuel cs va rule: length_induct)
  case (1 fmt)
  show ?case
  proof (cases fmt)
    case Nil
    then show ?thesis using 1 by (subst vsnprintf_loop.simps) simp
  next
    case (Cons c fmt1)
    have "turn tr strs fuel buffer maxlen idx p fmt va cs s"
      using "1.prems" Cons render_char [of strs c fmt1] render_conversion [of strs fmt1] by (cases "c = 37") simp_all
    then obtain xs ys q fmt' va' where t: "cs = xs @ ys" "render strs fmt' va' = Some ys" "tstr tr s q fmt'" "length fmt' < length fmt"
        "vsnprintf_loop fuel tr Out_char buffer maxlen p va idx s =
         vsnprintf_loop (fuel - 1) tr Out_char buffer maxlen q va' (idx + of_nat (length xs)) (printed xs s)"
      unfolding turn_def by blast
    have "vsnprintf_loop (fuel - 1) tr Out_char buffer maxlen q va' (idx + of_nat (length xs)) (printed xs s) =
        Inr (idx + of_nat (length xs) + of_nat (length ys), printed ys (printed xs s))"
      using "1.IH" t(4) t(2,3) "1.prems"(3-5) t(1) by simp
    then show ?thesis using t(1,5) by (simp add: add.assoc)
  qed
qed

lemma printf_rendered:
  assumes "tstr tr s p fmt" "render strs fmt va = Some cs" "texts tr s strs" "length fmt < 2 ^ 31" "length cs < 2 ^ 31"
  shows "printf tr p va s = Inr (int (length cs), printed cs s)"
  using render_loop [OF assms(2,1,3), of str_fuel 1 "- 1" 0] assms(4,5) result_length [OF assms(5)]
  by (simp add: printf_def vsnprintf_core_def vsnprintf_end_def out_def str_fuel_def)

section \<open>Properties\<close>

text \<open>C8: \<^verbatim>\<open>printf\<close> prints what the reference \<open>render\<close> gives for the text of its format and its arguments, sends
  nothing else to the UART, leaves the memory as it was and returns the number of characters.\<close>

theorem printf_renders:
  assumes "tstr tr s p fmt" "render strs fmt va = Some cs" "texts tr s strs" "length fmt < 2 ^ 31" "length cs < 2 ^ 31"
  shows "printf tr p va s = Inr (int (length cs), s\<lparr>uart := uart s @ cs\<rparr>)"
  by (rule printf_rendered [OF assms])

lemma printf_renders_witness:
  "printf Inr 0x1000 [- 42, 0x2000] (text_at 0x1000 [61, 37, 100, 32, 37, 115]\<lparr>pmem := put_chars 0x2000 [97, 98] (pmem (text_at 0x1000 [61, 37, 100, 32, 37, 115]))\<rparr>) =
    Inr (7, \<lparr>pmem = put_chars 0x2000 [97, 98] (pmem (text_at 0x1000 [61, 37, 100, 32, 37, 115])), uart = [61, 45, 52, 50, 32, 97, 98]\<rparr>)"
proof -
  let ?fmt = "[61, 37, 100, 32, 37, 115] :: u8 list"
  let ?s = "text_at 0x1000 ?fmt\<lparr>pmem := put_chars 0x2000 [97, 98] (pmem (text_at 0x1000 ?fmt))\<rparr>"
  let ?strs = "\<lambda>p :: u64. if p = 0x2000 then Some [97, 98 :: u8] else None"
  have "tstr Inr ?s 0x1000 ?fmt" "texts Inr ?s ?strs"
    by (simp_all add: texts_def text_at_def read_char_def put_chars_def)
  moreover have "render ?strs ?fmt [- 42, 0x2000] = Some [61, 45, 52, 50, 32, 97, 98]"
    by (simp add: cat_def show_arg_def show_signed_def dec_def dec_digit_def digits_of.simps)
  ultimately show ?thesis using printf_renders [of Inr ?s "0x1000" ?fmt ?strs "[- 42, 0x2000]" "[61, 45, 52, 50, 32, 97, 98]"]
    by (simp add: text_at_def)
qed

lemma format_hash_pointer:
  assumes "length ds \<le> 16"
  shows "ntoa_format tr f buffer idx maxlen (rev ds) False 16 0 16 (FLAGS_HASH OR FLAGS_ZEROPAD OR FLAGS_UPPERCASE) s =
    out_list ([48, 88] @ drop 2 (replicate (16 - length ds) 48 @ ds)) tr f buffer idx maxlen s"
proof -
  define es where "es = replicate (16 - length ds) (48 :: u8) @ ds"
  have "length es = 16" using assms by (simp add: es_def)
  then obtain a b cs where "es = a # b # cs" "length cs = 14" by (auto simp: length_Suc_conv numeral_eq_Suc)
  moreover have "rev ds @ replicate (16 - length ds) 48 = rev es" by (simp add: es_def)
  ultimately show ?thesis unfolding es_def [symmetric]
    by (simp add: format_defs Let_def butlast_append)
qed

text \<open>C39: The hash flag loses digits of a pointer: \<^verbatim>\<open>printf("%#p", p)\<close> overwrites the two leading digits of the sixteen
  with \<open>0X\<close>, so that addresses that differ in their top byte only print the same.\<close>

theorem printf_hash_pointer:
  assumes "tstr tr s p [37, 35, 112]" "v \<noteq> 0"
  shows "printf tr p [v] s = Inr (16, s\<lparr>uart := uart s @ [48, 88] @ drop 2 (show_pointer (unat v))\<rparr>)"
proof -
  let ?cs = "[48, 88] @ drop 2 (show_pointer (unat v))"
  have l: "length (show_pointer (unat v)) = 16" using pointer_digits(2) [of v] by (simp add: show_pointer_def Let_def)
  have "0 \<notin> set (show_pointer (unat v))" using show_base_chars [of 16 FLAGS_UPPERCASE] by (auto simp: show_pointer_def Let_def)
  then have z: "0 \<notin> set ?cs" by (auto dest: in_set_dropD)
  have "show_base (FLAGS_HASH OR FLAGS_ZEROPAD OR FLAGS_UPPERCASE) = show_base FLAGS_UPPERCASE"
    by (simp add: show_base_def digit_char_def flag_defs fun_eq_iff)
  then have "ntoa_digits v 16 (FLAGS_HASH OR FLAGS_ZEROPAD OR FLAGS_UPPERCASE) [] = rev (show_base FLAGS_UPPERCASE 16 (unat v))"
    using show_base_digits(1) [where base = 16 and v = v and flags = "FLAGS_HASH OR FLAGS_ZEROPAD OR FLAGS_UPPERCASE"] by simp
  then have "ntoa_long_long tr Out_char 1 0 (- 1) v False 16 0 16 (FLAGS_HASH OR FLAGS_ZEROPAD OR FLAGS_UPPERCASE) s =
      out_list ?cs tr Out_char 1 0 (- 1) s"
    using format_hash_pointer [OF pointer_digits(2) [of v]] assms(2)
    by (simp add: ntoa_long_long_def show_pointer_def Let_def FLAGS_PRECISION_def)
  also have "\<dots> = Inr (16, printed ?cs s)" using out_list_char [OF z, of tr 1 0 "- 1" s] l by simp
  finally have "ntoa_long_long tr Out_char 1 0 (- 1) v False 16 0 16 (FLAGS_HASH OR FLAGS_ZEROPAD OR FLAGS_UPPERCASE) s = Inr (16, printed ?cs s)" .
  then have "convert tr Out_char 1 0 (- 1) 112 FLAGS_HASH 0 0 [v] s = Inr (16, [], printed ?cs s)"
    by (simp add: convert_def is_int_conv_def conv_pointer_def va_arg_def)
  then have "vsnprintf_loop str_fuel tr Out_char 1 (- 1) p [v] 0 s = vsnprintf_loop (str_fuel - 1) tr Out_char 1 (- 1) (p + 3) [] 16 (printed ?cs s)"
    using assms(1) by (intro loop_hash [of _ _ _ 112]) (simp_all add: add.assoc)
  also have "\<dots> = Inr (16, printed ?cs s)"
    using assms(1) by (subst vsnprintf_loop.simps) (simp add: add.assoc str_fuel_def)
  finally show ?thesis by (simp add: printf_def vsnprintf_core_def vsnprintf_end_def out_def)
qed

lemma printf_hash_pointer_witness:
  "printf Inr 0x1000 [0xffff000000091000] (text_at 0x1000 [37, 35, 112]) =
    Inr (16, text_at 0x1000 [37, 35, 112]\<lparr>uart := [48, 88, 70, 70, 48, 48, 48, 48, 48, 48, 48, 57, 49, 48, 48, 48]\<rparr>)"
proof -
  have "tstr Inr (text_at 0x1000 [37, 35, 112]) 0x1000 [37, 35, 112]"
    by (simp add: text_at_def read_char_def put_chars_def)
  from printf_hash_pointer [OF this, of "0xffff000000091000"] show ?thesis
    by (simp add: show_pointer_def show_base_def digits_of.simps digit_char_def flag_defs Let_def text_at_def)
qed

end
