(* ===== verification/Console.thy ===== *)
theory Console
  imports Buffer Printf_Render
begin

text \<open>
  The messages of the kernel: calls of \<^verbatim>\<open>printf\<close> with a literal format. The parameter \<open>lit\<close> gives the
  address of each string literal in the kernel image, which the linker chooses; \<open>literal\<close> says that
  the image is in memory there.
\<close>

section \<open>Messages\<close>

text \<open>What \<^verbatim>\<open>printf\<close> sees of the machine.\<close>

definition out_of :: "('f, 'a) fs_state_scheme \<Rightarrow> out_state" where
  "out_of s = \<lparr>pmem = mem s, uart = console s\<rparr>"

type_synonym literals = "string \<Rightarrow> u64"

definition nl :: string where "nl = [CHR 0x0A]"
definition tab :: string where "tab = [CHR 0x09]"

definition kprintf :: "literals \<Rightarrow> string \<Rightarrow> u64 list \<Rightarrow> ('f, 'a) fs_state_scheme \<Rightarrow> ('f, 'a) fs_state_scheme res" where
  "kprintf lit format args s =
     bindR (printf (\<lambda>a. byte_addr a s) (lit format) args (out_of s)) (\<lambda>(_, x).
     Inr (s\<lparr>mem := pmem x, console := uart x\<rparr>))"

section \<open>What a message prints\<close>

definition text_bytes :: "string \<Rightarrow> u8 list" where
  "text_bytes t = map ch t"

definition literal :: "literals \<Rightarrow> ('f, 'a) fs_state_scheme \<Rightarrow> string \<Rightarrow> bool" where
  "literal lit s t \<longleftrightarrow> tstr (\<lambda>a. byte_addr a s) (out_of s) (lit t) (text_bytes t)"

definition no_texts :: "u64 \<Rightarrow> u8 list option" where
  "no_texts p = None"

lemma byte_addr_console [simp]: "byte_addr a (s\<lparr>console := c\<rparr>) = byte_addr a s" for s :: "('f, 'a) fs_state_scheme"
  by (simp add: byte_addr_def)

lemma literal_console [simp]: "literal lit (s\<lparr>console := c\<rparr>) t = literal lit s t"
proof -
  have "out_of (s\<lparr>console := c\<rparr>) = (out_of s)\<lparr>uart := c\<rparr>" by (simp add: out_of_def)
  then show ?thesis by (simp add: literal_def)
qed

lemma kprintf_rendered:
  assumes "literal lit s t" "render strs (text_bytes t) args = Some cs" "texts (\<lambda>a. byte_addr a s) (out_of s) strs"
    and "length t < 2 ^ 31" "length cs < 2 ^ 31"
  shows "kprintf lit t args s = Inr (s\<lparr>console := console s @ cs\<rparr>)"
  using printf_rendered [OF assms(1) [unfolded literal_def] assms(2,3)] assms(4,5)
  by (simp add: kprintf_def out_of_def text_bytes_def)

lemma kprintf_shows:
  assumes "literal lit s t" "render no_texts (text_bytes t) args = Some cs" "length t < 2 ^ 31" "length cs < 2 ^ 31"
  shows "kprintf lit t args s = Inr (s\<lparr>console := console s @ cs\<rparr>)"
  using kprintf_rendered [OF assms(1,2) _ assms(3,4)] by (simp add: texts_def no_texts_def)

lemma kprintf_keeps: "kprintf lit t args s = Inr s' \<Longrightarrow> \<exists>cs. s' = s\<lparr>console := console s @ cs\<rparr>"
  unfolding kprintf_def printf_def bindR_eq_Inr
  by (force simp: out_of_def shown_def dest!: con.R_core [rotated])

end
