(* ===== verification/Irq.thy ===== *)
theory Irq
  imports Buffer_Cache Gic Console
begin

text \<open>
  \<^verbatim>\<open>arch/timer.c\<close> and \<^verbatim>\<open>arch/exception.c\<close>: the periodic timer interrupt and the dispatch of
  interrupts. The interrupt controller is the parameter \<open>bus\<close> of \<^verbatim>\<open>Gic\<close>, its state the field
  \<open>gic\<close>, on top of the state of the rest of the kernel.

  An interrupt handler runs the scheduler, so it may return in the context of another task or
  start a task that never ran: the boolean of a result is true when the handler returns to the
  exception exit.
\<close>

section \<open>Timer\<close>

definition TIMER_PERIOD_MS :: u32 where "TIMER_PERIOD_MS = 10"

record ('f, 'd) irq_state = "'f fs_state" +
  period :: u64
  gic :: 'd

text \<open>\<open>period\<close> is the static variable \<^verbatim>\<open>ticks\<close>.\<close>

definition timer_handler :: "'d gic_bus \<Rightarrow> ('f, 'd, 'a) irq_state_scheme \<Rightarrow> (bool \<times> ('f, 'd, 'a) irq_state_scheme) res" where
  "timer_handler bus s =
     (let s = disable_cntv s;
          s = s\<lparr>gic := gicd_clear_pending bus TIMER_IRQ (gic s)\<rparr>;
          current_cnt = raw_read_cntvct_el0 s;
          s = raw_write_cntv_cval_el0 (current_cnt + period s) s;
          s = s\<lparr>jiffies := jiffies s + 1\<rparr>;
          s = enable_cntv s
      in bindR (scheduler_tick s) (\<lambda>(r, s). Inr (r \<noteq> None, s)))"

definition timer_init :: "'d gic_bus \<Rightarrow> ('f, 'd, 'a) irq_state_scheme \<Rightarrow> ('f, 'd, 'a) irq_state_scheme res" where
  "timer_init bus s =
     bindR (gic_v3_initialize bus (gic s)) (\<lambda>d.
     let s = s\<lparr>gic := d\<rparr>;
         s = disable_cntv s;
         cntfrq = raw_read_cntfrq_el0 s;
         s = s\<lparr>period := ucast (TIMER_PERIOD_MS * (cntfrq div 1000))\<rparr>;
         current_cnt = raw_read_cntvct_el0 s;
         s = raw_write_cntv_cval_el0 (current_cnt + period s) s
     in Inr (enable_cntv s))"

section \<open>Interrupt dispatch\<close>

definition irq_dispatch :: "'d gic_bus \<Rightarrow> literals \<Rightarrow> ('f, 'd, 'a) irq_state_scheme \<Rightarrow> (bool \<times> ('f, 'd, 'a) irq_state_scheme) res" where
  "irq_dispatch bus lit s =
     (let (rc, irq, d) = gic_v3_find_pending_irq bus (gic s); s = s\<lparr>gic := d\<rparr> in
      if rc = IRQ_NOT_FOUND then bindR (kprintf lit (''IRQ not found!'' @ nl) [] s) (\<lambda>s. Inr (True, s))
      else if irq = Some TIMER_IRQ then timer_handler bus s
      else Inr (True, s))"

text \<open>The vector entry of an interrupt.\<close>

definition irq_entry :: "'d gic_bus \<Rightarrow> literals \<Rightarrow> ('f, 'd, 'a) irq_state_scheme \<Rightarrow> ('f, 'd, 'a) irq_state_scheme res" where
  "irq_entry bus lit s =
     bindR (irq_dispatch bus lit (kernel_entry s)) (\<lambda>(back, s).
     Inr (if back then kernel_exit s else run_from_fork s))"

section \<open>Unexpected exceptions\<close>

definition ESR_EC_SHIFT :: nat where "ESR_EC_SHIFT = 26"
definition ESR_EC_MASK :: u32 where "ESR_EC_MASK = push_bit ESR_EC_SHIFT 0x3f"
definition ESR_EC_SVC :: u32 where "ESR_EC_SVC = push_bit ESR_EC_SHIFT 0x15"
definition ESR_ISS_MASK :: u32 where "ESR_ISS_MASK = push_bit 24 1 - 1"

text \<open>After the report \<^verbatim>\<open>put_exception\<close> loops for ever.\<close>

definition put_exception :: "literals \<Rightarrow> u64 \<Rightarrow> u64 \<Rightarrow> u32 \<Rightarrow> ('f, 'a) fs_state_scheme \<Rightarrow> ('f, 'a) fs_state_scheme res" where
  "put_exception lit no lr esr s =
     (let EC = drop_bit ESR_EC_SHIFT (esr AND ESR_EC_MASK); ISS = esr AND ESR_ISS_MASK in
      bindR (kprintf lit ''enter exception %d, entry is 0x%x, '' [no, lr] s)
        (kprintf lit (''exception class %#x, ISS is %#x'' @ nl) [ucast EC, ucast ISS]))"

section \<open>What they do\<close>

lemma period_exact:
  fixes f :: u32
  shows "unat (ucast (TIMER_PERIOD_MS * (f div 1000)) :: u64) = 10 * (unat f div 1000)"
proof -
  have f: "unat f < 2 ^ 32" using unsigned_less [of f] by simp
  have "unat (f div 1000) = unat f div 1000" by (simp add: unat_div_distrib)
  moreover have "10 * (unat f div 1000) < 2 ^ 32" using f by simp
  ultimately have "unat (TIMER_PERIOD_MS * (f div 1000)) = 10 * (unat f div 1000)"
    by (simp add: TIMER_PERIOD_MS_def unat_mult_lem [THEN iffD1])
  moreover have "5 * (unat f div 1000) < 9223372036854775808" using f by simp
  ultimately show ?thesis by (simp add: unsigned_ucast_eq take_bit_nat_eq_self_iff)
qed

text \<open>What the scheduler neither reads nor writes: the page descriptors, the tick count, the timer, and later fields.\<close>

definition devices :: "'a task_state_scheme \<Rightarrow> page list \<times> u64 \<times> u64 \<times> u64 \<times> u64 \<times> 'a" where
  "devices s = (mem_map s, jiffies s, CNTV_CTL_EL0 s, CNTV_CVAL_EL0 s, CNTVCT_EL0 s, task_state.more s)"

lemma devices_simps [simp]:
  "devices (s\<lparr>tasks := a\<rparr>) = devices s" "devices (s\<lparr>next_task := b\<rparr>) = devices s" "devices (s\<lparr>cregs := c\<rparr>) = devices s"
  "devices (s\<lparr>frames := d\<rparr>) = devices s" "devices (s\<lparr>DAIF := e\<rparr>) = devices s" "devices (s\<lparr>ttbr0_el1 := f\<rparr>) = devices s"
  "devices (kernel_entry s) = devices s" "devices (kernel_exit s) = devices s" "devices (run_from_fork s) = devices s"
  "devices (switch_mm v s) = devices s" "devices (enable_irq s) = devices s" "devices (disable_irq s) = devices s"
  by (simp_all add: devices_def kernel_entry_def kernel_exit_def run_from_fork_def switch_mm_def enable_irq_def
      disable_irq_def msr_DAIFClr_def msr_DAIFSet_def split: option.splits)

lemma with_task_devices: "with_task p f s = Inr s' \<Longrightarrow> devices s' = devices s"
  by (auto simp: with_task_def bindR_eq_Inr)

lemma preempt_devices: "preempt_disable s = Inr s' \<Longrightarrow> devices s' = devices s" "preempt_enable s = Inr s' \<Longrightarrow> devices s' = devices s"
  by (auto simp: preempt_disable_def preempt_enable_def dest: with_task_devices)

lemma select_devices: "select_next_task s = Inr s' \<Longrightarrow> devices s' = devices s"
  by (auto simp: select_next_task_def bindR_eq_Inr dest!: preempt_devices)

lemma switch_devices: "switch_to r q s = Inr (x, s') \<Longrightarrow> devices s' = devices s"
  by (auto simp: switch_to_def cpu_switch_to_def bindR_eq_Inr Let_def split: if_splits dest!: preempt_devices with_task_devices)

lemma scheduler_tick_devices: "scheduler_tick s = Inr (x, s') \<Longrightarrow> devices s' = devices s"
  by (auto simp: scheduler_tick_def after_switch_def bindR_eq_Inr Let_def split: if_splits dest!: select_devices switch_devices)

lemma tick_devices: "tick s = Inr s' \<Longrightarrow> devices s' = devices s"
  by (auto simp: tick_def leave_def bindR_eq_Inr split: option.splits dest!: scheduler_tick_devices)

text \<open>A timer interrupt is a tick of the scheduler after the timer was set again.\<close>

definition rearmed :: "'d gic_bus \<Rightarrow> 'd \<Rightarrow> ('f, 'd, 'a) irq_state_scheme \<Rightarrow> ('f, 'd, 'a) irq_state_scheme" where
  "rearmed bus d s =
     enable_cntv ((raw_write_cntv_cval_el0 (CNTVCT_EL0 s + period s)
       ((disable_cntv s)\<lparr>gic := gicd_clear_pending bus TIMER_IRQ d\<rparr>))\<lparr>jiffies := jiffies s + 1\<rparr>)"

lemmas rearm_defs = rearmed_def enable_cntv_def disable_cntv_def raw_write_cntv_cval_el0_def raw_read_cntvct_el0_def

lemma rearmed_kernel_entry: "rearmed bus d (kernel_entry s) = kernel_entry (rearmed bus d s)"
  by (simp add: rearm_defs kernel_entry_def raw_read_cntv_ctl_def)

lemma irq_entry_timer:
  assumes "gic_v3_find_pending_irq bus (gic s) = (IRQ_FOUND, Some TIMER_IRQ, d)"
  shows "irq_entry bus lit s = tick (rearmed bus d s)"
proof -
  have "irq_dispatch bus lit (kernel_entry s) =
      bindR (scheduler_tick (rearmed bus d (kernel_entry s))) (\<lambda>(r, s). Inr (r \<noteq> None, s))"
    using assms by (simp add: irq_dispatch_def timer_handler_def IRQ_FOUND_def IRQ_NOT_FOUND_def kernel_entry_def
        rearm_defs raw_read_cntv_ctl_def)
  then show ?thesis
    unfolding rearmed_kernel_entry irq_entry_def tick_def
    by (cases "scheduler_tick (kernel_entry (rearmed bus d s))") (auto simp: leave_def split: option.splits)
qed

lemma sched_inv_rearmed: "sched_inv (rearmed bus d s) ps = sched_inv s ps" "running (rearmed bus d s) = running s"
    "tasks (rearmed bus d s) = tasks s"
  by (simp_all add: rearm_defs sched_inv_def running_def)

section \<open>Properties\<close>

text \<open>C14: A timer interrupt, when the timer is the first pending interrupt and every task can run: the
  handler returns, counts one jiffy, sets the timer \<^verbatim>\<open>ticks\<close> cycles after now and leaves it on,
  clears the latched interrupt, and the next task of the queue runs.\<close>

theorem timer_interrupt:
  assumes "gic_device bus view wmask" "sched_inv s ps" "all_running ps s" "i < length ps" "running s = ps ! i"
    and "find (pending (view (gic s))) [0 ..< 64] = Some TIMER_IRQ"
  shows "\<exists>s'. irq_entry bus lit s = Inr s' \<and> jiffies s' = jiffies s + 1 \<and>
    CNTV_CVAL_EL0 s' = CNTVCT_EL0 s + period s \<and> bit (CNTV_CTL_EL0 s') 0 \<and>
    \<not> latch (view (gic s')) TIMER_IRQ \<and> sched_inv s' ps \<and> running s' = ps ! (Suc i mod length ps)"
proof -
  obtain d where d: "view d = view (gic s)" "gic_v3_find_pending_irq bus (gic s) = (IRQ_FOUND, Some TIMER_IRQ, d)"
    using gic_device.find_pending_loop [OF assms(1), of "[0..<64]" "gic s"] assms(6)
    by (auto simp: gic_v3_find_pending_irq_def GIC_INT_MAX_def simp del: upt_rec_numeral)
  let ?s = "rearmed bus d s"
  have "all_running ps ?s" using assms(3) by (simp add: all_running_def sched_inv_rearmed)
  then obtain s' where s': "tick ?s = Inr s'" "sched_inv s' ps" "running s' = ps ! (Suc i mod length ps)"
    using tick_round_robin [of ?s ps i] assms(2,4,5) by (auto simp: sched_inv_rearmed)
  have dev: "jiffies s' = jiffies ?s" "CNTV_CTL_EL0 s' = CNTV_CTL_EL0 ?s" "CNTV_CVAL_EL0 s' = CNTV_CVAL_EL0 ?s"
      "gic s' = gic ?s"
    using tick_devices [OF s'(1)] by (cases s'; cases ?s; simp add: devices_def)+
  have "\<not> latch (view (gicd_clear_pending bus TIMER_IRQ d)) TIMER_IRQ"
    using gic_device.bit_ops_view(3) [OF assms(1), of TIMER_IRQ d] by (simp add: TIMER_IRQ_def)
  then have "jiffies ?s = jiffies s + 1" "CNTV_CVAL_EL0 ?s = CNTVCT_EL0 s + period s" "bit (CNTV_CTL_EL0 ?s) 0"
      "\<not> latch (view (gic ?s)) TIMER_IRQ"
    by (simp_all add: rearm_defs CNTV_CTL_ENABLE_def bit_simps)
  then show ?thesis using irq_entry_timer [OF d(2)] s' dev by auto
qed

text \<open>C37: Dispatch looks at pending interrupts, not at enabled ones, and in the order of their numbers.
  While an interrupt with a smaller number than the timer's is pending (an enabled one or not)
  every interrupt the processor takes returns without touching the timer, the tick count or
  the pending state: the timer never ticks.\<close>

theorem irq_dispatch_starves_timer:
  assumes "gic_device bus view wmask" "find (pending (view (gic s))) [0 ..< 64] = Some i" "i \<noteq> TIMER_IRQ"
  shows "\<exists>d'. view d' = view (gic s) \<and> irq_entry bus lit s = Inr (s\<lparr>gic := d'\<rparr>)"
proof -
  obtain d where d: "view d = view (gic s)" "gic_v3_find_pending_irq bus (gic s) = (IRQ_FOUND, Some i, d)"
    using gic_device.find_pending_loop [OF assms(1), of "[0..<64]" "gic s"] assms(2)
    by (auto simp: gic_v3_find_pending_irq_def GIC_INT_MAX_def simp del: upt_rec_numeral)
  then have "irq_entry bus lit s = Inr (s\<lparr>gic := d\<rparr>)"
    using assms(3) by (simp add: irq_entry_def irq_dispatch_def kernel_entry_def kernel_exit_def IRQ_FOUND_def IRQ_NOT_FOUND_def)
  then show ?thesis using d(1) by blast
qed

definition timer_period :: "'a cpu_scheme \<Rightarrow> u64" where
  "timer_period s = ucast (TIMER_PERIOD_MS * (raw_read_cntfrq_el0 s div 1000))"

lemma timer_init_run:
  assumes "gic_device bus view wmask"
  obtains d where "en (view d) TIMER_IRQ"
    "timer_init bus s = Inr (enable_cntv (raw_write_cntv_cval_el0 (CNTVCT_EL0 s + timer_period s)
       ((disable_cntv (s\<lparr>gic := d\<rparr>))\<lparr>period := timer_period s\<rparr>)))"
proof -
  obtain d where d: "gic_v3_initialize bus (gic s) = Inr d" "en (view d) TIMER_IRQ"
    using gic_device.initialize_ready [OF assms, of "gic s"] by (auto simp: TIMER_IRQ_def)
  have "timer_init bus s = Inr (enable_cntv (raw_write_cntv_cval_el0 (CNTVCT_EL0 s + timer_period s)
      ((disable_cntv (s\<lparr>gic := d\<rparr>))\<lparr>period := timer_period s\<rparr>)))"
    using d(1) by (simp add: timer_init_def timer_period_def raw_read_cntvct_el0_def raw_read_cntfrq_el0_def disable_cntv_def
        raw_read_cntv_ctl_def Let_def)
  then show ?thesis using d(2) that by blast
qed

text \<open>\<^verbatim>\<open>timer_init\<close> on a documented controller returns with the timer on and due ten milliseconds from
  now. The period is \<^verbatim>\<open>10 * (cntfrq / 1000)\<close> exactly: the product of 32-bit numbers never wraps, and
  it is at most the frequency divided by 100.\<close>

theorem timer_init_period:
  assumes "gic_device bus view wmask"
  shows "\<exists>s'. timer_init bus s = Inr s' \<and> bit (CNTV_CTL_EL0 s') 0 \<and>
    CNTV_CVAL_EL0 s' = CNTVCT_EL0 s + period s' \<and>
    unat (period s') = 10 * (unat (raw_read_cntfrq_el0 s) div 1000) \<and>
    unat (period s') \<le> unat (raw_read_cntfrq_el0 s) div 100 \<and> en (view (gic s')) TIMER_IRQ"
proof -
  obtain d where d: "en (view d) TIMER_IRQ" "timer_init bus s = Inr (enable_cntv (raw_write_cntv_cval_el0 (CNTVCT_EL0 s + timer_period s)
      ((disable_cntv (s\<lparr>gic := d\<rparr>))\<lparr>period := timer_period s\<rparr>)))"
    using timer_init_run [OF assms] by blast
  moreover have "10 * (unat (raw_read_cntfrq_el0 s) div 1000) \<le> unat (raw_read_cntfrq_el0 s) div 100" by simp
  ultimately show ?thesis
    using period_exact [of "raw_read_cntfrq_el0 s"]
    by (simp add: timer_period_def rearm_defs CNTV_CTL_ENABLE_def bit_simps)
qed

lemma esr_fields:
  "ucast (drop_bit ESR_EC_SHIFT (esr AND ESR_EC_MASK)) = take_bit 6 (drop_bit 26 (ucast esr :: u64))"
  "ucast (esr AND ESR_ISS_MASK) = take_bit 24 (ucast esr :: u64)"
proof -
  have m: "(0x3f :: u32) = mask 6" "ESR_ISS_MASK = mask 24" by (simp_all add: mask_eq_exp_minus_1 ESR_ISS_MASK_def)
  have "drop_bit ESR_EC_SHIFT (esr AND ESR_EC_MASK) = take_bit 6 (drop_bit 26 esr)"
    unfolding ESR_EC_SHIFT_def ESR_EC_MASK_def m(1) by (rule bit_eqI) (auto simp: bit_simps)
  moreover have "esr AND ESR_ISS_MASK = take_bit 24 esr" by (simp add: m(2) take_bit_eq_mask)
  ultimately show "ucast (drop_bit ESR_EC_SHIFT (esr AND ESR_EC_MASK)) = take_bit 6 (drop_bit 26 (ucast esr :: u64))"
      "ucast (esr AND ESR_ISS_MASK) = take_bit 24 (ucast esr :: u64)"
    by (auto intro!: bit_eqI simp: bit_simps)
qed

lemma report_formats:
  "sint (ucast no :: u32) \<noteq> - (2 ^ 31) \<Longrightarrow> render no_texts (text_bytes ''enter exception %d, entry is 0x%x, '') [no, lr] =
     Some (text_bytes ''enter exception '' @ show_signed (sint (ucast no :: u32)) @ text_bytes '', entry is 0x'' @
       show_base 0 16 (unat (ucast lr :: u32)) @ text_bytes '', '')"
  "render no_texts (text_bytes (''exception class %#x, ISS is %#x'' @ nl)) [ucast (ec :: u32), ucast (iss :: u32)] =
     Some (text_bytes ''exception class '' @ show_hash (ucast ec) @ text_bytes '', ISS is '' @ show_hash (ucast iss) @ text_bytes nl)"
  by (simp_all add: text_bytes_def ch_def cat_def show_arg_def nl_def)

text \<open>The report of an unexpected exception: its number, the low half of the address it came from, its class and
  its syndrome, of which bit 24 is missing. The upper half of the address, which tells a kernel address from a
  user address, is not printed.\<close>

lemma put_exception_report:
  assumes "literal lit s ''enter exception %d, entry is 0x%x, ''" "literal lit s (''exception class %#x, ISS is %#x'' @ nl)"
    and "no < 16"
  shows "put_exception lit no lr esr s = Inr (s\<lparr>console := console s @ text_bytes ''enter exception '' @ dec (unat no) @
    text_bytes '', entry is 0x'' @ show_base 0 16 (unat lr mod 2 ^ 32) @ text_bytes '', exception class '' @
    show_hash (take_bit 6 (drop_bit 26 (ucast esr))) @ text_bytes '', ISS is '' @ show_hash (take_bit 24 (ucast esr)) @ text_bytes nl\<rparr>)"
proof -
  let ?EC = "drop_bit ESR_EC_SHIFT (esr AND ESR_EC_MASK)" and ?ISS = "esr AND ESR_ISS_MASK"
  have n: "uint no < 16" using assms(3) by (simp add: word_less_def)
  then have i: "sint (ucast no :: u32) = uint no" by (intro sint_ucast_small) simp
  have no: "show_signed (sint (ucast no :: u32)) = dec (unat no)" unfolding i by (simp add: show_signed_def)
  have ge: "sint (ucast no :: u32) \<noteq> - (2 ^ 31)" using uint_ge_0 [of no] unfolding i by (metis neg_0_le_iff_le zero_less_numeral zero_less_power not_less)
  have lr: "unat (ucast lr :: u32) = unat lr mod 2 ^ 32" by (simp add: unsigned_ucast_eq take_bit_eq_mod)
  note esr = esr_fields [of esr]
  have l1: "length (dec (unat no)) \<le> 20" "length (show_base 0 16 (unat lr mod 2 ^ 32)) \<le> 22"
    using dec_length [of "unat no"] unat_u64_less [of no] show_base_digits(2) [where base = 16 and v = "ucast (ucast lr :: u32)" and flags = 0]
    by (simp_all add: lr)
  have h: "length (show_hash v) \<le> 24" for v
    using show_base_digits(2) [where base = 16 and v = "ucast (ucast v :: u32)" and flags = 0] by (simp add: show_hash_def)
  have a: "kprintf lit ''enter exception %d, entry is 0x%x, '' [no, lr] s = Inr (s\<lparr>console := console s @ text_bytes ''enter exception '' @
      dec (unat no) @ text_bytes '', entry is 0x'' @ show_base 0 16 (unat lr mod 2 ^ 32) @ text_bytes '', ''\<rparr>)"
    using l1 by (intro kprintf_shows assms(1) report_formats(1) [OF ge, of lr, unfolded no lr]) (simp_all add: text_bytes_def)
  have b: "kprintf lit (''exception class %#x, ISS is %#x'' @ nl) [ucast ?EC, ucast ?ISS] (s\<lparr>console := c\<rparr>) =
      Inr (s\<lparr>console := c @ text_bytes ''exception class '' @ show_hash (ucast ?EC) @ text_bytes '', ISS is '' @ show_hash (ucast ?ISS) @ text_bytes nl\<rparr>)" for c
    using h [of "ucast ?EC"] h [of "ucast ?ISS"] assms(2)
    by (subst kprintf_shows [OF _ report_formats(2)]) (simp_all add: text_bytes_def nl_def)
  have "text_bytes '', exception class '' = text_bytes '', '' @ text_bytes ''exception class ''" by (simp add: text_bytes_def)
  then show ?thesis unfolding put_exception_def Let_def a bindR_simps b unfolding esr by simp
qed

text \<open>The two-task kernel of \<^verbatim>\<open>Task_Life\<close> on the register file of \<^verbatim>\<open>Gic\<close>, with one interrupt pending.\<close>

definition pending_gic :: "nat \<Rightarrow> gic_view" where
  "pending_gic n = \<lparr>regs = \<lambda>_. 0, en = \<lambda>i. i = 27, latch = \<lambda>i. i = n, line = \<lambda>_. False\<rparr>"

definition with_gic :: "gic_view \<Rightarrow> task_state \<Rightarrow> (chip, gic_view) irq_state" where
  "with_gic d s = fs_state.extend (task_state.extend s (task_state.more boot_fs)) (irq_state.fields 625000 d)"

lemma with_gic_sched:
  "sched_inv (with_gic d s) ps = sched_inv s ps" "running (with_gic d s) = running s" "tasks (with_gic d s) = tasks s"
  "gic (with_gic d s) = d" "jiffies (with_gic d s) = jiffies s"
  by (simp_all add: with_gic_def sched_inv_def running_def task_state.defs fs_state.defs irq_state.defs)

lemma find_pending_gic: "n < 64 \<Longrightarrow> find (pending (pending_gic n)) [0 ..< 64] = Some n"
proof -
  have "pending (pending_gic n) = (\<lambda>i. i = n)" by (simp add: pending_def pending_gic_def fun_eq_iff)
  moreover have "find (\<lambda>i. i = n) xs = (if n \<in> set xs then Some n else None)" for xs by (induction xs) auto
  ultimately show "n < 64 \<Longrightarrow> ?thesis" by (simp del: upt_rec_numeral)
qed

theorem timer_interrupt_witness:
  "\<exists>p. \<exists>(s :: (chip, gic_view) irq_state) s'. irq_entry pl390 (\<lambda>_. NULL) s = Inr s' \<and> jiffies s' = jiffies s + 1 \<and> running s' = p \<and> running s \<noteq> p"
proof -
  obtain p and s :: task_state where r: "sched_inv s [0xffff000000091000, p]" "running s = 0xffff000000091000" "p \<noteq> 0xffff000000091000"
      "tasks s = (tasks boot_task)(p \<mapsto> new_kthread 0xffff000000080200 0xffff000000082000 p)"
    using two_tasks by blast
  let ?s = "with_gic (pending_gic 27) s"
  have a: "all_running [0xffff000000091000, p] ?s"
    using r(3,4) by (simp add: all_running_def with_gic_sched boot_task_fields new_kthread_def)
  have "\<exists>s'. irq_entry pl390 (\<lambda>_. NULL) ?s = Inr s' \<and> jiffies s' = jiffies ?s + 1 \<and>
    CNTV_CVAL_EL0 s' = CNTVCT_EL0 ?s + period ?s \<and> bit (CNTV_CTL_EL0 s') 0 \<and>
    \<not> latch (gic s') TIMER_IRQ \<and> sched_inv s' [0xffff000000091000, p] \<and>
    running s' = [0xffff000000091000, p] ! (Suc 0 mod length [0xffff000000091000, p])"
    by (rule timer_interrupt [OF pl.gic_device_axioms _ a])
      (use r find_pending_gic [of 27] in \<open>simp_all add: with_gic_sched TIMER_IRQ_def del: upt_rec_numeral\<close>)
  then obtain s' where "irq_entry pl390 (\<lambda>_. NULL) ?s = Inr s'" "jiffies s' = jiffies ?s + 1" "running s' = p" by auto
  moreover have "running ?s \<noteq> p" using r(2,3) by (simp add: with_gic_sched)
  ultimately show ?thesis by blast
qed

theorem irq_dispatch_starves_timer_witness:
  "\<exists>d'. irq_entry pl390 (\<lambda>_. NULL) (with_gic (pending_gic 26) boot_task) = Inr ((with_gic (pending_gic 26) boot_task)\<lparr>gic := d'\<rparr>)"
  using irq_dispatch_starves_timer [OF pl.gic_device_axioms, of "with_gic (pending_gic 26) boot_task" 26]
    find_pending_gic [of 26]
  by (auto simp: with_gic_sched TIMER_IRQ_def simp del: upt_rec_numeral)

theorem timer_init_period_witness:
  "\<exists>s'. timer_init pl390 (with_gic reset_gic boot_task) = Inr s' \<and> en (gic s') 27"
  using timer_init_period [OF pl.gic_device_axioms, of "with_gic reset_gic boot_task"] by (auto simp: TIMER_IRQ_def)

end
