(* ===== verification/Minix.thy ===== *)
theory Minix
  imports Buffer_Cache "HOL-Library.Signed_Division"
begin

text \<open>
  \<^verbatim>\<open>fs/minix_fs.c\<close> and the inode cache of \<^verbatim>\<open>fs/fs.c\<close>: the superblock, inodes in memory and on disk,
  the map from file offsets to blocks, directories, reading and writing. On-disk structures are
  read from and written to the bytes of a buffer, at their offsets in the Minix v1 layout.
\<close>

section \<open>Constants and layout\<close>

definition S_IFMT :: u64 where "S_IFMT = 0xf000"
definition S_IFREG :: u64 where "S_IFREG = 0x8000"
definition S_IFDIR :: u64 where "S_IFDIR = 0x4000"
definition S_ISREG :: "u64 \<Rightarrow> bool" where "S_ISREG m \<longleftrightarrow> m AND S_IFMT = S_IFREG"
definition S_ISDIR :: "u64 \<Rightarrow> bool" where "S_ISDIR m \<longleftrightarrow> m AND S_IFMT = S_IFDIR"
definition I_NEW :: u64 where "I_NEW = 8"
definition MINIX_SB_OFFSET :: u64 where "MINIX_SB_OFFSET = 1"
definition MINIX_ROOT_INO :: u64 where "MINIX_ROOT_INO = 1"
definition NAME_LEN :: u32 where "NAME_LEN = 30"
definition BLK_NO_SZ :: u64 where "BLK_NO_SZ = 2"
definition MINIX_INODES_PER_BLOCK :: u64 where "MINIX_INODES_PER_BLOCK = BLOCK_SZ div 32"
definition DIR_PER_BLK :: nat where "DIR_PER_BLK = unat (BLOCK_SZ div 32)"
definition sizeof_minix_inode_info :: u32 where "sizeof_minix_inode_info = 152"
definition sizeof_minix_sb_info :: u32 where "sizeof_minix_sb_info = 88"
definition inode_list_off :: u64 where "inode_list_off = 80"
definition s_inodes_off :: u64 where "s_inodes_off = 24"

definition minix_i :: "u64 \<Rightarrow> u64" where
  "minix_i inode = inode - 32"

definition with_inode :: "u64 \<Rightarrow> (inode \<Rightarrow> inode) \<Rightarrow> ('f, 'a) fs_state_scheme \<Rightarrow> ('f, 'a) fs_state_scheme res" where
  "with_inode p f s = bindR (deref (inodes s) p) (\<lambda>i. Inr (s\<lparr>inodes := (inodes s)(p \<mapsto> f i)\<rparr>))"

definition minix_sb :: "u64 \<Rightarrow> ('f, 'a) fs_state_scheme \<Rightarrow> minix_sb_info res" where
  "minix_sb sb s = bindR (deref (sbs s) sb) (\<lambda>b. deref (sbis s) (s_fs_info b))"

text \<open>The fields of an inode on disk, at \<open>p\<close>.\<close>

definition raw_mode :: "memory \<Rightarrow> u64 \<Rightarrow> u16" where "raw_mode m p = load16 m p"
definition raw_uid :: "memory \<Rightarrow> u64 \<Rightarrow> u16" where "raw_uid m p = load16 m (p + 2)"
definition raw_size :: "memory \<Rightarrow> u64 \<Rightarrow> u32" where "raw_size m p = load32 m (p + 4)"
definition raw_time :: "memory \<Rightarrow> u64 \<Rightarrow> u32" where "raw_time m p = load32 m (p + 8)"
definition raw_gid :: "memory \<Rightarrow> u64 \<Rightarrow> u8" where "raw_gid m p = m (p + 12)"
definition raw_nlinks :: "memory \<Rightarrow> u64 \<Rightarrow> u8" where "raw_nlinks m p = m (p + 13)"
definition raw_zone :: "memory \<Rightarrow> u64 \<Rightarrow> nat \<Rightarrow> u16" where "raw_zone m p i = load16 m (p + 14 + 2 * of_nat i)"

section \<open>Inode numbers and inodes on disk\<close>

definition ino_to_blk_no :: "minix_sb_info \<Rightarrow> u64 \<Rightarrow> u64" where
  "ino_to_blk_no m_sbi inode_no =
     (let blk = (inode_no - 1) div MINIX_INODES_PER_BLOCK
      in 2 + s_imap_blocks m_sbi + s_zmap_blocks m_sbi + blk)"

text \<open>
  The result is the address of the inode in the buffer and the buffer; a null address on error, whose
  messages are not printed.
\<close>

definition minix_raw_inode ::
  "'f flash_bus \<Rightarrow> u64 \<Rightarrow> u64 \<Rightarrow> ('f, 'a) fs_state_scheme \<Rightarrow> ((u64 \<times> u64) \<times> ('f, 'a) fs_state_scheme) res" where
  "minix_raw_inode fl sb ino s =
     bindR (minix_sb sb s) (\<lambda>sbi.
     if ino = 0 \<or> ino > s_ninodes sbi then Inr ((NULL, NULL), s)
     else
       let ino = ino - 1;
           block = ucast (2 + s_imap_blocks sbi + s_zmap_blocks sbi + ino div MINIX_INODES_PER_BLOCK) :: u32
       in bindR (deref (sbs s) sb) (\<lambda>b.
          bindR (bread fl (s_bd b) (scast block) s) (\<lambda>(bh, s).
          if bh = NULL then Inr ((NULL, bh), s)
          else bindR (deref (bhs s) bh) (\<lambda>h.
            Inr ((b_data h + 32 * (ino mod MINIX_INODES_PER_BLOCK), bh), s)))))"

section \<open>Inodes in memory\<close>

definition minix_alloc_inode :: "('f, 'a) fs_state_scheme \<Rightarrow> (u64 \<times> ('f, 'a) fs_state_scheme) res" where
  "minix_alloc_inode s =
     bindR (kmalloc sizeof_minix_inode_info s) (\<lambda>(ei, s).
     if ei = NULL then Inr (NULL, s)
     else Inr (ei + 32, s\<lparr>inodes := (inodes s)(ei + 32 \<mapsto> stale_inode s ei),
                          lists := make_node (ei + 32 + inode_list_off) (lists s)\<rparr>))"

definition minix_destroy_inode :: "u64 \<Rightarrow> ('f, 'a) fs_state_scheme \<Rightarrow> ('f, 'a) fs_state_scheme res" where
  "minix_destroy_inode inode s =
     (if inode = NULL then Inr s
      else bindR (kfree (minix_i inode) s) (\<lambda>s.
        Inr (s\<lparr>inodes := (inodes s)(inode := None), lists := drop_node (inode + inode_list_off) (lists s)\<rparr>)))"

definition get_new_inode :: "u64 \<Rightarrow> u64 \<Rightarrow> ('f, 'a) fs_state_scheme \<Rightarrow> (u64 \<times> ('f, 'a) fs_state_scheme) res" where
  "get_new_inode sb ino s =
     bindR (minix_alloc_inode s) (\<lambda>(inode, s).
     bindR (with_inode inode (\<lambda>i. i\<lparr>i_sb := sb, i_ino := ino, i_op := No_operations, i_state := I_NEW, i_count := 1\<rparr>) s) (\<lambda>s.
     bindR (list_add (inode + inode_list_off) (sb + s_inodes_off) (lists s)) (\<lambda>h.
     Inr (inode, s\<lparr>lists := h\<rparr>))))"

definition get_inode_body :: "u64 \<Rightarrow> u64 \<Rightarrow> u64 \<Rightarrow> ('f, 'a) fs_state_scheme \<Rightarrow> (u64 option \<times> ('f, 'a) fs_state_scheme) res" where
  "get_inode_body sb ino pos s =
     (let inode = pos - inode_list_off in
      bindR (deref (inodes s) inode) (\<lambda>i.
      if i_ino i = ino \<and> i_sb i = sb
      then bindR (with_inode inode (\<lambda>i. i\<lparr>i_count := i_count i + 1\<rparr>) s) (\<lambda>s. Inr (Some inode, s))
      else Inr (None, s)))"

definition get_inode :: "u64 \<Rightarrow> u64 \<Rightarrow> ('f, 'a) fs_state_scheme \<Rightarrow> (u64 \<times> ('f, 'a) fs_state_scheme) res" where
  "get_inode sb ino s =
     bindR (list_for_each lists (sb + s_inodes_off) (get_inode_body sb ino) s) (\<lambda>(r, s).
     case r of Some inode \<Rightarrow> Inr (inode, s) | None \<Rightarrow> get_new_inode sb ino s)"

text \<open>The fields \<^verbatim>\<open>minix_iget\<close> fills in from the inode on disk at \<open>p\<close>.\<close>

definition read_raw_inode :: "memory \<Rightarrow> u64 \<Rightarrow> inode \<Rightarrow> inode" where
  "read_raw_inode m p i =
     i\<lparr>i_data := map (raw_zone m p) [0..<9] @ drop 9 (i_data i),
       i_mode := ucast (raw_mode m p), i_uid := ucast (raw_uid m p), i_gid := ucast (raw_gid m p),
       i_size := ucast (raw_size m p), i_atime := ucast (raw_time m p), i_ctime := ucast (raw_time m p),
       i_mtime := ucast (raw_time m p),
       i_op := (if S_ISDIR (ucast (raw_mode m p)) then Minix_dir_inode_operations
                else if S_ISREG (ucast (raw_mode m p)) then Minix_inode_operations else i_op i),
       i_state := i_state i AND NOT I_NEW\<rparr>"

definition minix_iget :: "'f flash_bus \<Rightarrow> u64 \<Rightarrow> u64 \<Rightarrow> ('f, 'a) fs_state_scheme \<Rightarrow> (u64 \<times> ('f, 'a) fs_state_scheme) res" where
  "minix_iget fl sb ino s =
     (if ino = 0 then Inr (NULL, s)
      else bindR (get_inode sb ino s) (\<lambda>(inode, s).
        bindR (deref (inodes s) inode) (\<lambda>i.
        if i_state i AND I_NEW \<noteq> 0 then
          bindR (minix_raw_inode fl sb ino s) (\<lambda>((d_inode, bh), s).
          if d_inode = NULL then Inl Null_deref
          else bindR (with_inode inode (read_raw_inode (mem s) d_inode) s) (\<lambda>s. Inr (inode, s)))
        else Inr (inode, s))))"

text \<open>The bytes \<^verbatim>\<open>minix_write_inode\<close> stores into the buffer.\<close>

definition write_raw_inode :: "u64 \<Rightarrow> inode \<Rightarrow> memory \<Rightarrow> memory" where
  "write_raw_inode p i m =
     (let m = store16 m p (ucast (i_mode i));
          m = store16 m (p + 2) (ucast (i_uid i));
          m = m(p + 12 := ucast (i_gid i));
          m = m(p + 13 := ucast (i_nlink i));
          m = store32 m (p + 4) (ucast (i_size i));
          m = store32 m (p + 8) (ucast (i_mtime i))
      in fold (\<lambda>k m. store16 m (p + 14 + 2 * of_nat k) (i_data i ! k)) [0..<9] m)"

definition minix_write_inode :: "'f flash_bus \<Rightarrow> u64 \<Rightarrow> ('f, 'a) fs_state_scheme \<Rightarrow> ('f, 'a) fs_state_scheme res" where
  "minix_write_inode fl inode s =
     bindR (deref (inodes s) inode) (\<lambda>i.
     bindR (minix_raw_inode fl (i_sb i) (i_ino i) s) (\<lambda>((raw_inode, bh), s).
     if raw_inode = NULL then Inr s
     else
       bindR (mark_buffer_dirty bh (s\<lparr>mem := write_raw_inode raw_inode i (mem s)\<rparr>)) (\<lambda>s.
       brelse fl bh s)))"

definition write_inode :: "'f flash_bus \<Rightarrow> u64 \<Rightarrow> ('f, 'a) fs_state_scheme \<Rightarrow> ('f, 'a) fs_state_scheme res" where
  "write_inode fl inode s = minix_write_inode fl inode s"

definition generic_drop_inode :: "'f flash_bus \<Rightarrow> u64 \<Rightarrow> ('f, 'a) fs_state_scheme \<Rightarrow> ('f, 'a) fs_state_scheme res" where
  "generic_drop_inode fl inode s = bindR (write_inode fl inode s) (minix_destroy_inode inode)"

text \<open>The message for an inode that nobody holds is not printed.\<close>

definition put_inode :: "'f flash_bus \<Rightarrow> u64 \<Rightarrow> ('f, 'a) fs_state_scheme \<Rightarrow> (int \<times> ('f, 'a) fs_state_scheme) res" where
  "put_inode fl inode s =
     bindR (deref (inodes s) inode) (\<lambda>i.
     if i_count i = 0 then Inr (-1, s)
     else
       bindR (with_inode inode (\<lambda>i. i\<lparr>i_count := i_count i - 1\<rparr>) s) (\<lambda>s.
       bindR (if i_count i - 1 = 0 then generic_drop_inode fl inode s else Inr s) (\<lambda>s. Inr (0, s))))"

section \<open>Superblock\<close>

fun bitmap_loop :: "'f flash_bus \<Rightarrow> nat \<Rightarrow> u64 \<Rightarrow> u64 \<Rightarrow> u64 \<Rightarrow> ('f, 'a) fs_state_scheme \<Rightarrow> ('f, 'a) fs_state_scheme res" where
  "bitmap_loop fl 0 bd slot blk s = Inr s"
| "bitmap_loop fl (Suc n) bd slot blk s =
     bindR (get_blk fl bd blk s) (\<lambda>(bh, s).
     bitmap_loop fl n bd (slot + 8) (blk + 1) (s\<lparr>mem := store64 (mem s) slot bh\<rparr>))"

definition init_minix_bitmap :: "'f flash_bus \<Rightarrow> u64 \<Rightarrow> ('f, 'a) fs_state_scheme \<Rightarrow> ('f, 'a) fs_state_scheme res" where
  "init_minix_bitmap fl sb s =
     bindR (deref (sbs s) sb) (\<lambda>b.
     bindR (deref (sbis s) (s_fs_info b)) (\<lambda>i.
     let imap_blks = s_imap_blocks i; zmap_blks = s_zmap_blocks i in
     bindR (kmalloc (ucast (48 * imap_blks)) s) (\<lambda>(im, s).
     bindR (kmalloc (ucast (48 * zmap_blks)) s) (\<lambda>(zm, s).
     let s = s\<lparr>sbis := (sbis s)(s_fs_info b \<mapsto> i\<lparr>s_imap := im, s_zmap := zm\<rparr>)\<rparr> in
     bindR (bitmap_loop fl (unat imap_blks) (s_bd b) im (MINIX_SB_OFFSET + 1) s) (\<lambda>s.
     bitmap_loop fl (unat zmap_blks) (s_bd b) zm (MINIX_SB_OFFSET + imap_blks + 1) s)))))"

definition minix_fill_super :: "'f flash_bus \<Rightarrow> u64 \<Rightarrow> ('f, 'a) fs_state_scheme \<Rightarrow> ('f, 'a) fs_state_scheme res" where
  "minix_fill_super fl sb s =
     bindR (kmalloc sizeof_minix_sb_info s) (\<lambda>(m_sbi, s).
     bindR (deref (sbs s) sb) (\<lambda>b.
     bindR (get_blk fl (s_bd b) MINIX_SB_OFFSET s) (\<lambda>(bh, s).
     bindR (deref (bhs s) bh) (\<lambda>h.
     let d_sb = b_data h; m = mem s;
         i = \<lparr>s_ninodes = ucast (load16 m d_sb), s_nzones = ucast (load16 m (d_sb + 2)),
              s_imap_blocks = ucast (load16 m (d_sb + 4)), s_zmap_blocks = ucast (load16 m (d_sb + 6)),
              s_firstdatazone = ucast (load16 m (d_sb + 8)), s_log_zone_size = ucast (load16 m (d_sb + 10)),
              s_max_size = ucast (load32 m (d_sb + 12)), s_imap = NULL, s_zmap = NULL, s_sbh = bh, s_ms = d_sb\<rparr>;
         s = s\<lparr>sbis := (sbis s)(m_sbi \<mapsto> i), sbs := (sbs s)(sb \<mapsto> b\<lparr>s_fs_info := m_sbi\<rparr>),
               lists := make_node (sb + s_inodes_off) (lists s)\<rparr>
     in bindR (INIT_LIST_HEAD (sb + s_inodes_off) (lists s)) (\<lambda>l.
        init_minix_bitmap fl sb (s\<lparr>lists := l\<rparr>))))))"

fun release_loop :: "'f flash_bus \<Rightarrow> nat \<Rightarrow> u64 \<Rightarrow> ('f, 'a) fs_state_scheme \<Rightarrow> ('f, 'a) fs_state_scheme res" where
  "release_loop fl 0 slot s = Inr s"
| "release_loop fl (Suc n) slot s = bindR (brelse fl (load64 (mem s) slot) s) (release_loop fl n (slot + 8))"

definition minix_put_super :: "'f flash_bus \<Rightarrow> u64 \<Rightarrow> ('f, 'a) fs_state_scheme \<Rightarrow> ('f, 'a) fs_state_scheme res" where
  "minix_put_super fl sb s =
     bindR (deref (sbs s) sb) (\<lambda>b.
     bindR (deref (sbis s) (s_fs_info b)) (\<lambda>i.
     bindR (release_loop fl (unat (s_imap_blocks i)) (s_imap i) s) (\<lambda>s.
     bindR (release_loop fl (unat (s_zmap_blocks i)) (s_zmap i) s) (\<lambda>s.
     bindR (brelse fl (s_sbh i) s) (\<lambda>s.
     bindR (kfree (s_imap i) s) (\<lambda>s.
     bindR (kfree (s_zmap i) s) (\<lambda>s.
     bindR (kfree (s_fs_info b) (s\<lparr>sbs := (sbs s)(sb \<mapsto> b\<lparr>s_fs_info := NULL\<rparr>)\<rparr>)) (\<lambda>s.
     Inr (s\<lparr>sbis := (sbis s)(s_fs_info b := None)\<rparr>)))))))))"

section \<open>Blocks of a file\<close>

text \<open>A null buffer is the answer for an offset that is too large.\<close>

definition inode_get_blk :: "'f flash_bus \<Rightarrow> u64 \<Rightarrow> u64 \<Rightarrow> ('f, 'a) fs_state_scheme \<Rightarrow> (u64 \<times> ('f, 'a) fs_state_scheme) res" where
  "inode_get_blk fl inode offset s =
     bindR (deref (inodes s) inode) (\<lambda>i.
     bindR (deref (sbs s) (i_sb i)) (\<lambda>b.
     let bd = s_bd b; blk_offset = offset div BLOCK_SZ in
     if blk_offset < 7 then get_blk fl bd (ucast (i_data i ! unat blk_offset)) s
     else if blk_offset < 7 + 512 then
       bindR (get_blk fl bd (ucast (i_data i ! 7)) s) (\<lambda>(bh, s).
       bindR (deref (bhs s) bh) (\<lambda>h.
       let addr = b_data h + BLK_NO_SZ * (blk_offset - 7) in get_blk fl bd (load64 (mem s) addr) s))
     else if blk_offset < 7 + 512 + 512 * 512 then
       bindR (get_blk fl bd (ucast (i_data i ! 8)) s) (\<lambda>(bh, s).
       bindR (deref (bhs s) bh) (\<lambda>h.
       let addr = b_data h + (BLK_NO_SZ * (blk_offset - 7 - 512)) div 512 in get_blk fl bd (load64 (mem s) addr) s))
     else Inr (NULL, s)))"

section \<open>Directories\<close>

fun scan_entries :: "nat \<Rightarrow> memory \<Rightarrow> u64 \<Rightarrow> u64 \<Rightarrow> u64 option res" where
  "scan_entries 0 m name de = Inr None"
| "scan_entries (Suc n) m name de =
     bindR (strcmp m name (de + 2)) (\<lambda>c.
     if c = 0 then Inr (Some (ucast (load16 m de))) else scan_entries n m name (de + 32))"

fun lookup_blocks ::
  "nat \<Rightarrow> 'f flash_bus \<Rightarrow> u64 \<Rightarrow> u64 \<Rightarrow> u64 \<Rightarrow> u64 \<Rightarrow> ('f, 'a) fs_state_scheme \<Rightarrow> (u64 option \<times> ('f, 'a) fs_state_scheme) res" where
  "lookup_blocks 0 fl dir name sz offset s = Inl Out_of_fuel"
| "lookup_blocks (Suc fuel) fl dir name sz offset s =
     (if offset < sz then
        bindR (inode_get_blk fl dir offset s) (\<lambda>(bh, s).
        bindR (deref (bhs s) bh) (\<lambda>h.
        bindR (scan_entries DIR_PER_BLK (mem s) name (b_data h)) (\<lambda>r.
        case r of Some ino \<Rightarrow> Inr (Some ino, s)
        | None \<Rightarrow> lookup_blocks fuel fl dir name sz (offset + BLOCK_SZ) s)))
      else Inr (None, s))"

text \<open>A file on a 64-bit machine has fewer than \<open>2 ^ 54\<close> blocks.\<close>

definition minix_lookup :: "'f flash_bus \<Rightarrow> u64 \<Rightarrow> u64 \<Rightarrow> ('f, 'a) fs_state_scheme \<Rightarrow> (u64 \<times> ('f, 'a) fs_state_scheme) res" where
  "minix_lookup fl dir name s =
     bindR (deref (inodes s) dir) (\<lambda>i.
     if \<not> S_ISDIR (i_mode i) then Inr (NULL, s)
     else bindR (strlen (mem s) name) (\<lambda>n.
       if n > NAME_LEN then Inr (NULL, s)
       else bindR (lookup_blocks (2 ^ 54 + 1) fl dir name (i_size i) 0 s) (\<lambda>(r, s).
         case r of Some ino \<Rightarrow> minix_iget fl (i_sb i) ino s | None \<Rightarrow> Inr (NULL, s))))"

section \<open>Reading and writing\<close>

fun copy_out :: "nat \<Rightarrow> u64 \<Rightarrow> u64 \<Rightarrow> ('f, 'a) fs_state_scheme \<Rightarrow> ('f, 'a) fs_state_scheme res" where
  "copy_out 0 buf p s = Inr s"
| "copy_out (Suc n) buf p s = bindR (put_byte buf (mem s p) s) (copy_out n (buf + 1) (p + 1))"

fun copy_in :: "nat \<Rightarrow> u64 \<Rightarrow> u64 \<Rightarrow> ('f, 'a) fs_state_scheme \<Rightarrow> ('f, 'a) fs_state_scheme res" where
  "copy_in 0 buf p s = Inr s"
| "copy_in (Suc n) buf p s =
     bindR (get_byte buf s) (\<lambda>v. copy_in n (buf + 1) (p + 1) (s\<lparr>mem := (mem s)(p := v)\<rparr>))"

definition fits_int :: "int \<Rightarrow> bool" where
  "fits_int x \<longleftrightarrow> - (2 ^ 31) \<le> x \<and> x < 2 ^ 31"

lemma smod_block: "(pos :: int) smod 1024 < 1024"
proof -
  have "- (- pos mod 1024) < 1024" using pos_mod_sign [of 1024 "- pos"] by linarith
  then show ?thesis by (simp add: signed_modulo_int_def sgn_if)
qed

lemma chunk_progress: "left \<noteq> 0 \<Longrightarrow> left - min (1024 - pos smod 1024) left < \<bar>left\<bar>" for left pos :: int
  using smod_block [of pos] by (auto simp: min_def)

text \<open>The loop of \<^verbatim>\<open>minix_read\<close>. The result is true when all of \<^verbatim>\<open>left\<close> was read.\<close>

function minix_read_loop ::
  "'f flash_bus \<Rightarrow> u64 \<Rightarrow> u64 \<Rightarrow> int \<Rightarrow> int \<Rightarrow> ('f, 'a) fs_state_scheme \<Rightarrow> (bool \<times> ('f, 'a) fs_state_scheme) res" where
  "minix_read_loop fl inode buf pos left s =
     (if left = 0 then Inr (True, s)
      else bindR (inode_get_blk fl inode (word_of_int pos) s) (\<lambda>(bh, s).
        if bh = NULL then Inr (False, s)
        else
          let nr = pos smod 1024; chars = min (1024 - nr) left in
          if \<not> fits_int (pos + chars) then Inl Signed_overflow
          else bindR (deref (bhs s) bh) (\<lambda>h.
            bindR (copy_out (nat chars) buf (word_of_int nr + b_data h) s) (\<lambda>s.
            bindR (brelse fl bh s) (\<lambda>s.
            minix_read_loop fl inode (buf + word_of_int (max 0 chars)) (pos + chars) (left - chars) s)))))"
  by pat_completeness auto
termination
  by (relation "measure (\<lambda>(fl, inode, buf, pos, left, s). nat \<bar>left\<bar>)") (auto intro: chunk_progress)

declare minix_read_loop.simps [simp del]

definition minix_read :: "'f flash_bus \<Rightarrow> u64 \<Rightarrow> u64 \<Rightarrow> int \<Rightarrow> int \<Rightarrow> ('f, 'a) fs_state_scheme \<Rightarrow> (int \<times> ('f, 'a) fs_state_scheme) res" where
  "minix_read fl inode buf pos count s =
     bindR (minix_read_loop fl inode buf pos count s) (\<lambda>(ok, s).
     Inr (if ok then if count \<noteq> 0 then count else -1 else -1, s))"

function minix_write_loop ::
  "'f flash_bus \<Rightarrow> u64 \<Rightarrow> u64 \<Rightarrow> int \<Rightarrow> int \<Rightarrow> ('f, 'a) fs_state_scheme \<Rightarrow> (bool \<times> ('f, 'a) fs_state_scheme) res" where
  "minix_write_loop fl inode buf pos left s =
     (if left = 0 then Inr (True, s)
      else bindR (inode_get_blk fl inode (word_of_int pos) s) (\<lambda>(bh, s).
        if bh = NULL then Inr (False, s)
        else
          let nr = pos smod 1024; chars = min (1024 - nr) left in
          if \<not> fits_int (pos + chars) then Inl Signed_overflow
          else bindR (deref (bhs s) bh) (\<lambda>h.
            bindR (copy_in (nat chars) buf (word_of_int nr + b_data h) s) (\<lambda>s.
            bindR (mark_buffer_dirty bh s) (\<lambda>s.
            bindR (brelse fl bh s) (\<lambda>s.
            minix_write_loop fl inode (buf + word_of_int (max 0 chars)) (pos + chars) (left - chars) s))))))"
  by pat_completeness auto
termination
  by (relation "measure (\<lambda>(fl, inode, buf, pos, left, s). nat \<bar>left\<bar>)") (auto intro: chunk_progress)

declare minix_write_loop.simps [simp del]

definition minix_write :: "'f flash_bus \<Rightarrow> u64 \<Rightarrow> u64 \<Rightarrow> int \<Rightarrow> int \<Rightarrow> ('f, 'a) fs_state_scheme \<Rightarrow> (int \<times> ('f, 'a) fs_state_scheme) res" where
  "minix_write fl inode buf pos count s =
     bindR (minix_write_loop fl inode buf pos count s) (\<lambda>(ok, s).
     Inr (if ok then if count \<noteq> 0 then count else -1 else -1, s))"

section \<open>Raw inodes\<close>

text \<open>Bytes that spell a number in little-endian order.\<close>

lemma load16_bytes: "m a = ucast v \<Longrightarrow> m (a + 1) = ucast (drop_bit 8 v) \<Longrightarrow> load16 m a = v"
  by (rule bit_word_eqI) (auto simp: load16_def bit_simps)

lemma load32_bytes:
  "m a = ucast v \<Longrightarrow> m (a + 1) = ucast (drop_bit 8 v) \<Longrightarrow> m (a + 2) = ucast (drop_bit 16 v) \<Longrightarrow>
     m (a + 3) = ucast (drop_bit 24 v) \<Longrightarrow> load32 m a = v"
proof (rule bit_word_eqI)
  fix n assume "m a = ucast v" "m (a + 1) = ucast (drop_bit 8 v)" "m (a + 2) = ucast (drop_bit 16 v)"
    "m (a + 3) = ucast (drop_bit 24 v)" "n < LENGTH(32)"
  then show "bit (load32 m a) n \<longleftrightarrow> bit v n" by (cases "24 \<le> n"; cases "16 \<le> n") (auto simp: load32_def bit_simps)
qed

lemma raw_after_write:
  "raw_mode (write_raw_inode p i m) p = ucast (i_mode i)"
  "raw_uid (write_raw_inode p i m) p = ucast (i_uid i)"
  "raw_size (write_raw_inode p i m) p = ucast (i_size i)"
  "raw_time (write_raw_inode p i m) p = ucast (i_mtime i)"
  "raw_gid (write_raw_inode p i m) p = ucast (i_gid i)"
  "raw_nlinks (write_raw_inode p i m) p = ucast (i_nlink i)"
proof -
  show "raw_mode (write_raw_inode p i m) p = ucast (i_mode i)"
    unfolding raw_mode_def by (rule load16_bytes) (simp_all add: write_raw_inode_def store16_def store32_def upt_rec)
  show "raw_uid (write_raw_inode p i m) p = ucast (i_uid i)"
    unfolding raw_uid_def by (rule load16_bytes) (simp_all add: write_raw_inode_def store16_def store32_def upt_rec)
  show "raw_size (write_raw_inode p i m) p = ucast (i_size i)"
    unfolding raw_size_def by (rule load32_bytes) (simp_all add: write_raw_inode_def store16_def store32_def upt_rec)
  show "raw_time (write_raw_inode p i m) p = ucast (i_mtime i)"
    unfolding raw_time_def by (rule load32_bytes) (simp_all add: write_raw_inode_def store16_def store32_def upt_rec)
  show "raw_gid (write_raw_inode p i m) p = ucast (i_gid i)"
    by (simp add: raw_gid_def write_raw_inode_def store16_def store32_def upt_rec)
  show "raw_nlinks (write_raw_inode p i m) p = ucast (i_nlink i)"
    by (simp add: raw_nlinks_def write_raw_inode_def store16_def store32_def upt_rec)
qed

lemma small_of_nat_eq: "a < 64 \<Longrightarrow> b < 64 \<Longrightarrow> (of_nat a :: u64) = of_nat b \<longleftrightarrow> a = b"
  by (simp add: word_of_nat_eq_iff take_bit_nat_eq_self)

lemma zone_addr_eq:
  assumes "k < 9" "n < 9"
  shows "2 * of_nat k = (2 * of_nat n :: u64) \<longleftrightarrow> k = n" "2 * of_nat k + 1 \<noteq> (2 * of_nat n :: u64)"
    "2 * of_nat k \<noteq> (2 * of_nat n + 1 :: u64)"
proof -
  have "(of_nat (2 * k) :: u64) = of_nat (2 * n) \<longleftrightarrow> k = n" "(of_nat (2 * k + 1) :: u64) \<noteq> of_nat (2 * n)"
      "(of_nat (2 * k) :: u64) \<noteq> of_nat (2 * n + 1)"
    using assms by (subst small_of_nat_eq; presburger)+
  then show "2 * of_nat k = (2 * of_nat n :: u64) \<longleftrightarrow> k = n" "2 * of_nat k + 1 \<noteq> (2 * of_nat n :: u64)"
    "2 * of_nat k \<noteq> (2 * of_nat n + 1 :: u64)" by (simp_all add: add.commute)
qed

lemma zones_written:
  assumes "n \<le> 9" "k < n"
  shows "load16 (fold (\<lambda>k m. store16 m (p + 14 + 2 * of_nat k) (d k)) [0..<n] m) (p + 14 + 2 * of_nat k) = d k"
  using assms
proof (induction n)
  case 0
  then show ?case by simp
next
  case (Suc n)
  let ?m = "fold (\<lambda>k m. store16 m (p + 14 + 2 * of_nat k) (d k)) [0..<n] m"
  show ?case
  proof (cases "k = n")
    case True
    then show ?thesis by (simp add: load16_bytes store16_def)
  next
    case False
    then have "load16 (store16 ?m (p + 14 + 2 * of_nat n) (d n)) (p + 14 + 2 * of_nat k) = load16 ?m (p + 14 + 2 * of_nat k)"
      using Suc.prems zone_addr_eq [of k n] zone_addr_eq [of k n, unfolded add.commute [of _ 1]]
      by (simp add: load16_def store16_def add.assoc)
    then show ?thesis using Suc False by simp
  qed
qed

lemma raw_zone_after_write:
  assumes "k < 9"
  shows "raw_zone (write_raw_inode p i m) p k = i_data i ! k"
  unfolding raw_zone_def write_raw_inode_def Let_def using assms by (intro zones_written) simp_all

lemma store_frame:
  assumes "32 \<le> x - p"
  shows "o' \<le> 30 \<Longrightarrow> store16 m (p + o') v x = m x" "o' \<le> 28 \<Longrightarrow> store32 m (p + o') w x = m x"
    "o' \<le> 31 \<Longrightarrow> (m(p + o' := b)) x = m x"
proof -
  have n: "x \<noteq> p + k" if "k \<le> 31" for k using assms that by (auto, unat_arith)
  have k: "o' \<le> 30 \<Longrightarrow> o' + 1 \<le> 31" "o' \<le> 28 \<Longrightarrow> o' + 1 \<le> 31" "o' \<le> 28 \<Longrightarrow> o' + 2 \<le> 31" "o' \<le> 28 \<Longrightarrow> o' + 3 \<le> 31"
      "o' \<le> 28 \<Longrightarrow> o' \<le> 31" "o' \<le> 30 \<Longrightarrow> o' \<le> 31"
    by unat_arith+
  show "o' \<le> 30 \<Longrightarrow> store16 m (p + o') v x = m x" using n k by (simp add: store16_def add.assoc)
  show "o' \<le> 28 \<Longrightarrow> store32 m (p + o') w x = m x" using n k by (simp add: store32_def add.assoc)
  show "o' \<le> 31 \<Longrightarrow> (m(p + o' := b)) x = m x" using n by simp
qed

lemma zones_frame:
  assumes "32 \<le> x - p" "n \<le> 9"
  shows "fold (\<lambda>k m. store16 m (p + 14 + 2 * of_nat k) (d k)) [0..<n] m x = m x"
  using assms(2)
proof (induction n)
  case 0
  then show ?case by simp
next
  case (Suc n)
  have e: "2 * (of_nat n :: u64) = of_nat (2 * n)" by simp
  have "(14 + 2 * of_nat n :: u64) \<le> 30" unfolding e using Suc.prems
    by (simp add: word_le_nat_alt unat_word_ariths unat_of_nat)
  then show ?case using Suc store_frame(1) [OF assms(1), of "14 + 2 * of_nat n"] by (simp add: add.assoc)
qed

lemma write_raw_inode_frame:
  assumes "32 \<le> x - p"
  shows "write_raw_inode p i m x = m x"
  using store_frame [OF assms] store_frame(1) [OF assms, of 0]
  by (simp add: write_raw_inode_def zones_frame [OF assms])

lemma take_bit_small: "w < 2 ^ n \<Longrightarrow> n < 64 \<Longrightarrow> take_bit n w = w" for w :: u64
  by (simp add: take_bit_eq_mod word_unat_eq_iff unat_mod_distrib word_less_nat_alt)

lemma ucast_ucast_take:
  "ucast (ucast (w :: u64) :: u16) = take_bit 16 w" "ucast (ucast w :: u8) = take_bit 8 w" "ucast (ucast w :: u32) = take_bit 32 w"
  by (rule bit_word_eqI; auto simp: bit_simps)+

lemma bit_load16: "n < 16 \<Longrightarrow> bit (load16 m a) n \<longleftrightarrow> bit (m (a + of_nat (n div 8))) (n mod 8)"
proof -
  assume n: "n < 16"
  show ?thesis
  proof (cases "n < 8")
    case True
    then show ?thesis by (auto simp: load16_def bit_simps)
  next
    case False
    then have "n div 8 = 1" "n mod 8 = n - 8" using n by (simp_all add: div_nat_eqI le_mod_geq)
    then show ?thesis using False n by (auto simp: load16_def bit_simps dest: bit_imp_le_length)
  qed
qed

lemma load64_entry:
  "load64 m a = ucast (load16 m a) \<longleftrightarrow> (\<forall>k \<in> {2 ..< 8}. m (a + of_nat k) = 0)"
proof
  assume e: "load64 m a = ucast (load16 m a)"
  show "\<forall>k \<in> {2 ..< 8}. m (a + of_nat k) = 0"
  proof
    fix k :: nat assume k: "k \<in> {2 ..< 8}"
    have "\<not> bit (m (a + of_nat k)) r" for r
    proof
      assume b: "bit (m (a + of_nat k)) r"
      then have r: "r < 8" using bit_imp_le_length by force
      then have "bit (load64 m a) (8 * k + r)" using b k by (simp add: bit_load64)
      then show False using k unfolding e by (auto simp: bit_unsigned_iff dest: bit_imp_le_length)
    qed
    then show "m (a + of_nat k) = 0" by (simp add: bit_eq_iff)
  qed
next
  assume z: "\<forall>k \<in> {2 ..< 8}. m (a + of_nat k) = 0"
  show "load64 m a = ucast (load16 m a)"
  proof (rule bit_word_eqI)
    fix n assume "n < LENGTH(64)"
    then have n: "n < 64" by simp
    have "m (a + of_nat (n div 8)) = 0" if "16 \<le> n" using z n that by (auto intro!: bspec [OF z])
    then show "bit (load64 m a) n \<longleftrightarrow> bit (ucast (load16 m a) :: u64) n"
      using n by (cases "n < 16") (auto simp: bit_load64 bit_load16 bit_unsigned_iff dest: bit_imp_le_length)
  qed
qed

section \<open>Properties\<close>

text \<open>C19: What \<^verbatim>\<open>minix_write_inode\<close> stores into the 32 bytes of a raw inode, \<^verbatim>\<open>minix_iget\<close> reads back: mode,
  owner, group, size, time and the nine zone numbers agree when they fit the on-disk fields, and no
  byte outside the raw inode changes. The link count is the exception: it is stored and never read,
  so the inode in memory keeps the value it had.\<close>

theorem minix_inode_roundtrip:
  assumes "i_mode i < 2 ^ 16" "i_uid i < 2 ^ 16" "i_gid i < 2 ^ 8" "i_size i < 2 ^ 32" "i_mtime i < 2 ^ 32" "9 \<le> length (i_data i)"
  shows "let m' = write_raw_inode p i m; j' = read_raw_inode m' p j in
    i_mode j' = i_mode i \<and> i_uid j' = i_uid i \<and> i_gid j' = i_gid i \<and> i_size j' = i_size i \<and> i_mtime j' = i_mtime i \<and>
    take 9 (i_data j') = take 9 (i_data i) \<and> i_nlink j' = i_nlink j \<and> raw_nlinks m' p = ucast (i_nlink i) \<and>
    (\<forall>x. 32 \<le> x - p \<longrightarrow> m' x = m x)"
proof -
  have u: "ucast (ucast (w :: u64) :: u16) = w" if "w < 2 ^ 16" for w
    using take_bit_small [OF that] ucast_ucast_take(1) [of w] by simp
  have u8: "ucast (ucast (w :: u64) :: u8) = w" if "w < 2 ^ 8" for w
    using take_bit_small [OF that] ucast_ucast_take(2) [of w] by simp
  have u32: "ucast (ucast (w :: u64) :: u32) = w" if "w < 2 ^ 32" for w
    using take_bit_small [OF that] ucast_ucast_take(3) [of w] by simp
  have z: "map (raw_zone (write_raw_inode p i m) p) [0..<9] = take 9 (i_data i)"
    using assms(6) by (intro nth_equalityI) (simp_all add: raw_zone_after_write)
  show ?thesis
    using assms(1-5) u u8 u32 write_raw_inode_frame [of _ p i m]
    by (simp add: Let_def read_raw_inode_def raw_after_write z del: upt_rec_numeral)
qed

text \<open>The number of a zone has 16 bits, so every zone is a block of the chip.\<close>

lemma zone_small: "(ucast (w :: u16) :: u64) < nr_blocks"
proof -
  have "unat (ucast w :: u64) = unat w" by (simp add: unsigned_ucast_eq take_bit_nat_eq_self order_less_trans [OF unsigned_less])
  moreover have "unat w < 65536" using unsigned_less [of w] by simp
  ultimately show ?thesis by (simp add: word_less_nat_alt)
qed

lemma load64_low: "take_bit 16 (load64 m a) = ucast (load16 m a)"
proof (rule bit_word_eqI)
  fix n assume "n < LENGTH(64)"
  moreover have "bit (load16 m a) n \<longleftrightarrow> n < 16 \<and> bit (m (a + of_nat (n div 8))) (n mod 8)"
    using bit_load16 [of n m a] bit_imp_le_length [of "load16 m a" n] by auto
  ultimately show "bit (take_bit 16 (load64 m a)) n = bit (ucast (load16 m a) :: u64) n"
    by (auto simp: bit_take_bit_iff bit_load64 bit_unsigned_iff)
qed

lemma load16_zero_iff: "load16 m a = 0 \<longleftrightarrow> m a = 0 \<and> m (a + 1) = 0"
proof
  assume z: "load16 m a = 0"
  have "\<not> bit (m a) n" "\<not> bit (m (a + 1)) n" if n: "n < 8" for n
    using z bit_load16 [of n m a] bit_load16 [of "8 + n" m a] n by (simp_all add: div_add_self1)
  then show "m a = 0 \<and> m (a + 1) = 0" by (auto intro!: bit_word_eqI)
qed (simp add: load16_def)

text \<open>An entry of an indirect block, read as eight bytes: the number of a block of the chip only if the next three entries are zero.\<close>

lemma entry_number:
  "if \<forall>j \<in> {1, 2, 3}. load16 m (a + 2 * j) = 0 then load64 m a = ucast (load16 m a) else nr_blocks \<le> load64 m a"
proof (cases "\<forall>j \<in> {1, 2, 3}. load16 m (a + 2 * j) = 0")
  case True
  have "{2 ..< 8} = {2, 3, 4, 5, 6, 7 :: nat}" by auto
  then have "\<forall>k \<in> {2 ..< 8}. m (a + of_nat k) = 0" using True by (simp add: load16_zero_iff add.assoc)
  then show ?thesis using True load64_entry by simp
next
  case False
  have "load64 m a \<noteq> ucast (load16 m a)"
  proof
    assume "load64 m a = ucast (load16 m a)"
    then have z: "m (a + of_nat k) = 0" if "k \<in> {2 ..< 8}" for k using load64_entry [of m a] that by blast
    have "\<forall>j \<in> {1, 2, 3}. load16 m (a + 2 * j) = 0"
      using z [of 2] z [of 3] z [of 4] z [of 5] z [of 6] z [of 7] by (simp add: load16_zero_iff add.assoc)
    then show False using False by blast
  qed
  moreover have "load64 m a = ucast (load16 m a)" if "load64 m a < nr_blocks"
  proof -
    have "load64 m a < 2 ^ 16" using that by simp
    then have "take_bit 16 (load64 m a) = load64 m a" by (rule take_bit_small) simp
    then show ?thesis by (simp add: load64_low)
  qed
  ultimately show ?thesis using False not_less by auto
qed

text \<open>C38: An offset in the single-indirect range, up to the 509th entry of the indirect block, with the
  buffers of the indirect block clean and eight pages free: \<^verbatim>\<open>inode_get_blk\<close> reads eight bytes from the
  indirect block on the chip where an entry has two. If the next three entries are zero it returns a
  buffer of the block whose number is in the entry, which holds that block if it is clean and its
  block one of those whose buffers are not stale. Otherwise it asks for a block number that is off the chip.\<close>

theorem inode_get_blk_indirect:
  fixes s :: "('f, 'a) fs_state_scheme"
  assumes "flash_device fl content ready status polls prog" "cache_inv content ready Z s bs"
    and "inodes s inode = Some i" "sbs s (i_sb i) = Some sb" "bdevs s (s_bd sb) \<noteq> None" "8 \<le> free_count s"
    and "z = ucast (i_data i ! 7)" "z \<in> Z" "\<forall>c \<in> set bs. matches s (s_bd sb) z c \<longrightarrow> b_state (the (bhs s c)) = BH_Uptodate"
    and "k \<le> 508" "offset div 1024 = 7 + of_nat k" "entry = PFLASH1_BASE + z * BLOCK_SZ + 2 * of_nat k"
  shows "if \<forall>j \<in> {1, 2, 3}. load16 (content (flash s)) (entry + 2 * j) = 0
    then \<exists>b s' bs' h. inode_get_blk fl inode offset s = Inr (b, s') \<and> cache_inv content ready Z s' bs' \<and> b \<in> set bs' \<and>
      bhs s' b = Some h \<and> b_bd h = s_bd sb \<and> blk_no h = ucast (load16 (content (flash s)) entry) \<and>
      content (flash s') = content (flash s) \<and>
      (b_state h = BH_Uptodate \<longrightarrow> blk_no h \<in> Z \<longrightarrow> holds_block content s' h)
    else \<exists>bh s1 blk. get_blk fl (s_bd sb) z s = Inr (bh, s1) \<and> nr_blocks \<le> blk \<and>
      inode_get_blk fl inode offset s = get_blk fl (s_bd sb) blk s1"
proof -
  note fd = assms(1)
  have zs: "z < nr_blocks" unfolding assms(7) by (rule zone_small)
  have room: "4 \<le> free_count s" using assms(6) by simp
  obtain bh s1 bs1 h where g: "get_blk fl (s_bd sb) z s = Inr (bh, s1)" "cache_inv content ready Z s1 bs1" "bh \<in> set bs1"
      "content (flash s1) = content (flash s)" "free_count s \<le> free_count s1 + 4" "bhs s1 bh = Some h" "blk_no h = z" "b_bd h = s_bd sb"
      "if \<exists>c \<in> set bs. matches s (s_bd sb) z c then s1 = s \<and> bs1 = bs \<and> (b_state h = BH_Uptodate \<longrightarrow> z \<in> Z \<longrightarrow> holds_block content s1 h)
       else bs1 = bh # bs \<and> holds_block content s1 h \<and> bdevs s1 = bdevs s"
    using flash_device.get_blk_ok [OF fd assms(2,5) room zs] unfolding kept_def by (smt (verit))
  have m: "matches s (s_bd sb) z bh" if "s1 = s" using that g(6-8) by (auto simp: matches_def)
  have hold: "holds_block content s1 h" "bdevs s1 = bdevs s"
    using g(3,6,9) m assms(8,9) by (auto split: if_splits)
  let ?f = "content (flash s)" and ?a = "b_data h + 2 * of_nat k"
  have "mem s1 (?a + j) = ?f (entry + j)" if "j < 8" for j
  proof -
    have "2 * k + unat j < 1024" using that assms(10) by (simp add: word_less_nat_alt)
    then have "mem s1 (b_data h + of_nat (2 * k + unat j)) = ?f (PFLASH1_BASE + z * BLOCK_SZ + of_nat (2 * k + unat j))"
      using hold(1) g(4,7) unfolding holds_block_def by metis
    then show ?thesis by (simp add: assms(12) add.assoc)
  qed
  then have l: "load64 (mem s1) ?a = load64 ?f entry"
    by (simp add: load64_def) (use \<open>\<And>j. j < 8 \<Longrightarrow> _\<close> [of 0] in simp)
  have "of_nat k < (512 :: u64)" using assms(10) by (simp add: word_less_nat_alt unat_of_nat)
  then have "\<not> offset div BLOCK_SZ < 7" "offset div BLOCK_SZ < 7 + 512"
    using assms(10,11) by (simp_all add: BLOCK_SZ_def word_less_nat_alt unat_word_ariths unat_of_nat)
  then have run: "inode_get_blk fl inode offset s = get_blk fl (s_bd sb) (load64 ?f entry) s1"
    using assms(3,4) g(1,6) l assms(11) by (simp add: inode_get_blk_def Let_def assms(7) BLK_NO_SZ_def BLOCK_SZ_def)
  show ?thesis
  proof (cases "\<forall>j \<in> {1, 2, 3}. load16 ?f (entry + 2 * j) = 0")
    case False
    then show ?thesis using g(1) run entry_number [of ?f entry] by auto
  next
    case True
    have e: "load64 ?f entry = ucast (load16 ?f entry)" using entry_number [of ?f entry] True by simp
    have pre: "bdevs s1 (s_bd sb) \<noteq> None" "4 \<le> free_count s1" using assms(5,6) hold(2) g(5) by simp_all
    obtain b s' bs' h' where g': "get_blk fl (s_bd sb) (ucast (load16 ?f entry)) s1 = Inr (b, s')" "cache_inv content ready Z s' bs'" "b \<in> set bs'"
        "content (flash s') = content (flash s1)" "bhs s' b = Some h'" "blk_no h' = ucast (load16 ?f entry)" "b_bd h' = s_bd sb"
        "b_state h' = BH_Uptodate \<longrightarrow> blk_no h' \<in> Z \<longrightarrow> holds_block content s' h'"
      using flash_device.get_blk_ok [OF fd g(2) pre zone_small] by (smt (verit))
    show ?thesis unfolding if_P [OF True] run e
      using g' g(4) by (intro exI [of _ b] exI [of _ s'] exI [of _ bs'] exI [of _ h']) simp
  qed
qed

theorem minix_inode_roundtrip_witness:
  "let i = blank_inode\<lparr>i_mode := 0x81a4, i_size := 20000, i_nlink := 2, i_data := [3, 4, 5, 6, 7, 8, 9, 40, 0]\<rparr>;
       j = read_raw_inode (write_raw_inode 64 i (\<lambda>_. 0)) 64 blank_inode in
     i_size j = 20000 \<and> take 9 (i_data j) = [3, 4, 5, 6, 7, 8, 9, 40, 0] \<and> i_nlink j = 0"
  using minix_inode_roundtrip [of "blank_inode\<lparr>i_mode := 0x81a4, i_size := 20000, i_nlink := 2, i_data := [3, 4, 5, 6, 7, 8, 9, 40, 0]\<rparr>"
      64 "\<lambda>_. 0" blank_inode]
  by (simp add: Let_def blank_inode_def)

text \<open>A disk whose block 40 has one entry, the block 9, and a disk whose blocks are full of entries.\<close>

theorem inode_get_blk_indirect_witness:
  "(\<exists>b s' h. inode_get_blk sim_flash 0xffff000000096000 7168
       (boot_fs\<lparr>flash := \<lparr>chip_mode = Read_array, chip_array = (\<lambda>a. if a = PFLASH1_BASE + 40 * 1024 then 9 else 0)\<rparr>\<rparr>) = Inr (b, s') \<and>
     bhs s' b = Some h \<and> blk_no h = 9) \<and>
   (\<exists>bh s1 blk. get_blk sim_flash 0xffff000000093000 40 boot_fs = Inr (bh, s1) \<and> nr_blocks \<le> blk \<and>
     inode_get_blk sim_flash 0xffff000000096000 7168 boot_fs = get_blk sim_flash 0xffff000000093000 blk s1)"
proof
  let ?c = "\<lparr>chip_mode = Read_array, chip_array = (\<lambda>a. if a = PFLASH1_BASE + 40 * 1024 then 9 else 0)\<rparr>"
  let ?s = "boot_fs\<lparr>flash := ?c\<rparr>" and ?i = "the (inodes boot_fs 0xffff000000096000)" and ?sb = "\<lparr>s_bd = 0xffff000000093000, s_fs_info = NULL\<rparr>"
  let ?e = "PFLASH1_BASE + 40 * BLOCK_SZ + 2 * of_nat 0 :: u64"
  have i: "inodes boot_fs 0xffff000000096000 = Some ?i" "sbs boot_fs (i_sb ?i) = Some ?sb" "bdevs boot_fs (s_bd ?sb) \<noteq> None"
      "8 \<le> free_count boot_fs" "40 = (ucast (i_data ?i ! 7) :: u64)"
    by (simp_all add: boot_fs_fields boot_fs_km)
  have o: "(0 :: nat) \<le> 508" "(7168 :: u64) div 1024 = 7 + of_nat 0" "(40 :: u64) \<in> UNIV" by simp_all
  have c: "cache_inv chip_array chip_ready UNIV ?s []" using boot_fs_cache [of UNIV] by (simp add: cache_inv_def)
  have t: "inodes ?s 0xffff000000096000 = Some ?i" "sbs ?s (i_sb ?i) = Some ?sb" "bdevs ?s (s_bd ?sb) \<noteq> None" "8 \<le> free_count ?s"
    using i by simp_all
  have z: "\<forall>j \<in> {1, 2, 3}. load16 (chip_array (flash ?s)) (?e + 2 * j) = 0" "load16 (chip_array (flash ?s)) ?e = 9"
    by (simp_all add: load16_def BLOCK_SZ_def PFLASH1_BASE_def)
  show "\<exists>b s' h. inode_get_blk sim_flash 0xffff000000096000 7168 ?s = Inr (b, s') \<and> bhs s' b = Some h \<and> blk_no h = 9"
    using inode_get_blk_indirect [OF sim.flash_device_axioms c t i(5) o(3) _ o(1,2) refl] unfolding if_P [OF z(1)] z(2) by auto
  have z: "\<not> (\<forall>j \<in> {1, 2, 3}. load16 (chip_array (flash boot_fs)) (?e + 2 * j) = 0)"
    by (simp add: load16_def BLOCK_SZ_def PFLASH1_BASE_def boot_fs_def task_state.defs fs_state.defs)
  show "\<exists>bh s1 blk. get_blk sim_flash 0xffff000000093000 40 boot_fs = Inr (bh, s1) \<and> nr_blocks \<le> blk \<and>
     inode_get_blk sim_flash 0xffff000000096000 7168 boot_fs = get_blk sim_flash 0xffff000000093000 blk s1"
    using inode_get_blk_indirect [OF sim.flash_device_axioms boot_fs_cache i o(3) _ o(1,2) refl] unfolding if_not_P [OF z] by auto
qed

end
