(* ===== verification/Vfs.thy ===== *)
theory Vfs
  imports Minix
begin

text \<open>
  The file layer of \<^verbatim>\<open>fs/fs.c\<close>: path names, the table of open files, reading, writing and seeking.
  A file of the static table \<^verbatim>\<open>file_tbl\<close> lies at \<open>file_tbl s + 32 * i\<close>; a task refers to it by its
  address. An \<^verbatim>\<open>int\<close> argument is a mathematical integer in the range of \<^verbatim>\<open>int\<close>.
\<close>

section \<open>Paths\<close>

text \<open>A path ends within the address space, so \<open>2 ^ 64\<close> steps read all of it.\<close>

definition path_fuel :: nat where "path_fuel = 2 ^ 64"

definition slash :: u8 where "slash = 47"
definition dot :: u8 where "dot = 46"

function skip_slashes :: "nat \<Rightarrow> u64 \<Rightarrow> u64 \<Rightarrow> 'a task_state_scheme \<Rightarrow> (u64 \<times> u64) res" where
  "skip_slashes fuel path offset s =
     (if fuel = 0 then Inl Out_of_fuel
      else bindR (get_byte path s) (\<lambda>c.
        if c = slash then skip_slashes (fuel - 1) (path + 1) (offset + 1) s else Inr (path, offset)))"
  by pat_completeness auto
termination by (relation "measure (\<lambda>(fuel, _). fuel)") auto

declare skip_slashes.simps [simp del]

function name_len :: "nat \<Rightarrow> u64 \<Rightarrow> nat \<Rightarrow> 'a task_state_scheme \<Rightarrow> nat res" where
  "name_len fuel path i s =
     (if fuel = 0 then Inl Out_of_fuel
      else bindR (get_byte path s) (\<lambda>c.
        if c \<noteq> slash \<and> c \<noteq> 0 then
          if INT_MAX \<le> i then Inl Signed_overflow else name_len (fuel - 1) (path + 1) (Suc i) s
        else Inr i))"
  by pat_completeness auto
termination by (relation "measure (\<lambda>(fuel, _). fuel)") auto

declare name_len.simps [simp del]

text \<open>The length of the next component and the number of slashes before it.\<close>

definition path_len :: "u64 \<Rightarrow> 'a task_state_scheme \<Rightarrow> (nat \<times> u64) res" where
  "path_len path s =
     (if path = NULL then Inr (0, 0)
      else bindR (get_byte path s) (\<lambda>c.
        if c = 0 then Inr (0, 0)
        else bindR (skip_slashes path_fuel path 0 s) (\<lambda>(path, offset).
          bindR (name_len path_fuel path 0 s) (\<lambda>i. Inr (i, offset)))))"

text \<open>Calling \<^verbatim>\<open>lookup\<close> through the operations of an inode; files have none.\<close>

definition call_lookup :: "'f flash_bus \<Rightarrow> u64 \<Rightarrow> u64 \<Rightarrow> ('f, 'a) fs_state_scheme \<Rightarrow> (u64 \<times> ('f, 'a) fs_state_scheme) res" where
  "call_lookup fl dir name s =
     bindR (deref (inodes s) dir) (\<lambda>i.
     case i_op i of Minix_dir_inode_operations \<Rightarrow> minix_lookup fl dir name s | _ \<Rightarrow> Inl Null_deref)"

fun copy_name :: "nat \<Rightarrow> u64 \<Rightarrow> u64 \<Rightarrow> 'a task_state_scheme \<Rightarrow> 'a task_state_scheme res" where
  "copy_name 0 dst src s = Inr s"
| "copy_name (Suc n) dst src s =
     bindR (get_byte src s) (\<lambda>v. copy_name n (dst + 1) (src + 1) (s\<lparr>mem := (mem s)(dst := v)\<rparr>))"

function namei_loop ::
  "nat \<Rightarrow> 'f flash_bus \<Rightarrow> u64 \<Rightarrow> u64 \<Rightarrow> u64 \<Rightarrow> ('f, 'a) fs_state_scheme \<Rightarrow> (u64 \<times> ('f, 'a) fs_state_scheme) res" where
  "namei_loop fuel fl name path dir s =
     (if fuel = 0 then Inl Out_of_fuel
      else bindR (path_len path s) (\<lambda>(length, offset).
        if length = 0 then Inr (dir, s)
        else
          let path = path + offset in
          bindR (copy_name length name path s) (\<lambda>s.
          let path = path + of_nat length; s = s\<lparr>mem := (mem s)(name + of_nat length := 0)\<rparr> in
          bindR (call_lookup fl dir name s) (\<lambda>(dir, s).
          if dir = NULL then Inr (dir, s) else namei_loop (fuel - 1) fl name path dir s))))"
  by pat_completeness auto
termination by (relation "measure (\<lambda>(fuel, _). fuel)") auto

declare namei_loop.simps [simp del]

text \<open>A string at an address that the running task sees, as \<^verbatim>\<open>strlen\<close> and \<^verbatim>\<open>printf\<close> read it; its length.\<close>

function get_string :: "nat \<Rightarrow> u64 \<Rightarrow> 'a task_state_scheme \<Rightarrow> u8 list res" where
  "get_string fuel p s =
     (if fuel = 0 then Inl Out_of_fuel
      else bindR (get_byte p s) (\<lambda>c.
        if c = 0 then Inr [] else bindR (get_string (fuel - 1) (p + 1) s) (\<lambda>cs. Inr (c # cs))))"
  by pat_completeness auto
termination by (relation "measure (\<lambda>(fuel, _). fuel)") auto

declare get_string.simps [simp del]

definition strlen_at :: "u64 \<Rightarrow> 'a task_state_scheme \<Rightarrow> u32 res" where
  "strlen_at p s = bindR (get_string path_fuel p s) (\<lambda>cs. Inr (of_nat (length cs)))"

definition namei :: "'f flash_bus \<Rightarrow> u64 \<Rightarrow> u64 \<Rightarrow> ('f, 'a) fs_state_scheme \<Rightarrow> (u64 \<times> ('f, 'a) fs_state_scheme) res" where
  "namei fl cur_dir path s =
     (if path = NULL then Inr (NULL, s)
      else bindR (get_byte path s) (\<lambda>c.
        if c \<noteq> slash \<and> cur_dir = NULL then Inr (NULL, s)
        else
          let dir = (if c = slash then root_inode s else cur_dir) in
          bindR (if c = dot then bindR (get_byte (path + 1) s) (\<lambda>c. Inr (c = slash)) else Inr False) (\<lambda>here.
          let path = (if here then path + 2 else path) in
          bindR (strlen_at path s) (\<lambda>n.
          bindR (kmalloc (n + 4) s) (\<lambda>(name, s).
          bindR (namei_loop path_fuel fl name path dir s) (\<lambda>(dir, s).
          bindR (kfree name s) (\<lambda>s. Inr (dir, s))))))))"

section \<open>Open files\<close>

definition with_file :: "u64 \<Rightarrow> (file_struct \<Rightarrow> file_struct) \<Rightarrow> ('f, 'a) fs_state_scheme \<Rightarrow> ('f, 'a) fs_state_scheme res" where
  "with_file p g s = bindR (deref (files s) p) (\<lambda>f. Inr (s\<lparr>files := (files s)(p \<mapsto> g f)\<rparr>))"

text \<open>An index beyond the array \<^verbatim>\<open>filp\<close> of a task is a fault.\<close>

definition filp_at :: "int \<Rightarrow> task_struct \<Rightarrow> u64 res" where
  "filp_at fd t = (if 0 \<le> fd \<and> fd < int (length (filp t)) then Inr (filp t ! nat fd) else Inl Out_of_bounds)"

definition set_filp :: "nat \<Rightarrow> u64 \<Rightarrow> ('f, 'a) fs_state_scheme \<Rightarrow> ('f, 'a) fs_state_scheme res" where
  "set_filp fd f s =
     bindR (deref (tasks s) (get_current s)) (\<lambda>t.
     if fd < length (filp t) then with_task (get_current s) (\<lambda>t. t\<lparr>filp := (filp t)[fd := f]\<rparr>) s else Inl Out_of_bounds)"

text \<open>The scan of \<^verbatim>\<open>file_tbl\<close> for an unused entry; the number of the entry.\<close>

fun find_file :: "nat \<Rightarrow> nat \<Rightarrow> ('f, 'a) fs_state_scheme \<Rightarrow> nat res" where
  "find_file 0 i s = Inr i"
| "find_file (Suc n) i s =
     bindR (deref (files s) (file_tbl s + 32 * of_nat i)) (\<lambda>f.
     if f_count f = 0 then Inr i else find_file n (Suc i) s)"

definition file_open :: "'f flash_bus \<Rightarrow> u64 \<Rightarrow> int \<Rightarrow> int \<Rightarrow> ('f, 'a) fs_state_scheme \<Rightarrow> (int \<times> ('f, 'a) fs_state_scheme) res" where
  "file_open fl filename flag mode s =
     bindR (deref (tasks s) (get_current s)) (\<lambda>t.
     let fd = length (takeWhile (\<lambda>f. f \<noteq> NULL) (take NR_OPEN (filp t))) in
     if fd \<ge> NR_OPEN then Inr (-1, s)
     else bindR (find_file NR_FILE 0 s) (\<lambda>i.
       if i \<ge> NR_FILE then Inr (-2, s)
       else
         let f = file_tbl s + 32 * of_nat i in
         bindR (set_filp fd f s) (\<lambda>s.
         bindR (namei fl NULL filename s) (\<lambda>(inode, s).
         if inode = NULL then
           bindR (set_filp fd NULL s) (\<lambda>s.
           bindR (with_file f (\<lambda>x. x\<lparr>f_count := 0\<rparr>) s) (\<lambda>s. Inr (-3, s)))
         else
           bindR (with_file f (\<lambda>x. x\<lparr>f_flags := flag, f_count := 1, f_inode := inode, f_pos := 0\<rparr>) s) (\<lambda>s.
           Inr (int fd, s))))))"

text \<open>The message for a file whose count is zero is not printed.\<close>

definition file_close :: "'f flash_bus \<Rightarrow> int \<Rightarrow> ('f, 'a) fs_state_scheme \<Rightarrow> (int \<times> ('f, 'a) fs_state_scheme) res" where
  "file_close fl fd s =
     (if fd \<ge> int NR_OPEN \<or> fd < 0 then Inr (-1, s)
      else bindR (deref (tasks s) (get_current s)) (\<lambda>t.
        bindR (filp_at fd t) (\<lambda>f.
        bindR (set_filp (nat fd) NULL s) (\<lambda>s.
        bindR (with_file f (\<lambda>x. if f_count x = 0 then x else x\<lparr>f_count := f_count x - 1\<rparr>) s) (\<lambda>s.
        bindR (deref (files s) f) (\<lambda>x.
        bindR (put_inode fl (f_inode x) s) (\<lambda>(_, s). Inr (0, s))))))))"

text \<open>Conversion of an \<^verbatim>\<open>unsigned long\<close> to \<^verbatim>\<open>int\<close>.\<close>

definition to_int :: "u64 \<Rightarrow> int" where
  "to_int w = sint (ucast w :: u32)"

definition file_read :: "'f flash_bus \<Rightarrow> u64 \<Rightarrow> u64 \<Rightarrow> int \<Rightarrow> ('f, 'a) fs_state_scheme \<Rightarrow> (int \<times> ('f, 'a) fs_state_scheme) res" where
  "file_read fl f buf count s =
     (if count \<le> 0 then Inr (0, s)
      else bindR (deref (files s) f) (\<lambda>x.
        bindR (deref (inodes s) (f_inode x)) (\<lambda>i.
        bindR (case i_op i of Minix_inode_operations \<Rightarrow> minix_read fl (f_inode x) buf (to_int (f_pos x)) count s
               | _ \<Rightarrow> Inl Null_deref) (\<lambda>(ret, s).
        bindR (if ret > 0 then with_file f (\<lambda>x. x\<lparr>f_pos := f_pos x + word_of_int ret\<rparr>) s else Inr s) (\<lambda>s.
        Inr (if ret \<noteq> 0 then ret else -1, s))))))"

definition file_write :: "'f flash_bus \<Rightarrow> u64 \<Rightarrow> u64 \<Rightarrow> int \<Rightarrow> ('f, 'a) fs_state_scheme \<Rightarrow> (int \<times> ('f, 'a) fs_state_scheme) res" where
  "file_write fl f buf count s =
     (if count \<le> 0 then Inr (0, s)
      else bindR (deref (files s) f) (\<lambda>x.
        bindR (deref (inodes s) (f_inode x)) (\<lambda>i.
        bindR (case i_op i of Minix_inode_operations \<Rightarrow> minix_write fl (f_inode x) buf (to_int (f_pos x)) count s
               | _ \<Rightarrow> Inl Null_deref) (\<lambda>(ret, s).
        bindR (if ret > 0 then with_file f (\<lambda>x. x\<lparr>f_pos := f_pos x + word_of_int ret\<rparr>) s else Inr s) (\<lambda>s.
        Inr (if ret \<noteq> 0 then ret else -1, s))))))"

definition SEEK_SET :: int where "SEEK_SET = 0"
definition SEEK_CUR :: int where "SEEK_CUR = 1"
definition SEEK_END :: int where "SEEK_END = 2"

text \<open>
  The comparison of \<^verbatim>\<open>pos\<close> with the size is one of \<^verbatim>\<open>unsigned long\<close>; it is reached for
  \<^verbatim>\<open>pos >= 0\<close> only.
\<close>

definition file_lseek :: "u64 \<Rightarrow> int \<Rightarrow> int \<Rightarrow> ('f, 'a) fs_state_scheme \<Rightarrow> (int \<times> ('f, 'a) fs_state_scheme) res" where
  "file_lseek f offset whence s =
     bindR (deref (files s) f) (\<lambda>x.
     bindR (deref (inodes s) (f_inode x)) (\<lambda>i.
     let pos = (if whence = SEEK_SET then offset
                else if whence = SEEK_CUR then to_int (f_pos x) + offset
                else if whence = SEEK_END then to_int (i_size i) + offset
                else to_int (f_pos x))
     in if \<not> fits_int pos then Inl Signed_overflow
        else if pos < 0 \<or> (word_of_int pos :: u64) > i_size i then Inr (-1, s)
        else bindR (with_file f (\<lambda>x. x\<lparr>f_pos := word_of_int pos\<rparr>) s) (\<lambda>s. Inr (pos, s))))"

section \<open>Mounting\<close>

definition init_fs :: "'f flash_bus \<Rightarrow> ('f, 'a) fs_state_scheme \<Rightarrow> ('f, 'a) fs_state_scheme res" where
  "init_fs fl s =
     bindR (kmalloc 24 s) (\<lambda>(bd, s).
     bindR (kmalloc 40 s) (\<lambda>(sb, s).
     let s = s\<lparr>root_bdev := bd,
               bdevs := (bdevs s)(bd \<mapsto> \<lparr>nr_blk = sector_sz pflash * nr_sector pflash div BLOCK_SZ, bd_sb = sb\<rparr>),
               sbs := (sbs s)(sb \<mapsto> \<lparr>s_bd = bd, s_fs_info = NULL\<rparr>)\<rparr>
     in bindR (minix_fill_super fl sb s) (\<lambda>s.
        bindR (minix_iget fl sb MINIX_ROOT_INO s) (\<lambda>(inode, s).
        Inr (s\<lparr>root_inode := inode\<rparr>)))))"

section \<open>Positions and paths\<close>

text \<open>What the three kinds of seek count from.\<close>

definition seek_base :: "int \<Rightarrow> file_struct \<Rightarrow> inode \<Rightarrow> int" where
  "seek_base whence x i =
     (if whence = SEEK_CUR then uint (f_pos x) else if whence = SEEK_END then uint (i_size i) else 0)"

lemma to_int_small: "uint w < 2 ^ 31 \<Longrightarrow> to_int w = uint w"
  unfolding to_int_def by (rule sint_ucast_small)

lemma uint_word_of_int: "0 \<le> p \<Longrightarrow> fits_int p \<Longrightarrow> uint (word_of_int p :: u64) = p"
  by (simp add: fits_int_def uint_word_of_int take_bit_int_eq_self_iff)

text \<open>\<open>pstr s p xs\<close>: the bytes \<open>xs\<close>, none of them zero, and then a zero byte are read at \<open>p\<close>.\<close>

fun pstr :: "'a task_state_scheme \<Rightarrow> u64 \<Rightarrow> u8 list \<Rightarrow> bool" where
  "pstr s p [] \<longleftrightarrow> get_byte p s = Inr 0"
| "pstr s p (x # xs) \<longleftrightarrow> get_byte p s = Inr x \<and> x \<noteq> 0 \<and> pstr s (p + 1) xs"

lemma pstr_get: "pstr s p xs \<Longrightarrow> get_byte p s = Inr (case xs of [] \<Rightarrow> 0 | x # _ \<Rightarrow> x)"
  by (cases xs) auto

lemma skip_slashes_pstr:
  assumes "pstr s p xs" "length xs < fuel"
  shows "skip_slashes fuel p off s =
      Inr (p + of_nat (length (takeWhile (\<lambda>c. c = slash) xs)), off + of_nat (length (takeWhile (\<lambda>c. c = slash) xs))) \<and>
    pstr s (p + of_nat (length (takeWhile (\<lambda>c. c = slash) xs))) (dropWhile (\<lambda>c. c = slash) xs)"
  using assms
proof (induction xs arbitrary: p off fuel)
  case Nil
  then show ?case by (simp add: skip_slashes.simps slash_def)
next
  case (Cons x xs)
  show ?case
  proof (cases "x = slash")
    case True
    have "pstr s (p + 1) xs" "length xs < fuel - 1" using Cons.prems by auto
    from Cons.IH [OF this, of "off + 1"] show ?thesis
      using Cons.prems True by (subst skip_slashes.simps) (simp add: ac_simps)
  next
    case False
    then show ?thesis using Cons.prems by (subst skip_slashes.simps) auto
  qed
qed

lemma name_len_pstr:
  assumes "pstr s p xs" "length xs < fuel" "i + length xs \<le> INT_MAX"
  shows "name_len fuel p i s = Inr (i + length (takeWhile (\<lambda>c. c \<noteq> slash) xs))"
  using assms
proof (induction xs arbitrary: p i fuel)
  case Nil
  then show ?case by (simp add: name_len.simps)
next
  case (Cons x xs)
  show ?case
  proof (cases "x = slash")
    case True
    then show ?thesis using Cons.prems by (subst name_len.simps) simp
  next
    case False
    have "name_len (fuel - 1) (p + 1) (Suc i) s = Inr (Suc i + length (takeWhile (\<lambda>c. c \<noteq> slash) xs))"
      using Cons.prems by (intro Cons.IH) auto
    then show ?thesis using Cons.prems False by (subst name_len.simps) simp
  qed
qed

lemma find_file_free:
  assumes "find_file n k s = Inr i" "i < k + n"
  shows "\<exists>f. files s (file_tbl s + 32 * of_nat i) = Some f \<and> f_count f = 0"
  using assms
proof (induction n arbitrary: k)
  case 0
  then show ?case by simp
next
  case (Suc n)
  then obtain f where f: "files s (file_tbl s + 32 * of_nat k) = Some f"
    by (cases "files s (file_tbl s + 32 * of_nat k)") auto
  show ?case
  proof (cases "f_count f = 0")
    case True
    then show ?thesis using Suc.prems f by auto
  next
    case False
    then show ?thesis using Suc.prems f by (intro Suc.IH [of "Suc k"]) auto
  qed
qed

section \<open>Properties\<close>

text \<open>C22: For a file whose position and size are below \<open>2^31\<close>, and an offset such that the sum does not leave the
  range of a 32-bit \<^verbatim>\<open>int\<close>, \<^verbatim>\<open>file_lseek\<close> moves the position to the asked offset from the start, the
  position or the end of the file when that lies between 0 and the size, and otherwise returns -1 and
  changes nothing; so a position within the size stays within it. Without these bounds it does not hold:
  the sum is a signed overflow when it leaves the range of an \<^verbatim>\<open>int\<close>, and the position and the size are cut down
  to an \<^verbatim>\<open>int\<close> before they are used.\<close>

theorem file_lseek_bounds:
  assumes "files s f = Some x" "inodes s (f_inode x) = Some i" "uint (f_pos x) < 2 ^ 31" "uint (i_size i) < 2 ^ 31"
    and "whence \<in> {SEEK_SET, SEEK_CUR, SEEK_END}" "fits_int (seek_base whence x i + offset)"
  shows "file_lseek f offset whence s =
    (let pos = seek_base whence x i + offset in
     if 0 \<le> pos \<and> pos \<le> uint (i_size i) then Inr (pos, s\<lparr>files := (files s)(f \<mapsto> x\<lparr>f_pos := word_of_int pos\<rparr>)\<rparr>)
     else Inr (-1, s)) \<and>
    (\<forall>r s'. file_lseek f offset whence s = Inr (r, s') \<longrightarrow>
       (\<exists>x'. files s' f = Some x' \<and> (uint (f_pos x) \<le> uint (i_size i) \<longrightarrow> uint (f_pos x') \<le> uint (i_size i))))"
proof -
  let ?p = "seek_base whence x i + offset"
  have t: "(if whence = SEEK_SET then offset else if whence = SEEK_CUR then to_int (f_pos x) + offset
      else if whence = SEEK_END then to_int (i_size i) + offset else to_int (f_pos x)) = ?p"
    using assms(3-5) by (auto simp: seek_base_def to_int_small SEEK_SET_def SEEK_CUR_def SEEK_END_def)
  have c: "(word_of_int ?p :: u64) > i_size i \<longleftrightarrow> ?p > uint (i_size i)" if "0 \<le> ?p"
    using uint_word_of_int [OF that assms(6)] by (simp add: word_less_def)
  have e: "file_lseek f offset whence s = (if 0 \<le> ?p \<and> ?p \<le> uint (i_size i)
      then Inr (?p, s\<lparr>files := (files s)(f \<mapsto> x\<lparr>f_pos := word_of_int ?p\<rparr>)\<rparr>) else Inr (-1, s))"
    using assms(1,2,6) c by (auto simp: file_lseek_def t with_file_def Let_def)
  then show ?thesis using assms(1) uint_word_of_int [OF _ assms(6)] by (auto simp: Let_def)
qed

text \<open>On a path that ends in a zero byte, \<^verbatim>\<open>path_len\<close> returns the length of the first component and the
  number of slashes before it, and never reads past the zero byte.\<close>

theorem path_len_correct:
  assumes "pstr s p xs" "p \<noteq> NULL" "length xs \<le> INT_MAX"
  shows "path_len p s = Inr (length (takeWhile (\<lambda>c. c \<noteq> slash) (dropWhile (\<lambda>c. c = slash) xs)),
    of_nat (length (takeWhile (\<lambda>c. c = slash) xs)))"
proof (cases xs)
  case Nil
  then show ?thesis using assms by (simp add: path_len_def)
next
  case (Cons x ys)
  have f: "length xs < path_fuel" using assms(3) by (simp add: path_fuel_def INT_MAX_def)
  note k = skip_slashes_pstr [OF assms(1) f, of 0]
  have d: "length (dropWhile (\<lambda>c. c = slash) xs) \<le> length xs" by (simp add: length_dropWhile_le)
  have "name_len path_fuel (p + of_nat (length (takeWhile (\<lambda>c. c = slash) xs))) 0 s =
      Inr (length (takeWhile (\<lambda>c. c \<noteq> slash) (dropWhile (\<lambda>c. c = slash) xs)))"
    using name_len_pstr [OF conjunct2 [OF k], of path_fuel 0] d f assms(3) by simp
  then show ?thesis using assms(1,2) k Cons by (simp add: path_len_def)
qed

text \<open>A path that does not begin with a slash is never opened: with a free descriptor and a free entry
  of the file table \<^verbatim>\<open>file_open\<close> returns -3 and leaves the state as it was.\<close>

theorem file_open_relative:
  assumes "tasks s (get_current s) = Some t" "length (filp t) = NR_OPEN" "NULL \<in> set (filp t)"
    and "find_file NR_FILE 0 s = Inr i" "i < NR_FILE" "path = NULL \<or> (\<exists>c. get_byte path s = Inr c \<and> c \<noteq> slash)"
  shows "file_open fl path flag mode s = Inr (-3, s)"
proof -
  let ?fd = "length (takeWhile (\<lambda>f. f \<noteq> NULL) (filp t))" and ?p = "file_tbl s + 32 * of_nat i"
  have fd: "?fd < NR_OPEN" "filp t ! ?fd = NULL"
  proof -
    have "takeWhile (\<lambda>f. f \<noteq> NULL) (filp t) \<noteq> filp t" using assms(3) by (auto simp: takeWhile_eq_all_conv)
    then have "?fd < length (filp t)"
      by (metis length_takeWhile_le le_neq_implies_less takeWhile_eq_take take_all order_refl)
    then show "?fd < NR_OPEN" "filp t ! ?fd = NULL" using nth_length_takeWhile [of "\<lambda>f. f \<noteq> NULL"] assms(2) by auto
  qed
  obtain f where f: "files s ?p = Some f" "f_count f = 0" using find_file_free [OF assms(4)] assms(5) by auto
  let ?t = "t\<lparr>filp := (filp t)[?fd := ?p]\<rparr>"
  let ?s = "s\<lparr>tasks := (tasks s)(get_current s \<mapsto> ?t)\<rparr>"
  have c: "get_current ?s = get_current s" "get_byte path ?s = get_byte path s"
    by (simp_all add: get_current_def get_byte_def byte_addr_def)
  have n: "namei fl NULL path ?s = Inr (NULL, ?s)" using assms(6) c(2) by (auto simp: namei_def)
  have "(filp t)[?fd := NULL] = filp t" using fd by (metis list_update_id)
  then have same: "t\<lparr>filp := (filp t)[?fd := NULL]\<rparr> = t" "f\<lparr>f_count := 0\<rparr> = f" using f(2) by simp_all
  show ?thesis
    using assms(1,2,4,5) fd(1) c(1) n f(1) same task_upd_idem [OF assms(1)]
    by (simp add: file_open_def set_filp_def with_task_def with_file_def Let_def not_le fun_upd_idem)
qed

theorem file_lseek_bounds_witness:
  "fst (projr (file_lseek 0xffff000000094000 400 SEEK_CUR boot_fs)) = 500 \<and>
   file_lseek 0xffff000000094000 1 SEEK_END boot_fs = Inr (-1, boot_fs)"
  using file_lseek_bounds [of boot_fs "0xffff000000094000" _ _ SEEK_CUR 400] file_lseek_bounds [of boot_fs "0xffff000000094000" _ _ SEEK_END 1]
  by (simp add: boot_fs_fields SEEK_SET_def SEEK_CUR_def SEEK_END_def seek_base_def fits_int_def Let_def)

theorem path_len_correct_witness:
  "path_len 0xffff000000097000 (boot_fs\<lparr>mem := (\<lambda>_. 0)(0xffff000000097000 := slash, 0xffff000000097001 := 0x62,
     0xffff000000097002 := 0x69, 0xffff000000097003 := slash, 0xffff000000097004 := 0x61)\<rparr>) = Inr (2, 1)"
  by (subst path_len_correct [where xs = "[slash, 0x62, 0x69, slash, 0x61]"])
    (simp_all add: get_byte_def byte_addr_def KERNEL_VA_START_def slash_def INT_MAX_def)

theorem file_open_relative_witness:
  "file_open sim_flash 0xffff000000097000 0 0 (boot_fs\<lparr>mem := (\<lambda>_. 0x61),
       files := (\<lambda>_. Some \<lparr>f_inode = NULL, f_count = 0, f_flags = 0, f_pos = 0\<rparr>)\<rparr>) =
     Inr (-3, boot_fs\<lparr>mem := (\<lambda>_. 0x61), files := (\<lambda>_. Some \<lparr>f_inode = NULL, f_count = 0, f_flags = 0, f_pos = 0\<rparr>)\<rparr>)"
  (is "file_open _ _ _ _ ?s = _")
proof -
  have c: "get_current ?s = 0xffff000000091000" using boot_fs_tasks(2) by (simp add: get_current_def)
  have n: "find_file NR_FILE 0 ?s = Inr 0" by (simp add: NR_FILE_def find_file.simps(2) [of 63, simplified])
  show ?thesis
    by (rule file_open_relative [where i = 0 and t = "zero_task\<lparr>state := TASK_RUNNING, canary := CANARY_MAGIC_NUM\<rparr>"])
      (use c n in \<open>simp_all add: boot_fs_tasks boot_task_fields get_byte_def byte_addr_def KERNEL_VA_START_def slash_def NR_FILE_def
        NR_OPEN_def zero_task_def\<close>)
qed

end
