(* ===== verification/Syscall.thy ===== *)
theory Syscall
  imports Vfs Console
begin

text \<open>
  \<^verbatim>\<open>kernel/syscall.c\<close>, the dispatch of system calls in \<^verbatim>\<open>arch/vector.S\<close> and the start of programs from
  files in \<^verbatim>\<open>kernel/task.c\<close>. A system call takes the argument registers \<^verbatim>\<open>x0\<close> to \<^verbatim>\<open>x2\<close>. The parameter \<open>fmt\<close>
  is the address of the string literal \<^verbatim>\<open>"%s"\<close> of \<^verbatim>\<open>sys_put\<close> in the kernel image.
\<close>

section \<open>Programs\<close>

definition execv :: "'f flash_bus \<Rightarrow> mm_struct \<Rightarrow> u64 \<Rightarrow> ('f, 'a) fs_state_scheme \<Rightarrow> ('f, 'a) fs_state_scheme res" where
  "execv fl junk f s =
     bindR (deref (files s) f) (\<lambda>x.
     bindR (deref (inodes s) (f_inode x)) (\<lambda>i.
     let sz = i_size i in
     bindR (kmalloc (ucast sz) s) (\<lambda>(buf, s).
     bindR (file_read fl f buf (to_int sz) s) (\<lambda>(_, s).
     bindR (copy_process junk buf sz s) (kfree buf)))))"

section \<open>System calls\<close>

definition SYS_PUT :: nat where "SYS_PUT = 0"
definition SYS_FORK :: nat where "SYS_FORK = 1"
definition SYS_MALLOC :: nat where "SYS_MALLOC = 2"
definition SYS_EXIT :: nat where "SYS_EXIT = 3"
definition SYS_OPEN :: nat where "SYS_OPEN = 4"
definition SYS_READ :: nat where "SYS_READ = 5"
definition SYS_WRITE :: nat where "SYS_WRITE = 6"
definition SYS_CLOSE :: nat where "SYS_CLOSE = 7"
definition SYS_LSEEK :: nat where "SYS_LSEEK = 8"
definition SYSCALL_NR :: nat where "SYSCALL_NR = 9"

datatype syscall = sys_put | sys_fork | sys_malloc | sys_exit | sys_open | sys_read | sys_write | sys_lseek | sys_execv

definition syscall_table :: "syscall list" where
  "syscall_table = [sys_put, sys_fork, sys_malloc, sys_exit, sys_open, sys_read, sys_write, sys_lseek, sys_execv]"

text \<open>
  What a system call gives: a value for \<^verbatim>\<open>x0\<close> in the context of the caller, or the processor now
  runs another task (\<^verbatim>\<open>sys_exit\<close>), which \<^verbatim>\<open>schedule\<close> resumed or started.
\<close>

datatype sys_result = Returns int | Switched "resume_point option"

definition do_put :: "u64 \<Rightarrow> u64 \<Rightarrow> ('f, 'a) fs_state_scheme \<Rightarrow> (sys_result \<times> ('f, 'a) fs_state_scheme) res" where
  "do_put fmt buf s =
     bindR (printf (\<lambda>a. byte_addr a s) fmt [buf] (out_of s)) (\<lambda>(r, x).
     Inr (Returns r, s\<lparr>mem := pmem x, console := uart x\<rparr>))"

definition do_exit :: "('f, 'a) fs_state_scheme \<Rightarrow> (sys_result \<times> ('f, 'a) fs_state_scheme) res" where
  "do_exit s =
     (let me = get_current s in
      bindR (with_task me (\<lambda>t. t\<lparr>state := TASK_ZOMBIE\<rparr>) s) (\<lambda>s.
      bindR (schedule s) (\<lambda>(r, s).
      Inr (if r = Some In_schedule \<and> get_current s = me then Returns 0 else Switched r, s))))"

definition do_open :: "'f flash_bus \<Rightarrow> u64 \<Rightarrow> int \<Rightarrow> int \<Rightarrow> ('f, 'a) fs_state_scheme \<Rightarrow> (int \<times> ('f, 'a) fs_state_scheme) res" where
  "do_open fl filename flag mode s = file_open fl filename flag mode s"

definition do_read :: "'f flash_bus \<Rightarrow> int \<Rightarrow> u64 \<Rightarrow> int \<Rightarrow> ('f, 'a) fs_state_scheme \<Rightarrow> (int \<times> ('f, 'a) fs_state_scheme) res" where
  "do_read fl fd buf count s =
     (if fd \<ge> int NR_OPEN \<or> fd < 0 \<or> buf = NULL \<or> count < 0 then Inr (-1, s)
      else bindR (deref (tasks s) (get_current s)) (\<lambda>t.
        bindR (filp_at fd t) (\<lambda>f.
        if f = NULL then Inr (-1, s) else file_read fl f buf count s)))"

definition do_write :: "'f flash_bus \<Rightarrow> int \<Rightarrow> u64 \<Rightarrow> int \<Rightarrow> ('f, 'a) fs_state_scheme \<Rightarrow> (int \<times> ('f, 'a) fs_state_scheme) res" where
  "do_write fl fd buf count s =
     (if fd \<ge> int NR_OPEN \<or> fd < 0 \<or> buf = NULL \<or> count < 0 then Inr (-1, s)
      else bindR (deref (tasks s) (get_current s)) (\<lambda>t.
        bindR (filp_at fd t) (\<lambda>f.
        if f = NULL then Inr (-1, s) else file_write fl f buf count s)))"

definition do_lseek :: "int \<Rightarrow> int \<Rightarrow> int \<Rightarrow> ('f, 'a) fs_state_scheme \<Rightarrow> (int \<times> ('f, 'a) fs_state_scheme) res" where
  "do_lseek fd offset whence s =
     (if fd \<ge> int NR_OPEN \<or> fd < 0 then Inr (-1, s)
      else bindR (deref (tasks s) (get_current s)) (\<lambda>t.
        bindR (filp_at fd t) (\<lambda>f.
        if f = NULL then Inr (-1, s) else file_lseek f offset whence s)))"

text \<open>The result of \<^verbatim>\<open>file_open\<close> is used as an index without a test; a negative one is a fault.\<close>

definition do_execv :: "'f flash_bus \<Rightarrow> mm_struct \<Rightarrow> u64 \<Rightarrow> ('f, 'a) fs_state_scheme \<Rightarrow> (int \<times> ('f, 'a) fs_state_scheme) res" where
  "do_execv fl junk file_path s =
     (if file_path = NULL then Inr (-1, s)
      else bindR (file_open fl file_path 0 0 s) (\<lambda>(fd, s).
        bindR (deref (tasks s) (get_current s)) (\<lambda>t.
        bindR (filp_at fd t) (\<lambda>f.
        bindR (execv fl junk f s) (\<lambda>s.
        bindR (file_close fl fd s) (\<lambda>(_, s). Inr (0, s)))))))"

section \<open>Dispatch\<close>

definition plain :: "(int \<times> ('f, 'a) fs_state_scheme) res \<Rightarrow> (sys_result \<times> ('f, 'a) fs_state_scheme) res" where
  "plain m = bindR m (\<lambda>(v, s). Inr (Returns v, s))"

definition run_syscall ::
  "'f flash_bus \<Rightarrow> mm_struct \<Rightarrow> u64 \<Rightarrow> syscall \<Rightarrow> u64 \<Rightarrow> u64 \<Rightarrow> u64 \<Rightarrow> ('f, 'a) fs_state_scheme
     \<Rightarrow> (sys_result \<times> ('f, 'a) fs_state_scheme) res" where
  "run_syscall fl junk fmt c x0 x1 x2 s =
     (case c of
        sys_put \<Rightarrow> do_put fmt x0 s
      | sys_fork \<Rightarrow> Inr (Returns 0, s)
      | sys_malloc \<Rightarrow> Inr (Returns 0, s)
      | sys_exit \<Rightarrow> do_exit s
      | sys_open \<Rightarrow> plain (do_open fl x0 (to_int x1) (to_int x2) s)
      | sys_read \<Rightarrow> plain (do_read fl (to_int x0) x1 (to_int x2) s)
      | sys_write \<Rightarrow> plain (do_write fl (to_int x0) x1 (to_int x2) s)
      | sys_lseek \<Rightarrow> plain (do_lseek (to_int x0) (to_int x1) (to_int x2) s)
      | sys_execv \<Rightarrow> plain (do_execv fl junk x0 s))"

text \<open>
  \<^verbatim>\<open>el0_svc\<close>: a number that is too large goes to the handler of unexpected exceptions (\<open>None\<close>),
  which never returns. Interrupts are unmasked around the call.
\<close>

definition el0_svc ::
  "'f flash_bus \<Rightarrow> mm_struct \<Rightarrow> u64 \<Rightarrow> u64 \<Rightarrow> u64 \<Rightarrow> u64 \<Rightarrow> u64 \<Rightarrow> ('f, 'a) fs_state_scheme
     \<Rightarrow> (sys_result option \<times> ('f, 'a) fs_state_scheme) res" where
  "el0_svc fl junk fmt x8 x0 x1 x2 s =
     (if x8 \<ge> of_nat SYSCALL_NR then Inr (None, s)
      else bindR (run_syscall fl junk fmt (syscall_table ! unat x8) x0 x1 x2 (enable_irq s)) (\<lambda>(r, s).
        Inr (Some r, case r of Returns _ \<Rightarrow> disable_irq s | Switched _ \<Rightarrow> s)))"

section \<open>What system calls do\<close>

lemma below_table: "k < SYSCALL_NR \<Longrightarrow> \<not> (of_nat SYSCALL_NR \<le> (of_nat k :: u64)) \<and> unat (of_nat k :: u64) = k"
  by (simp add: SYSCALL_NR_def word_le_nat_alt unat_of_nat)

lemma el0_svc_entry:
  assumes "k < SYSCALL_NR"
  shows "el0_svc fl junk fmt (of_nat k) x0 x1 x2 s =
    bindR (run_syscall fl junk fmt (syscall_table ! k) x0 x1 x2 (enable_irq s)) (\<lambda>(r, s).
      Inr (Some r, case r of Returns _ \<Rightarrow> disable_irq s | Switched _ \<Rightarrow> s))"
  using below_table [OF assms] by (simp add: el0_svc_def)

text \<open>A switch from \<^verbatim>\<open>schedule\<close> to a runnable task: the caller is not resumed.\<close>

lemma switch_to_leaves:
  assumes "tasks s (get_current s) = Some t" and q: "q \<noteq> get_current s" "q \<noteq> NULL" "tasks s q = Some u" "state u = TASK_RUNNING"
    and "mm u = NULL \<or> mms s (mm u) \<noteq> None"
    and f: "ctx_pc (cpu_context u) = ret_from_fork s \<or> parked_task (switch_ret s) q (frames s q) u"
  shows "\<exists>r s'. switch_to In_schedule q s = Inr (r, s') \<and> r \<noteq> Some In_schedule \<and> cregs s' = cpu_context u \<and>
    map_option state (tasks s' (get_current s)) = Some (state t)"
proof -
  let ?p = "get_current s"
  obtain v where v: "mm_at (mm u) s = Inr v" using mm_at_ok assms(6) by blast
  let ?w = "switched In_schedule ?p t u v s"
  have sw: "switch_to In_schedule q s = (if ctx_pc (cpu_context u) = ret_from_fork s then Inr (None, ?w)
      else bindR (preempt_enable ?w) (\<lambda>s. Inr (frames s (get_current s), s)))"
    using switch_to_go [OF assms(1) q v] by (simp add: Let_def)
  have w: "tasks ?w = (tasks s)(?p \<mapsto> t\<lparr>preempt_count := preempt_count t + 1, cpu_context := (cregs s)\<lparr>ctx_pc := switch_ret s\<rparr>\<rparr>)"
      "cregs ?w = cpu_context u" "frames ?w = (frames s)(?p \<mapsto> In_schedule)"
    by (simp_all add: switched_def)
  show ?thesis
  proof (cases "ctx_pc (cpu_context u) = ret_from_fork s")
    case True
    then show ?thesis using sw w by simp
  next
    case False
    then have pk: "parked_task (switch_ret s) q (frames s q) u" using f by simp
    then have g: "get_current ?w = q" using w(2) by (simp add: get_current_def parked_task_def)
    let ?x = "?w\<lparr>tasks := (tasks ?w)(q \<mapsto> u\<lparr>preempt_count := preempt_count u - 1\<rparr>)\<rparr>"
    have "preempt_enable ?w = Inr ?x" using g w(1) q by (simp add: preempt_enable_def with_task_def)
    moreover have "frames ?x (get_current ?x) = Some In_scheduler_tick" "cregs ?x = cpu_context u"
        "map_option state (tasks ?x ?p) = Some (state t)"
      using pk g q(1) not_sym [OF q(1)] w by (simp_all add: parked_task_def get_current_def)
    ultimately show ?thesis using False sw by (intro exI [of _ "Some In_scheduler_tick"] exI [of _ ?x]) simp
  qed
qed

text \<open>The two notions of a string in memory agree.\<close>

lemma tstr_pstr: "tstr (\<lambda>a. byte_addr a s) (out_of s) p xs \<longleftrightarrow> pstr s p xs"
  by (induction xs arbitrary: p) (simp_all add: read_char_def get_byte_def out_of_def)

text \<open>\<^verbatim>\<open>sys_put\<close> sends exactly the bytes of the user's string to the UART, in order, leaves the memory as it
  was and returns the length of the string.\<close>

theorem sys_put_prints:
  assumes "pstr s fmt [ch CHR ''%'', ch CHR ''s'']" "pstr s x0 xs" "length xs < 2 ^ 31"
  shows "el0_svc fl junk fmt (of_nat SYS_PUT) x0 x1 x2 s =
    Inr (Some (Returns (int (length xs))), disable_irq ((enable_irq s)\<lparr>console := console s @ xs\<rparr>))"
proof -
  let ?e = "enable_irq s"
  have "byte_addr a ?e = byte_addr a s" for a by (simp add: byte_addr_def enable_irq_def msr_DAIFClr_def)
  then have o: "out_of ?e = out_of s" "(\<lambda>a. byte_addr a ?e) = (\<lambda>a. byte_addr a s)" "mem ?e = mem s" "console ?e = console s"
    by (simp_all add: out_of_def enable_irq_def msr_DAIFClr_def)
  have "printf (\<lambda>a. byte_addr a s) fmt [x0] (out_of s) = Inr (int (length xs), (out_of s)\<lparr>uart := uart (out_of s) @ xs\<rparr>)"
    using assms by (intro printf_string) (simp_all only: tstr_pstr)
  then have "do_put fmt x0 ?e = Inr (Returns (int (length xs)), ?e\<lparr>mem := mem ?e, console := console s @ xs\<rparr>)"
    by (simp add: do_put_def o(1,2)) (simp add: out_of_def o(3))
  moreover have "SYS_PUT < SYSCALL_NR" "syscall_table ! SYS_PUT = sys_put"
    by (simp_all add: SYS_PUT_def SYSCALL_NR_def syscall_table_def)
  ultimately show ?thesis
    by (simp add: el0_svc_entry run_syscall_def enable_irq_def msr_DAIFClr_def)
qed

lemma sys_put_prints_witness:
  "\<exists>s'. el0_svc sim_flash \<lparr>pgd = NULL, vma = [], pgtbl_page = []\<rparr> 0xffff000000098000 (of_nat SYS_PUT) 0xffff000000099000 0 0
       (boot_fs\<lparr>mem := put_chars 0xffff000000098000 [37, 115] (put_chars 0xffff000000099000 [79, 75] (\<lambda>_. 0))\<rparr>) =
     Inr (Some (Returns 2), s') \<and> console s' = [79, 75]"
  using sys_put_prints [of "boot_fs\<lparr>mem := put_chars 0xffff000000098000 [37, 115] (put_chars 0xffff000000099000 [79, 75] (\<lambda>_. 0))\<rparr>"
      "0xffff000000098000" "0xffff000000099000" "[79, 75]"]
  by (simp add: get_byte_def byte_addr_def KERNEL_VA_START_def put_chars_def enable_irq_def disable_irq_def msr_DAIFClr_def
      msr_DAIFSet_def boot_fs_fields)

text \<open>The numbers of \<^verbatim>\<open>syscall.h\<close> and the order of \<^verbatim>\<open>syscall_table\<close> agree up to \<^verbatim>\<open>SYS_WRITE\<close> only: a program
  that asks to close a file moves its position, one that asks to seek starts a program, and a
  number above the table never returns to the caller.\<close>

theorem syscall_dispatch:
  "el0_svc fl junk fmt (of_nat SYS_OPEN) x0 x1 x2 s =
     bindR (do_open fl x0 (to_int x1) (to_int x2) (enable_irq s)) (\<lambda>(v, s). Inr (Some (Returns v), disable_irq s)) \<and>
   el0_svc fl junk fmt (of_nat SYS_READ) x0 x1 x2 s =
     bindR (do_read fl (to_int x0) x1 (to_int x2) (enable_irq s)) (\<lambda>(v, s). Inr (Some (Returns v), disable_irq s)) \<and>
   el0_svc fl junk fmt (of_nat SYS_WRITE) x0 x1 x2 s =
     bindR (do_write fl (to_int x0) x1 (to_int x2) (enable_irq s)) (\<lambda>(v, s). Inr (Some (Returns v), disable_irq s)) \<and>
   el0_svc fl junk fmt (of_nat SYS_CLOSE) x0 x1 x2 s =
     bindR (do_lseek (to_int x0) (to_int x1) (to_int x2) (enable_irq s)) (\<lambda>(v, s). Inr (Some (Returns v), disable_irq s)) \<and>
   el0_svc fl junk fmt (of_nat SYS_LSEEK) x0 x1 x2 s =
     bindR (do_execv fl junk x0 (enable_irq s)) (\<lambda>(v, s). Inr (Some (Returns v), disable_irq s)) \<and>
   el0_svc fl junk fmt (of_nat SYSCALL_NR) x0 x1 x2 s = Inr (None, s)"
proof -
  have n: "SYS_OPEN < SYSCALL_NR" "SYS_READ < SYSCALL_NR" "SYS_WRITE < SYSCALL_NR" "SYS_CLOSE < SYSCALL_NR" "SYS_LSEEK < SYSCALL_NR"
    by (simp_all add: SYS_OPEN_def SYS_READ_def SYS_WRITE_def SYS_CLOSE_def SYS_LSEEK_def SYSCALL_NR_def)
  have t: "syscall_table ! SYS_OPEN = sys_open" "syscall_table ! SYS_READ = sys_read" "syscall_table ! SYS_WRITE = sys_write"
      "syscall_table ! SYS_CLOSE = sys_lseek" "syscall_table ! SYS_LSEEK = sys_execv"
    by (simp_all add: syscall_table_def SYS_OPEN_def SYS_READ_def SYS_WRITE_def SYS_CLOSE_def SYS_LSEEK_def)
  show ?thesis
    unfolding el0_svc_entry [OF n(1)] el0_svc_entry [OF n(2)] el0_svc_entry [OF n(3)] el0_svc_entry [OF n(4)] el0_svc_entry [OF n(5)] t
    by (simp add: run_syscall_def plain_def bindR_assoc case_prod_unfold el0_svc_def)
qed

text \<open>C25: \<^verbatim>\<open>sys_exit\<close> marks the task a zombie and hands the processor to the next task of the queue when that
  task is runnable. When it is not, or there is no other task, the call returns and the zombie runs on.\<close>

theorem sys_exit_outcome:
  assumes "sched_inv s ps" "i < length ps" "ps ! i = running s" "q = ps ! (Suc i mod length ps)" "tasks s q = Some u"
  shows "\<exists>r s'. do_exit (kernel_entry s) = Inr (r, s') \<and> map_option state (tasks s' (running s)) = Some TASK_ZOMBIE \<and>
    (if q \<noteq> running s \<and> state u = TASK_RUNNING then (\<exists>p. r = Switched p) \<and> cregs s' = cpu_context u
     else r = Returns 0 \<and> get_current s' = running s)"
proof -
  let ?p = "running s"
  obtain t where t: "tasks s ?p = Some t" "preempt_count t = 0"
    using assms(1) sched_inv_task [of s ps ?p] by (auto simp: sched_inv_def)
  let ?t = "t\<lparr>state := TASK_ZOMBIE\<rparr>"
  let ?z = "(kernel_entry s)\<lparr>tasks := (tasks s)(?p \<mapsto> ?t)\<rparr>"
  let ?e = "?z\<lparr>next_task := q\<rparr>"
  have c: "get_current ?z = ?p" "get_current ?e = ?p" using kernel_entry_fields(3) [of s] by (simp_all add: get_current_def)
  have n: "nxt (lists ?z) (get_current ?z + list_off) = Some (q + list_off)"
    using sched_inv_successor [OF assms(1,2)] assms(3,4) c(1) by simp
  have sc: "schedule ?z = bindR (switch_to In_schedule q ?e) (\<lambda>r. Inr (after_switch r))"
    using t c(1) select_next_task_eq [of ?z ?t q] n by (simp add: schedule_def)
  have ex: "do_exit (kernel_entry s) = bindR (schedule ?z) (\<lambda>(r, s').
      Inr (if r = Some In_schedule \<and> get_current s' = ?p then Returns 0 else Switched r, s'))"
    using t by (simp add: do_exit_def with_task_def Let_def)
  show ?thesis
  proof (cases "q \<noteq> ?p \<and> state u = TASK_RUNNING")
    case False
    then have "switch_to In_schedule q ?e = Inr (Some In_schedule, ?e)"
      using assms(5) c(2) by (intro switch_to_stay [of _ ?t]) auto
    then show ?thesis using False sc ex c(2) by (simp add: after_switch_def)
  next
    case True
    have "Suc i mod length ps < length ps" using assms(2) by (intro mod_less_divisor) linarith
    then have qin: "q \<in> set ps" using assms(4) by simp
    then have q0: "q \<noteq> NULL" using assms(1) by (auto simp: sched_inv_def)
    have u: "mm u = NULL \<or> mms s (mm u) \<noteq> None" "fresh_task (ret_from_fork s) q u \<or> parked_task (switch_ret s) q (frames s q) u"
      using sched_inv_task [OF assms(1) qin] assms(5) True by (metis option.inject)+
    then have "ctx_pc (cpu_context u) = ret_from_fork ?e \<or> parked_task (switch_ret ?e) q (frames ?e q) u"
      by (auto simp: fresh_task_def kernel_entry_def)
    then obtain r s' where "switch_to In_schedule q ?e = Inr (r, s')" "r \<noteq> Some In_schedule" "cregs s' = cpu_context u"
        "map_option state (tasks s' ?p) = Some TASK_ZOMBIE"
      using switch_to_leaves [of ?e ?t q u] True q0 u(1) assms(5) c(2) by (auto simp: kernel_entry_def)
    then show ?thesis
      using True sc ex by (auto simp: after_switch_def disable_irq_def msr_DAIFSet_def)
  qed
qed

theorem sys_exit_outcome_witness:
  "\<exists>s'. do_exit (kernel_entry boot_fs) = Inr (Returns 0, s') \<and> get_current s' = 0xffff000000091000 \<and>
     map_option state (tasks s' 0xffff000000091000) = Some TASK_ZOMBIE"
  using sys_exit_outcome [OF boot_fs_sched, of 0 "0xffff000000091000" "zero_task\<lparr>state := TASK_RUNNING, canary := CANARY_MAGIC_NUM\<rparr>"]
  by (auto simp: boot_fs_tasks boot_task_fields)

end
