(* ===== verification/Kernel_Run.thy ===== *)
theory Kernel_Run
  imports Irq Syscall
begin

text \<open>
  The kernel as a transition system: timer interrupts, system calls, the creation of kernel
  threads and the page allocator, in any order. An invariant over the task queue, the pages and
  the descriptors holds in every state that is reached, and in every such state the processor
  can take the next timer interrupt and the running task can exit.
\<close>

section \<open>Steps\<close>

text \<open>The vector entry of a system call, and the way out: to the caller, or to the task that runs now.\<close>

definition svc ::
  "'f flash_bus \<Rightarrow> mm_struct \<Rightarrow> u64 \<Rightarrow> u64 \<Rightarrow> u64 \<Rightarrow> u64 \<Rightarrow> u64 \<Rightarrow> ('f, 'a) fs_state_scheme \<Rightarrow> ('f, 'a) fs_state_scheme res" where
  "svc fl junk fmt x8 x0 x1 x2 s =
     bindR (el0_svc fl junk fmt x8 x0 x1 x2 (kernel_entry s)) (\<lambda>(r, s).
     Inr (case r of
            None \<Rightarrow> s
          | Some (Returns _) \<Rightarrow> kernel_exit s
          | Some (Switched p) \<Rightarrow> leave (p, s)))"

text \<open>The system calls that do not reach the disk.\<close>

definition diskless :: "nat set" where
  "diskless = {SYS_PUT, SYS_FORK, SYS_MALLOC, SYS_EXIT, SYS_CLOSE}"

inductive kernel_step :: "'f flash_bus \<Rightarrow> mm_struct \<Rightarrow> u64 \<Rightarrow> ('f, 'a) fs_state_scheme \<Rightarrow> ('f, 'a) fs_state_scheme \<Rightarrow> bool"
  for fl junk fmt where
  timer: "tick s = Inr s' \<Longrightarrow> kernel_step fl junk fmt s s'"
| call: "k \<in> diskless \<Longrightarrow> svc fl junk fmt (of_nat k) x0 x1 x2 s = Inr s' \<Longrightarrow> kernel_step fl junk fmt s s'"
| thread: "get_current s = running s \<Longrightarrow> main \<noteq> 0 \<Longrightarrow> kthread_create main s = Inr s' \<Longrightarrow> kernel_step fl junk fmt s s'"
| page: "get_free_page GFP_KERNEL s = Inr (p, s') \<Longrightarrow> kernel_step fl junk fmt s s'"
| release: "p \<in> used_pages s \<Longrightarrow> tasks s p = None \<Longrightarrow> free_page p s = Inr s' \<Longrightarrow> kernel_step fl junk fmt s s'"

inductive_cases kernel_stepE: "kernel_step fl junk fmt s s'"

section \<open>The invariant\<close>

definition kernel_inv :: "'a task_state_scheme \<Rightarrow> bool" where
  "kernel_inv s \<longleftrightarrow> mm_inv s \<and> (\<exists>ps. sched_inv s ps \<and> ring_pages s ps)"

lemma tick_pages: "tick s = Inr s' \<Longrightarrow> mem_map s' = mem_map s"
  by (drule tick_devices) (simp add: devices_def)

lemma kernel_inv_tick:
  assumes "kernel_inv s" "tick s = Inr s'"
  shows "kernel_inv s'"
proof -
  obtain ps where "sched_inv s ps" "ring_pages s ps" "mm_inv s" using assms(1) by (auto simp: kernel_inv_def)
  then show ?thesis
    using tick_keeps [of s ps] tick_pages [OF assms(2)] assms(2)
    by (auto simp: kernel_inv_def mm_inv_def ring_pages_def used_pages_def)
qed

lemma sched_inv_cong:
  assumes "lists s' = lists s" "tasks s' = tasks s" "mms s' = mms s" "init_task s' = init_task s" "cregs s' = cregs s"
    "frames s' = frames s" "ret_from_fork s' = ret_from_fork s" "switch_ret s' = switch_ret s"
  shows "sched_inv s' ps = sched_inv s ps"
  by (simp add: sched_inv_def running_def assms)

lemma kernel_inv_thread:
  assumes "kernel_inv s" "get_current s = running s" "main \<noteq> 0" "kthread_create main s = Inr s'"
  shows "kernel_inv s'"
proof -
  obtain ps where I: "sched_inv s ps" "ring_pages s ps" "mm_inv s" using assms(1) by (auto simp: kernel_inv_def)
  have "used_pages s \<noteq> page_pool"
  proof
    assume "used_pages s = page_pool"
    then have "get_free_page GFP_KERNEL x = Inl Null_deref" if "preempt_disable s = Inr x" for x
      using that pg.get_full [of x] by (auto simp: preempt_disable_def with_task_def bindR_eq_Inr used_pages_def)
    then show False using assms(4) by (auto simp: kthread_create_def bindR_eq_Inr)
  qed
  from kthread_create_ok [OF I this assms(2,3)] show ?thesis using assms(4) by (auto simp: kernel_inv_def)
qed

lemma kernel_inv_pages:
  assumes "kernel_inv s" "mm_inv s'" "used_pages s - {p} \<subseteq> used_pages s'" "km_state.more s' = km_state.more s"
    and "tasks s p = None \<or> p \<in> used_pages s'"
  shows "kernel_inv s'"
proof -
  obtain ps where I: "sched_inv s ps" "ring_pages s ps" using assms(1) by (auto simp: kernel_inv_def)
  have "sched_inv s' ps" using I(1) sched_inv_cong [of s' s] task_more_fields [OF assms(4)] by blast
  moreover have "tasks s q \<noteq> None" if "q \<in> set ps" for q using sched_inv_task [OF I(1) that] by auto
  then have "ring_pages s' ps" using I(2) assms(3,5) by (fastforce simp: ring_pages_def)
  ultimately show ?thesis using assms(2) by (auto simp: kernel_inv_def)
qed

section \<open>System calls\<close>

text \<open>An invariant of the task queue and the pages, for states that differ from \<open>s\<close> elsewhere only.\<close>

lemma kernel_inv_devices:
  assumes "kernel_inv s" "devices s' = devices (s :: ('f, 'a) fs_state_scheme)" "\<And>ps. sched_inv s ps \<Longrightarrow> sched_inv s' ps"
  shows "kernel_inv s'"
  using assms by (auto simp: kernel_inv_def devices_def mm_inv_def ring_pages_def used_pages_def)

lemma exit_run:
  assumes I: "sched_inv s ps"
  shows "\<exists>s'. svc fl junk fmt (of_nat SYS_EXIT) x0 x1 x2 s = Inr s' \<and> sched_inv s' ps \<and> mem_map s' = mem_map s"
proof -
  let ?p = "running s"
  obtain i where i: "i < length ps" "ps ! i = ?p" using I by (auto simp: sched_inv_def in_set_conv_nth)
  define q where "q = ps ! (Suc i mod length ps)"
  have "Suc i mod length ps < length ps" using i(1) by (intro mod_less_divisor) linarith
  then have qin: "q \<in> set ps" by (simp add: q_def)
  obtain t where t: "tasks s ?p = Some t" "preempt_count t = 0" "mm t = NULL \<or> mms s (mm t) \<noteq> None"
    using I sched_inv_task [of s ps ?p] by (auto simp: sched_inv_def)
  let ?t = "t\<lparr>state := TASK_ZOMBIE\<rparr>"
  let ?s = "s\<lparr>tasks := (tasks s)(?p \<mapsto> ?t)\<rparr>"
  let ?z = "(enable_irq (kernel_entry s))\<lparr>tasks := (tasks s)(?p \<mapsto> ?t)\<rparr>"
  let ?e = "?z\<lparr>next_task := q\<rparr>"
  have z: "state ?t \<noteq> TASK_RUNNING" by (simp add: task_state_defs)
  have J: "sched_inv ?s ps" by (rule sched_inv_state [OF I t(1), where u = ?t]) (use t z in simp_all)
  obtain u where u: "tasks ?s q = Some u" using sched_inv_task [OF J qin] by blast
  have r: "running ?s = ?p" "get_current ?e = ?p" "get_current ?z = ?p" "get_current (enable_irq (kernel_entry s)) = ?p"
    by (simp_all add: running_def get_current_def kernel_entry_def enable_irq_def msr_DAIFClr_def)
  have e: "tasks ?e = tasks ?s" "mms ?e = mms ?s" "frames ?e = frames ?s" "lists ?e = lists ?s" "init_task ?e = init_task ?s"
      "ret_from_fork ?e = ret_from_fork ?s" "switch_ret ?e = switch_ret ?s" "mem_map ?e = mem_map s"
    by (simp_all add: kernel_entry_def enable_irq_def msr_DAIFClr_def)
  have n: "nxt (lists ?z) (get_current ?z + list_off) = Some (q + list_off)"
    using sched_inv_successor [OF I i(1)] i(2) r(3) by (simp add: q_def kernel_entry_def enable_irq_def msr_DAIFClr_def)
  have sc: "schedule ?z = bindR (switch_to In_schedule q ?e) (\<lambda>r. Inr (after_switch r))"
    using t(2) r(3) select_next_task_eq [of ?z ?t q] n by (simp add: schedule_def)
  have "tasks (enable_irq (kernel_entry s)) = tasks s" by (simp add: enable_irq_def msr_DAIFClr_def)
  then have "do_exit (enable_irq (kernel_entry s)) = bindR (schedule ?z) (\<lambda>(r, s').
      Inr (if r = Some In_schedule \<and> get_current s' = ?p then Returns 0 else Switched r, s'))"
    using t(1) r(4) by (simp add: do_exit_def with_task_def Let_def)
  moreover have "SYS_EXIT < SYSCALL_NR" "syscall_table ! SYS_EXIT = sys_exit"
    by (simp_all add: SYS_EXIT_def SYSCALL_NR_def syscall_table_def)
  ultimately have ex: "svc fl junk fmt (of_nat SYS_EXIT) x0 x1 x2 s = bindR (switch_to In_schedule q ?e) (\<lambda>x.
      let (r, s') = after_switch x in
      Inr (if r = Some In_schedule \<and> get_current s' = ?p then kernel_exit (disable_irq s') else leave (r, s')))"
    using sc by (cases "switch_to In_schedule q ?e") (auto simp: svc_def el0_svc_entry run_syscall_def case_prod_unfold Let_def)
  show ?thesis
  proof (cases "q = ?p \<or> state u \<noteq> TASK_RUNNING")
    case True
    then have "switch_to In_schedule q ?e = Inr (Some In_schedule, ?e)"
      using u r by (intro switch_to_stay [of _ ?t]) auto
    then have "svc fl junk fmt (of_nat SYS_EXIT) x0 x1 x2 s = Inr (kernel_exit (disable_irq ?e))"
      using ex r(2) by (simp add: after_switch_def)
    moreover have "sched_inv (kernel_exit (disable_irq ?e)) ps = sched_inv ?s ps"
      by (rule sched_inv_cong) (simp_all add: kernel_exit_def kernel_entry_def disable_irq_def enable_irq_def msr_DAIFClr_def msr_DAIFSet_def)
    moreover have "mem_map (kernel_exit (disable_irq ?e)) = mem_map s"
      by (simp add: kernel_exit_def kernel_entry_def disable_irq_def enable_irq_def msr_DAIFClr_def msr_DAIFSet_def)
    ultimately show ?thesis using J by simp
  next
    case False
    obtain x s1 where x: "switch_to In_schedule q ?e = Inr (x, s1)" "x \<noteq> Some In_schedule" "sched_inv (leave (after_switch (x, s1))) ps"
      using switch_leaves [OF J _ _ qin _ u, of ?t In_schedule ?e] False z r e by auto
    have "devices (leave (after_switch (x, s1))) = devices ?e"
      using switch_devices [OF x(1)] by (simp add: leave_def after_switch_def split: option.splits)
    then have "mem_map (leave (after_switch (x, s1))) = mem_map s" using e(8) by (simp add: devices_def)
    then show ?thesis using ex x by (auto simp: after_switch_def split: if_splits)
  qed
qed

lemma sched_inv_irq [simp]: "sched_inv (enable_irq s) ps = sched_inv s ps" "sched_inv (disable_irq s) ps = sched_inv s ps"
  by (simp_all add: enable_irq_def disable_irq_def msr_DAIFClr_def msr_DAIFSet_def sched_inv_def running_def)

text \<open>What a call that returns leaves as it was.\<close>

definition quiet :: "'a task_state_scheme \<Rightarrow> 'a task_state_scheme \<Rightarrow> bool" where
  "quiet s z \<longleftrightarrow> lists z = lists s \<and> tasks z = tasks s \<and> mms z = mms s \<and> init_task z = init_task s \<and> cregs z = cregs s \<and>
     frames z = frames s \<and> ret_from_fork z = ret_from_fork s \<and> switch_ret z = switch_ret s \<and> mem_map z = mem_map s"

lemma call_returns:
  assumes "k < SYSCALL_NR" "svc fl junk fmt (of_nat k) x0 x1 x2 s = Inr s'"
    and r: "\<And>r z. run_syscall fl junk fmt (syscall_table ! k) x0 x1 x2 (enable_irq (kernel_entry s)) = Inr (r, z) \<Longrightarrow>
      (\<exists>v. r = Returns v) \<and> quiet (enable_irq (kernel_entry s)) z"
  shows "sched_inv s' ps = sched_inv s ps \<and> mem_map s' = mem_map s"
proof -
  obtain z where z: "s' = kernel_exit (disable_irq z)" "quiet (enable_irq (kernel_entry s)) z"
    using assms(2) r unfolding svc_def el0_svc_entry [OF assms(1)] by (fastforce simp: bindR_eq_Inr)
  have "sched_inv s' ps = sched_inv s ps"
    by (rule sched_inv_cong) (use z in \<open>simp_all add: quiet_def kernel_exit_def kernel_entry_def disable_irq_def enable_irq_def
        msr_DAIFClr_def msr_DAIFSet_def\<close>)
  then show ?thesis using z
    by (simp add: quiet_def kernel_exit_def kernel_entry_def disable_irq_def enable_irq_def msr_DAIFClr_def msr_DAIFSet_def)
qed

lemma do_put_quiet: "do_put fmt x0 s = Inr (r, z) \<Longrightarrow> (\<exists>v. r = Returns v) \<and> quiet s z"
  by (auto simp: do_put_def bindR_eq_Inr quiet_def)

lemma quiet_refl: "quiet s s"
  by (simp add: quiet_def)

lemma guarded_result:
  "(let p = e in if A p then Inl x else if B p then Inr (w, s) else f p) = Inr (v, z) \<Longrightarrow> z = s \<or> f e = Inr (v, z)"
  by (auto simp: Let_def split: if_splits)

lemma file_lseek_quiet: "file_lseek f offset whence s = Inr (v, z) \<Longrightarrow> quiet s z"
  unfolding file_lseek_def bindR_eq_Inr
  by (elim exE conjE, drule guarded_result) (auto simp: with_file_def bindR_eq_Inr quiet_def)

lemma do_lseek_quiet: "do_lseek fd offset whence s = Inr (v, z) \<Longrightarrow> quiet s z"
  by (auto simp: do_lseek_def bindR_eq_Inr Let_def quiet_refl split: if_splits dest: file_lseek_quiet)

lemma diskless_keeps:
  assumes "sched_inv s ps" "k \<in> diskless" "svc fl junk fmt (of_nat k) x0 x1 x2 s = Inr s'"
  shows "sched_inv s' ps \<and> mem_map s' = mem_map s"
proof (cases "k = SYS_EXIT")
  case True
  then show ?thesis using exit_run [OF assms(1), of fl junk fmt x0 x1 x2] assms(3) by simp
next
  case False
  have k: "k < SYSCALL_NR" using assms(2)
    by (auto simp: diskless_def SYS_PUT_def SYS_FORK_def SYS_MALLOC_def SYS_EXIT_def SYS_CLOSE_def SYSCALL_NR_def)
  have tab: "syscall_table ! SYS_PUT = sys_put" "syscall_table ! SYS_FORK = sys_fork" "syscall_table ! SYS_MALLOC = sys_malloc"
      "syscall_table ! SYS_CLOSE = sys_lseek"
    by (simp_all add: SYS_PUT_def SYS_FORK_def SYS_MALLOC_def SYS_CLOSE_def syscall_table_def)
  have "(\<exists>v. r = Returns v) \<and> quiet x z"
    if run: "run_syscall fl junk fmt (syscall_table ! k) x0 x1 x2 x = Inr (r, z)" for r z x
  proof -
    consider "k = SYS_PUT" | "k = SYS_CLOSE" | "k \<in> {SYS_FORK, SYS_MALLOC}" using assms(2) False by (auto simp: diskless_def)
    then show ?thesis
    proof cases
      case 1
      then show ?thesis using run do_put_quiet by (simp add: tab run_syscall_def)
    next
      case 2
      then show ?thesis using run do_lseek_quiet by (auto simp: tab run_syscall_def plain_def bindR_eq_Inr)
    next
      case 3
      then show ?thesis using run by (auto simp: tab run_syscall_def quiet_def)
    qed
  qed
  then show ?thesis using call_returns [OF k assms(3)] assms(1) by blast
qed

section \<open>Reachable states\<close>

lemma kernel_step_inv: "kernel_step fl junk fmt s s' \<Longrightarrow> kernel_inv s \<Longrightarrow> kernel_inv s'"
proof (induction rule: kernel_step.induct)
  case (timer s s')
  then show ?case using kernel_inv_tick by blast
next
  case (call k x0 x1 x2 s s')
  then show ?case using diskless_keeps
    by (fastforce simp: kernel_inv_def mm_inv_def ring_pages_def used_pages_def)
next
  case (thread s main s')
  then show ?case using kernel_inv_thread by blast
next
  case (page s p s')
  have m: "mm_inv s" using page(2) by (simp add: kernel_inv_def)
  show ?case
    by (rule kernel_inv_pages [OF page(2) pg.get_Inr(1) [OF m page(1)], of p])
      (use pg.get_Inr(3) [OF m page(1)] get_free_page_more [OF page(1)] in auto)
next
  case (release p s s')
  have m: "mm_inv s" using release(4) by (simp add: kernel_inv_def)
  then have "mm_inv s'" "used_pages s' = used_pages s - {p}" using pg.put_law [OF m release(1)] release(3) by auto
  then show ?case using kernel_inv_pages [OF release(4), of s' p] free_page_more [OF release(3)] release(2) by blast
qed

text \<open>C2: The invariant of the kernel holds in every state that timer interrupts, system calls that do not reach
  the disk, new kernel threads and the page allocator lead to, in any order; and in each such
  state neither the next timer interrupt nor the exit of the running task can fault.\<close>

theorem kernel_runs:
  assumes "kernel_inv s" "(kernel_step fl junk fmt)\<^sup>*\<^sup>* s s'"
  shows "kernel_inv s' \<and> (\<exists>s''. tick s' = Inr s'' \<and> kernel_inv s'') \<and>
    (\<exists>s''. svc fl junk fmt (of_nat SYS_EXIT) x0 x1 x2 s' = Inr s'' \<and> kernel_inv s'')"
proof -
  have I: "kernel_inv s'" using assms(2,1) by (induction rule: rtranclp_induct) (auto intro: kernel_step_inv)
  then obtain ps where ps: "sched_inv s' ps" by (auto simp: kernel_inv_def)
  obtain a where "tick s' = Inr a" using tick_keeps [OF ps] by blast
  moreover obtain b where "svc fl junk fmt (of_nat SYS_EXIT) x0 x1 x2 s' = Inr b" using exit_run [OF ps] by blast
  ultimately show ?thesis using I kernel_step_inv [OF kernel_step.timer] kernel_step_inv [OF kernel_step.call]
    by (metis diskless_def insertCI)
qed

lemma kernel_runs_witness:
  "\<exists>s'. tick boot_fs = Inr s' \<and> (\<exists>s''. svc sim_flash \<lparr>pgd = NULL, vma = [], pgtbl_page = []\<rparr> NULL (of_nat SYS_EXIT) 0 0 0 s' = Inr s'' \<and> kernel_inv s'')"
proof -
  have "ring_pages boot_fs [0xffff000000091000]" "mm_inv boot_fs"
    using boot_ring_pages boot_task_mm(1)
    by (simp_all add: mm_inv_def ring_pages_def used_pages_def boot_fs_def task_state.defs fs_state.defs)
  then have I: "kernel_inv boot_fs" using boot_fs_sched by (auto simp: kernel_inv_def)
  obtain s' where s': "tick boot_fs = Inr s'" using tick_keeps [OF boot_fs_sched] by blast
  have "(kernel_step sim_flash \<lparr>pgd = NULL, vma = [], pgtbl_page = []\<rparr> NULL)\<^sup>*\<^sup>* boot_fs s'"
    using kernel_step.timer [OF s'] by blast
  from kernel_runs [OF I this] s' show ?thesis by blast
qed

end
