(* ===== verification/Exceptions.thy ===== *)
theory Exceptions
  imports Kernel_Run
begin

text \<open>
  The vector table of \<^verbatim>\<open>arch/vector.S\<close>: which of its sixteen entries handle an exception and which report it and stop, and the
  decision of \<^verbatim>\<open>_lower_el_aarch64_sync\<close> between a system call and a report.
\<close>

section \<open>Definitions\<close>

datatype vector = Report u64 | El1_irq | El0_sync | El0_irq

definition vector_table_el1 :: "vector list" where
  "vector_table_el1 =
     [Report 0, Report 1, Report 2, Report 3,
      Report 4, El1_irq, Report 6, Report 7,
      El0_sync, El0_irq, Report 10, Report 11,
      Report 12, Report 13, Report 14, Report 15]"

text \<open>The registers of the interrupted program that the code looks at. \<open>Halts\<close> is the loop at the end of \<^verbatim>\<open>put_exception\<close>.\<close>

record trapped =
  t_elr :: u64
  t_esr :: u64
  t_x8 :: u64
  t_x0 :: u64
  t_x1 :: u64
  t_x2 :: u64

datatype 's after = Continues 's | Halts 's

definition exception_handler_entry ::
  "literals \<Rightarrow> u64 \<Rightarrow> trapped \<Rightarrow> ('f, 'a) fs_state_scheme \<Rightarrow> ('f, 'a) fs_state_scheme after res" where
  "exception_handler_entry lit num t s = bindR (put_exception lit num (t_elr t) (ucast (t_esr t)) s) (\<lambda>s. Inr (Halts s))"

definition el0_sync ::
  "'f flash_bus \<Rightarrow> mm_struct \<Rightarrow> u64 \<Rightarrow> literals \<Rightarrow> trapped \<Rightarrow> ('f, 'a) fs_state_scheme \<Rightarrow> ('f, 'a) fs_state_scheme after res" where
  "el0_sync fl junk fmt lit t s =
     (let s = kernel_entry s;
          x19 = t_esr t;
          x20 = x19 AND ucast ESR_EC_MASK;
          x21 = ucast ESR_EC_SVC
      in if x20 = x21 then
           bindR (el0_svc fl junk fmt (t_x8 t) (t_x0 t) (t_x1 t) (t_x2 t) s) (\<lambda>(r, s).
           case r of
             None \<Rightarrow> exception_handler_entry lit 8 t s
           | Some (Returns _) \<Rightarrow> Inr (Continues (kernel_exit s))
           | Some (Switched p) \<Rightarrow> Inr (Continues (leave (p, s))))
         else exception_handler_entry lit 8 t s)"

definition take_exception ::
  "'f flash_bus \<Rightarrow> 'd gic_bus \<Rightarrow> mm_struct \<Rightarrow> u64 \<Rightarrow> literals \<Rightarrow> nat \<Rightarrow> trapped \<Rightarrow> ('f, 'd, 'a) irq_state_scheme
     \<Rightarrow> ('f, 'd, 'a) irq_state_scheme after res" where
  "take_exception fl bus junk fmt lit n t s =
     (case vector_table_el1 ! n of
        Report num \<Rightarrow> exception_handler_entry lit num t s
      | El1_irq \<Rightarrow> bindR (irq_entry bus lit s) (\<lambda>s. Inr (Continues s))
      | El0_sync \<Rightarrow> el0_sync fl junk fmt lit t s
      | El0_irq \<Rightarrow> bindR (irq_entry bus lit s) (\<lambda>s. Inr (Continues s)))"

section \<open>Which exceptions stop the kernel\<close>

definition svc_class :: "u64 \<Rightarrow> bool" where
  "svc_class esr \<longleftrightarrow> take_bit 6 (drop_bit 26 esr) = 0x15"

definition unexpected :: "nat \<Rightarrow> trapped \<Rightarrow> bool" where
  "unexpected n t \<longleftrightarrow> n \<notin> {5, 8, 9} \<or> n = 8 \<and> (\<not> svc_class (t_esr t) \<or> of_nat SYSCALL_NR \<le> t_x8 t)"

definition exception_report :: "u64 \<Rightarrow> u64 \<Rightarrow> u64 \<Rightarrow> u8 list" where
  "exception_report no lr esr = text_bytes ''enter exception '' @ dec (unat no) @ text_bytes '', entry is 0x'' @
     show_base 0 16 (unat lr mod 2 ^ 32) @ text_bytes '', exception class '' @ show_hash (take_bit 6 (drop_bit 26 esr)) @
     text_bytes '', ISS is '' @ show_hash (take_bit 24 esr) @ text_bytes nl"

definition report_literals :: "literals \<Rightarrow> ('f, 'a) fs_state_scheme \<Rightarrow> bool" where
  "report_literals lit s \<longleftrightarrow> literal lit s ''enter exception %d, entry is 0x%x, '' \<and> literal lit s (''exception class %#x, ISS is %#x'' @ nl)"

lemma class_test: "esr AND ucast ESR_EC_MASK = ucast ESR_EC_SVC \<longleftrightarrow> svc_class esr"
proof -
  have m: "(ucast ESR_EC_MASK :: u64) = push_bit 26 (mask 6)" "(ucast ESR_EC_SVC :: u64) = push_bit 26 0x15"
    by (simp_all add: ESR_EC_MASK_def ESR_EC_SVC_def ESR_EC_SHIFT_def mask_eq_exp_minus_1)
  have e: "esr AND push_bit 26 (mask 6) = push_bit 26 (take_bit 6 (drop_bit 26 esr))" by (rule bit_word_eqI) (auto simp: bit_simps)
  have "drop_bit 26 (push_bit 26 (take_bit 6 w)) = take_bit 6 w" for w :: u64 by (rule bit_word_eqI) (auto simp: bit_simps)
  moreover have "drop_bit 26 (push_bit 26 0x15) = (0x15 :: u64)" by simp
  ultimately have "push_bit 26 (take_bit 6 (drop_bit 26 esr)) = push_bit 26 0x15 \<Longrightarrow> take_bit 6 (drop_bit 26 esr) = 0x15" by metis
  then show ?thesis unfolding m e svc_class_def by auto
qed

lemma report_entry: "report_literals lit (kernel_entry s) = report_literals lit s" for s :: "('f, 'a) fs_state_scheme"
proof -
  have "byte_addr a (kernel_entry s) = byte_addr a s" for a by (simp add: byte_addr_def kernel_entry_def cong: if_cong)
  then show ?thesis by (simp add: report_literals_def literal_def out_of_def kernel_entry_def)
qed

lemma handler_reports:
  assumes "report_literals lit s" "no < 16"
  shows "exception_handler_entry lit no t s = Inr (Halts (s\<lparr>console := console s @ exception_report no (t_elr t) (t_esr t)\<rparr>))"
proof -
  have "take_bit 6 (drop_bit 26 (ucast (ucast (t_esr t) :: u32) :: u64)) = take_bit 6 (drop_bit 26 (t_esr t))"
      "take_bit 24 (ucast (ucast (t_esr t) :: u32) :: u64) = take_bit 24 (t_esr t)"
    by (rule bit_word_eqI, auto simp: bit_simps)+
  then show ?thesis
    using put_exception_report [of lit s no "t_elr t" "ucast (t_esr t)"] assms
    by (simp add: exception_handler_entry_def exception_report_def report_literals_def)
qed

lemma el0_sync_unexpected:
  assumes "unexpected 8 t" "report_literals lit s"
  shows "el0_sync fl junk fmt lit t s = Inr (Halts ((kernel_entry s)\<lparr>console := console s @ exception_report 8 (t_elr t) (t_esr t)\<rparr>))"
proof -
  have "exception_handler_entry lit 8 t (kernel_entry s) =
      Inr (Halts ((kernel_entry s)\<lparr>console := console s @ exception_report 8 (t_elr t) (t_esr t)\<rparr>))"
    using handler_reports [of lit "kernel_entry s" 8 t] assms(2) unfolding report_entry by (simp add: kernel_entry_def)
  then show ?thesis using assms(1) by (simp add: el0_sync_def Let_def class_test unexpected_def el0_svc_def)
qed

lemma el0_sync_halts:
  assumes "el0_sync fl junk fmt lit t s = Inr (Halts s')"
  shows "unexpected 8 t"
proof (rule ccontr)
  assume "\<not> unexpected 8 t"
  then obtain r s1 where "(case r of Returns _ \<Rightarrow> Inr (Continues (kernel_exit s1)) | Switched p \<Rightarrow> Inr (Continues (leave (p, s1)))) = (Inr (Halts s') :: _ after res)"
    using assms by (auto simp: el0_sync_def Let_def class_test unexpected_def el0_svc_def bindR_eq_Inr)
  then show False by (cases r) simp_all
qed

lemma table_reports: "n < 16 \<Longrightarrow> n \<notin> {5, 8, 9} \<Longrightarrow> vector_table_el1 ! n = Report (of_nat n)"
  unfolding vector_table_el1_def by (auto simp: less_Suc_eq numeral_eq_Suc)

lemma table_handles: "vector_table_el1 ! 5 = El1_irq" "vector_table_el1 ! 8 = El0_sync" "vector_table_el1 ! 9 = El0_irq"
  by (simp_all add: vector_table_el1_def)

text \<open>C21: The kernel stops at an exception exactly when it has no handler for it: every entry of the table but the
  interrupts and the synchronous exceptions of programs, and of these all that are no system call or a system call
  with a number above the table. Before it stops it prints the number of the entry, the low half of the address the
  exception came from, its class and its syndrome, of which bit 24 is missing.\<close>

theorem take_exception_reports:
  assumes "report_literals lit s" "n < 16"
  shows "(unexpected n t \<longrightarrow> (\<exists>s'. take_exception fl bus junk fmt lit n t s = Inr (Halts s') \<and>
      console s' = console s @ exception_report (of_nat n) (t_elr t) (t_esr t))) \<and>
    (\<forall>s'. take_exception fl bus junk fmt lit n t s = Inr (Halts s') \<longrightarrow> unexpected n t)"
proof (cases "n \<in> {5, 8, 9}")
  case False
  have "(of_nat n :: u64) < 16" using assms(2) by (simp add: word_less_nat_alt unat_of_nat)
  then show ?thesis using False handler_reports [OF assms(1), of "of_nat n" t]
    by (simp add: take_exception_def table_reports [OF assms(2) False] unexpected_def)
next
  case True
  then show ?thesis using el0_sync_unexpected [OF _ assms(1), of t fl junk fmt] el0_sync_halts [of fl junk fmt lit t s]
    by (auto simp: take_exception_def table_handles bindR_eq_Inr) (auto simp: unexpected_def)
qed

text \<open>A data abort of a program: the table entry is that of system calls, the class is not.\<close>

lemma take_exception_reports_witness:
  "\<exists>s'. take_exception sim_flash pl390 \<lparr>pgd = NULL, vma = [], pgtbl_page = []\<rparr> 0
      (\<lambda>t. if t = ''enter exception %d, entry is 0x%x, '' then 0xffff000000100000 else 0xffff000000100100) 8
      \<lparr>t_elr = 0x400010, t_esr = 0x92000045, t_x8 = 0, t_x0 = 0, t_x1 = 0, t_x2 = 0\<rparr>
      ((with_gic reset_gic boot_task)\<lparr>mem := put_chars 0xffff000000100000 (text_bytes ''enter exception %d, entry is 0x%x, '')
        (put_chars 0xffff000000100100 (text_bytes (''exception class %#x, ISS is %#x'' @ nl)) (\<lambda>_. 0))\<rparr>) = Inr (Halts s') \<and>
    console s' = text_bytes (''enter exception 8, entry is 0x400010, exception class 0x24, ISS is 0x45'' @ nl)"
  (is "\<exists>s'. take_exception _ _ _ _ ?lit 8 ?t ?s = _ \<and> _")
proof -
  have l: "report_literals ?lit ?s"
    by (simp add: report_literals_def literal_def text_bytes_def nl_def read_char_def byte_addr_def KERNEL_VA_START_def out_of_def put_chars_def ch_def)
  have u: "unexpected 8 ?t" by (simp add: unexpected_def svc_class_def)
  obtain s' where "take_exception sim_flash pl390 \<lparr>pgd = NULL, vma = [], pgtbl_page = []\<rparr> 0 ?lit 8 ?t ?s = Inr (Halts s')"
      "console s' = console ?s @ exception_report (of_nat 8) (t_elr ?t) (t_esr ?t)"
    using take_exception_reports [OF l, of 8 ?t sim_flash pl390] u by auto
  moreover have "console ?s = []" by (simp add: with_gic_def boot_fs_def fs_state.defs task_state.defs irq_state.defs)
  ultimately show ?thesis
    by (simp add: exception_report_def text_bytes_def ch_def nl_def dec_def dec_digit_def show_base_def show_hash_def digits_of.simps digit_char_def)
qed

end
