(* ===== verification/File_Read.thy ===== *)
theory File_Read
  imports Vfs
begin

text \<open>
  Reading a file through every layer: \<^verbatim>\<open>file_read\<close> on \<^verbatim>\<open>minix_read\<close>, the buffer cache, the object
  allocator and the flash chip.
\<close>

section \<open>Objects and kernel addresses\<close>

lemma live_kernel:
  assumes "km_inv s" "(x, n) \<in> live s" "in_block x n z"
  shows "KERNEL_VA_START \<le> z"
proof -
  obtain C Fd Fo where "km_rel s C Fd Fo" using assms(1) by (auto simp: km_inv_def)
  then obtain p where "p \<in> page_pool" "in_page p z" using live_block_used assms(2,3) used_pool_page by blast
  then show ?thesis by (auto simp: page_pool_def in_page_unat word_le_nat_alt KERNEL_VA_START_def)
qed

lemma live_nonempty: "km_inv s \<Longrightarrow> (x, n) \<in> live s \<Longrightarrow> in_block x n x"
proof -
  assume a: "km_inv s" "(x, n) \<in> live s"
  then obtain C Fd Fo where R: "km_rel s C Fd Fo" by (auto simp: km_inv_def)
  obtain k where "n = obj_size k" using a(2) live_iff [OF R] by auto
  then show ?thesis using obj_size_bounds(1) [of k] by (simp add: in_block_def)
qed

lemma live_not_null: "km_inv s \<Longrightarrow> (x, n) \<in> live s \<Longrightarrow> x \<noteq> NULL"
  using live_kernel [OF _ _ live_nonempty] by (force simp: KERNEL_VA_START_def)

lemma live_size: "km_inv s \<Longrightarrow> (x, n) \<in> live s \<Longrightarrow> n \<le> 4096"
proof -
  assume a: "km_inv s" "(x, n) \<in> live s"
  then obtain C Fd Fo where R: "km_rel s C Fd Fo" by (auto simp: km_inv_def)
  then show ?thesis using a(2) live_iff [OF R] obj_size_bounds(2) by auto
qed

section \<open>Copying into an object\<close>

definition copied :: "nat \<Rightarrow> u64 \<Rightarrow> u64 \<Rightarrow> memory \<Rightarrow> memory" where
  "copied n dst src m = (\<lambda>x. if unat (x - dst) < n then m (src + (x - dst)) else m x)"

lemma object_byte: "j < n \<Longrightarrow> n \<le> 4096 \<Longrightarrow> in_block x n (x + of_nat j)"
  by (simp add: in_block_def unat_of_nat)

lemma copied_Suc:
  assumes "n < 4096" "\<And>j. j < Suc n \<Longrightarrow> dst \<noteq> src + of_nat j"
  shows "copied n (dst + 1) (src + 1) (m(dst := m src)) = copied (Suc n) dst src m"
proof (rule ext)
  fix x
  have e: "src + 1 + (x - (dst + 1)) = src + (x - dst)" by simp
  have "src + (x - dst) \<noteq> dst" if "unat (x - dst) < Suc n" using assms(2) [of "unat (x - dst)"] that by auto
  then show "copied n (dst + 1) (src + 1) (m(dst := m src)) x = copied (Suc n) dst src m x"
    unfolding copied_def e using in_range_step [of x dst n] assms(1) by auto
qed

lemma copy_out_kernel:
  assumes "n \<le> 4096" "\<And>i. i < n \<Longrightarrow> KERNEL_VA_START \<le> dst + of_nat i"
    and "\<And>i j. i < n \<Longrightarrow> j < n \<Longrightarrow> dst + of_nat i \<noteq> src + of_nat j"
  shows "copy_out n dst src s = Inr (s\<lparr>mem := copied n dst src (mem s)\<rparr>)"
  using assms
proof (induction n arbitrary: dst src s)
  case 0
  then show ?case by (simp add: copied_def)
next
  case (Suc n)
  let ?s = "s\<lparr>mem := (mem s)(dst := mem s src)\<rparr>"
  have d0: "KERNEL_VA_START \<le> dst" using Suc.prems(2) [of 0] by simp
  have "KERNEL_VA_START \<le> dst + 1 + of_nat i" if "i < n" for i using Suc.prems(2) [of "Suc i"] that by (simp add: add.assoc)
  moreover have "dst + 1 + of_nat i \<noteq> src + 1 + of_nat j" if "i < n" "j < n" for i j
    using Suc.prems(3) [of "Suc i" "Suc j"] that by (simp add: add.assoc)
  ultimately have IH: "copy_out n (dst + 1) (src + 1) ?s = Inr (?s\<lparr>mem := copied n (dst + 1) (src + 1) (mem ?s)\<rparr>)"
    using Suc.prems(1) by (intro Suc.IH) simp_all
  have "copied n (dst + 1) (src + 1) (mem ?s) = copied (Suc n) dst src (mem s)"
    using Suc.prems(1) Suc.prems(3) [of 0] by (simp add: copied_Suc)
  then show ?case using IH d0 by (simp add: put_byte_def byte_addr_def)
qed

section \<open>A cache of clean buffers\<close>

text \<open>
  Every buffer of a block in \<open>Z\<close> is clean and of the device \<open>bd\<close>. Nothing is said of the buffers of
  other blocks. For a write there must also be at most one buffer of each block in \<open>Z\<close>. Both hold of the blocks of
  files in the running kernel: \<^verbatim>\<open>get_blk\<close> looks for a buffer before it makes one, and \<^verbatim>\<open>minix_write\<close> releases
  the buffer it made dirty at once.
\<close>

definition cache_clean :: "u64 \<Rightarrow> u64 set \<Rightarrow> ('f, 'a) fs_state_scheme \<Rightarrow> u64 list \<Rightarrow> bool" where
  "cache_clean bd Z s bs \<longleftrightarrow>
     (\<forall>b \<in> set bs. \<forall>h. bhs s b = Some h \<longrightarrow> blk_no h \<in> Z \<longrightarrow> b_state h = BH_Uptodate \<and> b_bd h = bd)"

definition cache_single :: "u64 set \<Rightarrow> ('f, 'a) fs_state_scheme \<Rightarrow> u64 list \<Rightarrow> bool" where
  "cache_single Z s bs \<longleftrightarrow> (\<forall>b \<in> set bs. \<forall>c \<in> set bs.
     blk_no (the (bhs s b)) \<in> Z \<longrightarrow> blk_no (the (bhs s c)) = blk_no (the (bhs s b)) \<longrightarrow> c = b)"

text \<open>The objects of the buffers.\<close>

definition owned :: "('f, 'a) fs_state_scheme \<Rightarrow> u64 list \<Rightarrow> u64 set" where
  "owned s bs = set bs \<union> data_of s ` set bs"

text \<open>The objects that are not buffers.\<close>

definition others :: "('f, 'a) fs_state_scheme \<Rightarrow> u64 list \<Rightarrow> (u64 \<times> nat) set" where
  "others s bs = {p \<in> live s. fst p \<notin> owned s bs}"

lemma cache_clean_remove:
  assumes "cache_clean bd Z s bs" "distinct bs" "\<And>c. c \<in> set bs - {b} \<Longrightarrow> bhs s' c = bhs s c"
  shows "cache_clean bd Z s' (remove1 b bs)" "owned s' (remove1 b bs) \<subseteq> owned s bs"
    "cache_single Z s bs \<Longrightarrow> cache_single Z s' (remove1 b bs)"
proof -
  have e: "c \<in> set bs \<and> bhs s' c = bhs s c" if "c \<in> set (remove1 b bs)" for c using that assms(2,3) by auto
  show "cache_clean bd Z s' (remove1 b bs)" using assms(1) e unfolding cache_clean_def by metis
  show "owned s' (remove1 b bs) \<subseteq> owned s bs"
    using e set_remove1_subset [of b bs] by (auto simp: owned_def data_of_def)
  show "cache_single Z s' (remove1 b bs)" if "cache_single Z s bs"
    unfolding cache_single_def using that e unfolding cache_single_def by metis
qed

lemma cache_inv_write:
  fixes s :: "('f, 'a) fs_state_scheme"
  assumes I: "cache_inv content ready Z s bs" and buf: "(buf, n) \<in> live s" "buf \<notin> data_of s ` set bs"
    and m: "\<And>x. \<not> in_block buf n x \<Longrightarrow> m x = mem s x"
  shows "cache_inv content ready Z (s\<lparr>mem := m\<rparr>) bs" "live (s\<lparr>mem := m\<rparr>) = live s" "free_count (s\<lparr>mem := m\<rparr>) = free_count s"
proof -
  have inv: "km_inv s" and bok: "\<forall>b \<in> set bs. buffer_ok content Z s b" using I by (auto simp: cache_inv_def)
  note lw = live_write [OF inv buf(1) m]
  show "live (s\<lparr>mem := m\<rparr>) = live s" by (rule lw(2))
  show "free_count (s\<lparr>mem := m\<rparr>) = free_count s" by (simp add: free_count_def used_pages_def)
  have "buffer_ok content Z (s\<lparr>mem := m\<rparr>) c" if c: "c \<in> set bs" for c
  proof (rule buffer_ok_frame [of content Z s])
    show "mem (s\<lparr>mem := m\<rparr>) z = mem s z" if "(data_of s c, i) \<in> live s" "in_block (data_of s c) i z" for i z
      using m [of z] km.objs_apart [OF inv that(1) buf(1)] that(2) buf(2) c by auto
  qed (use bok c lw(2) in auto)
  moreover have "data_of (s\<lparr>mem := m\<rparr>) = data_of s" by (simp add: data_of_def fun_eq_iff)
  ultimately show "cache_inv content ready Z (s\<lparr>mem := m\<rparr>) bs" using I lw(1) by (auto simp: cache_inv_def)
qed

text \<open>Byte \<open>q\<close> of a file whose first seven blocks are direct, on a chip with content \<open>f\<close>.\<close>

definition file_byte :: "(u64 \<Rightarrow> u8) \<Rightarrow> inode \<Rightarrow> nat \<Rightarrow> u8" where
  "file_byte f i q = f (PFLASH1_BASE + ucast (i_data i ! (q div 1024)) * BLOCK_SZ + of_nat (q mod 1024))"

text \<open>The seven direct zones of a file.\<close>

definition file_zones :: "inode \<Rightarrow> u64 set" where
  "file_zones i = (\<lambda>b. ucast (i_data i ! b)) ` {..<7}"

lemma file_zones_small: "file_zones i \<subseteq> {..<nr_blocks}"
  using zone_small by (auto simp: file_zones_def)

lemma file_zone_in: "p < 7168 \<Longrightarrow> ucast (i_data i ! (p div 1024)) \<in> file_zones i"
  by (auto simp: file_zones_def less_mult_imp_div_less)

lemma chunk_sizes:
  fixes p l :: nat
  defines "len \<equiv> min (1024 - p mod 1024) l"
  shows "int p smod 1024 = int (p mod 1024)" "min (1024 - int (p mod 1024)) (int l) = int len"
    "len < l \<Longrightarrow> (p + len) div 1024 = Suc (p div 1024)"
    "j < len \<Longrightarrow> (p + j) div 1024 = p div 1024 \<and> (p + j) mod 1024 = p mod 1024 + j"
proof -
  show "int p smod 1024 = int (p mod 1024)" by (simp add: signed_modulo_int_def sgn_if zmod_int)
  have "p mod 1024 < 1024" by simp
  then show "min (1024 - int (p mod 1024)) (int l) = int len" unfolding len_def of_nat_min by (subst of_nat_diff) simp_all
  show "(p + len) div 1024 = Suc (p div 1024)" if "len < l"
  proof -
    have "len = 1024 - p mod 1024" using that by (simp add: len_def)
    then have "p mod 1024 + len = 1024" using \<open>p mod 1024 < 1024\<close> by simp
    moreover have "p + len = p div 1024 * 1024 + (p mod 1024 + len)" by simp
    ultimately show ?thesis by (metis add.commute div_add_self2 div_mult_self_is_m mult.commute zero_less_numeral zero_neq_numeral Suc_eq_plus1)
  qed
  show "(p + j) div 1024 = p div 1024 \<and> (p + j) mod 1024 = p mod 1024 + j" if "j < len"
  proof -
    have "p mod 1024 + j < 1024" using that by (simp add: len_def less_diff_conv add.commute)
    moreover have "p + j = p div 1024 * 1024 + (p mod 1024 + j)" by simp
    ultimately show ?thesis by (metis add.commute div_mult_self3 div_less mod_less mod_mult_self1 add_0 zero_neq_numeral)
  qed
qed

lemma chunk_index:
  assumes "k < 4096" "o' \<le> 4096" "len \<le> 4096"
  shows "unat ((buf + of_nat k) - (buf + of_nat o') :: u64) < len \<longleftrightarrow> o' \<le> k \<and> k < o' + len"
proof -
  have "(buf + of_nat k) - (buf + of_nat o') = (of_nat k - of_nat o' :: u64)" by simp
  moreover have "unat (of_nat k :: u64) = k" "unat (of_nat o' :: u64) = o'" using assms by (simp_all add: unat_of_nat)
  ultimately show ?thesis using assms unat_sub_if' [of "of_nat k :: u64" "of_nat o'"] by auto
qed

lemma copied_bytes:
  assumes "k < 4096" "o' + len \<le> 4096"
  shows "copied len (buf + of_nat o') (of_nat nr + d) m (buf + of_nat k) =
    (if o' \<le> k \<and> k < o' + len then m (d + of_nat (nr + (k - o'))) else m (buf + of_nat k))"
proof -
  have idx: "unat ((buf + of_nat k) - (buf + of_nat o')) < len \<longleftrightarrow> o' \<le> k \<and> k < o' + len"
    using assms by (intro chunk_index) simp_all
  have "of_nat nr + d + ((buf + of_nat k) - (buf + of_nat o')) = d + of_nat (nr + (k - o'))" if "o' \<le> k"
    using that by (simp add: of_nat_diff)
  then show ?thesis unfolding copied_def idx by metis
qed

context flash_device
begin

lemma get_blk_clean:
  fixes s :: "('f, 'a) fs_state_scheme"
  assumes I: "cache_inv content ready Z s bs" and C: "cache_clean bd Z s bs" and bd: "bdevs s bd \<noteq> None" "4 \<le> free_count s"
    and blk: "blk < nr_blocks" "blk \<in> Z"
  shows "\<exists>b s' bs' h. get_blk fl bd blk s = Inr (b, s') \<and> cache_inv content ready Z s' bs' \<and> cache_clean bd Z s' bs' \<and> b \<in> set bs' \<and>
    owned s' bs' \<inter> fst ` live s \<subseteq> owned s bs \<and> (cache_single Z s bs \<longrightarrow> cache_single Z s' bs') \<and>
    content (flash s') = content (flash s) \<and> kept (live s) s s' \<and> free_count s \<le> free_count s' + 4 \<and>
    bhs s' b = Some h \<and> blk_no h = blk \<and> b_state h = BH_Uptodate \<and> holds_block content s' h"
proof (cases "find (matches s bd blk) bs")
  case None
  then have no: "\<And>c. c \<in> set bs \<Longrightarrow> \<not> matches s bd blk c" by (auto simp: find_None_iff)
  obtain b s' h where g: "get_blk fl bd blk s = Inr (b, s')" "cache_inv content ready Z s' (b # bs)"
      "content (flash s') = content (flash s)" "kept (live s) s s'" "free_count s \<le> free_count s' + 4"
      "b \<notin> fst ` live s" "data_of s' b \<notin> fst ` live s" "\<forall>c \<in> set bs. bhs s' c = bhs s c"
      "bhs s' b = Some h" "blk_no h = blk" "b_bd h = bd" "b_state h = BH_Uptodate" "holds_block content s' h"
    using get_blk_new [OF I bd blk(1) no] by blast
  have other: "blk_no (the (bhs s c)) \<noteq> blk" if "c \<in> set bs" for c
    using C no [OF that] that blk(2) cache_live(1) [OF I that] by (fastforce simp: cache_clean_def matches_def)
  have "cache_clean bd Z s' (b # bs)" using C g(8-12) unfolding cache_clean_def by simp
  moreover have "cache_single Z s' (b # bs)" if "cache_single Z s bs"
  proof -
    have new: "blk_no (the (bhs s' c)) \<noteq> blk_no (the (bhs s' b))" if "c \<in> set bs" for c using other that g(8-10) by simp
    have old: "c = e" if "c \<in> set bs" "e \<in> set bs" "blk_no (the (bhs s' e)) \<in> Z" "blk_no (the (bhs s' c)) = blk_no (the (bhs s' e))" for c e
      using \<open>cache_single Z s bs\<close> that g(8) unfolding cache_single_def by metis
    show ?thesis unfolding cache_single_def
    proof (intro ballI impI)
      fix e c assume "e \<in> set (b # bs)" "c \<in> set (b # bs)" "blk_no (the (bhs s' e)) \<in> Z" "blk_no (the (bhs s' c)) = blk_no (the (bhs s' e))"
      then show "c = e" using new [of c] new [of e] old [of c e] by (cases "c = b"; cases "e = b") auto
    qed
  qed
  moreover have "data_of s' c = data_of s c" if "c \<in> set bs" for c using g(8) that by (simp add: data_of_def)
  then have "owned s' (b # bs) \<inter> fst ` live s \<subseteq> owned s bs" using g(6,7) by (auto simp: owned_def)
  ultimately show ?thesis using g by (intro exI [of _ b] exI [of _ s'] exI [of _ "b # bs"] exI [of _ h]) simp
next
  case (Some c)
  then have c: "c \<in> set bs" "matches s bd blk c" by (auto simp: find_Some_iff)
  obtain h where m: "bhs s c = Some h" "blk_no h = blk" using c(2) by (auto simp: matches_def)
  have "b_state h = BH_Uptodate" using C c(1) m blk(2) by (simp add: cache_clean_def)
  note h = m(1) this m(2)
  then have "holds_block content s h" using I c(1) blk(2) by (auto simp: cache_inv_def buffer_ok_def)
  then show ?thesis using get_blk_scan [OF I, of fl bd blk] Some c(1) I C h
    by (intro exI [of _ c] exI [of _ s] exI [of _ bs] exI [of _ h]) (simp add: kept_refl)
qed

lemma brelse_clean:
  fixes s :: "('f, 'a) fs_state_scheme"
  assumes I: "cache_inv content ready Z s bs" and C: "cache_clean bd Z s bs" and b: "b \<in> set bs"
    and h: "bhs s b = Some h" "b_state h = BH_Uptodate"
  shows "\<exists>s'. brelse fl b s = Inr s' \<and> cache_inv content ready Z s' (remove1 b bs) \<and> cache_clean bd Z s' (remove1 b bs) \<and>
    content (flash s') = content (flash s) \<and> kept {p \<in> live s. fst p \<notin> owned s bs} s s' \<and> free_count s \<le> free_count s' \<and>
    owned s' (remove1 b bs) \<subseteq> owned s bs"
proof -
  have dis: "distinct bs" using I by (simp add: cache_inv_def)
  have st: "b_state h \<noteq> BH_Dirty" using h(2) by (simp add: BH_Dirty_def BH_Uptodate_def)
  obtain s' where r: "brelse fl b s = Inr s'" "cache_inv content ready Z s' (remove1 b bs)"
      "live s' = {p \<in> live s. fst p \<noteq> b \<and> fst p \<noteq> b_data h}" "kept (live s') s s'" "free_count s \<le> free_count s'"
      "bhs s' = (bhs s)(b := None)" "content (flash s') = content (flash s)"
    using brelse_clean_buffer [OF I b h(1) st, of fl] by auto
  have "data_of s b = b_data h" using h(1) by (simp add: data_of_def)
  then have own: "b \<in> owned s bs" "b_data h \<in> owned s bs" using b imageI [OF b, of "data_of s"] by (simp_all add: owned_def)
  have "{p \<in> live s. fst p \<notin> owned s bs} \<subseteq> live s'" unfolding r(3) using own by (intro Collect_mono) metis
  then have kp: "kept {p \<in> live s. fst p \<notin> owned s bs} s s'" using r(4) kept_mono by blast
  show ?thesis using r(1,2,5,7) kp cache_clean_remove [OF C dis, of b s'] r(6) by simp
qed

text \<open>One turn of the loop of \<^verbatim>\<open>minix_read\<close>: a block, or a part of it, is copied into a part of an object.\<close>

lemma read_chunk:
  fixes s :: "('f, 'a) fs_state_scheme"
  assumes I: "cache_inv content ready Z s bs" and C: "cache_clean bd Z s bs" and bd: "bdevs s bd \<noteq> None" "4 \<le> free_count s" and blk: "blk < nr_blocks" "blk \<in> Z"
    and buf: "(buf, n) \<in> live s" "buf \<notin> owned s bs" and len: "nr + len \<le> 1024" "o' + len \<le> n"
  shows "\<exists>b s1 h s2 s3 bs'. get_blk fl bd blk s = Inr (b, s1) \<and> b \<noteq> NULL \<and> bhs s1 b = Some h \<and>
    copy_out len (buf + of_nat o') (of_nat nr + b_data h) s1 = Inr s2 \<and> brelse fl b s2 = Inr s3 \<and>
    cache_inv content ready Z s3 bs' \<and> cache_clean bd Z s3 bs' \<and> content (flash s3) = content (flash s) \<and>
    free_count s \<le> free_count s3 + 4 \<and> (buf, n) \<in> live s3 \<and> buf \<notin> owned s3 bs' \<and> kept {} s s3 \<and>
    (\<forall>k < n. mem s3 (buf + of_nat k) = (if o' \<le> k \<and> k < o' + len
      then content (flash s) (PFLASH1_BASE + blk * BLOCK_SZ + of_nat (nr + (k - o'))) else mem s (buf + of_nat k)))"
proof -
  obtain b s1 bs1 h where g: "get_blk fl bd blk s = Inr (b, s1)" "cache_inv content ready Z s1 bs1" "cache_clean bd Z s1 bs1" "b \<in> set bs1"
      "owned s1 bs1 \<inter> fst ` live s \<subseteq> owned s bs" "content (flash s1) = content (flash s)" "kept (live s) s s1"
      "free_count s \<le> free_count s1 + 4" "bhs s1 b = Some h" "blk_no h = blk" "holds_block content s1 h" "b_state h = BH_Uptodate"
    using get_blk_clean [OF I C bd blk] by blast
  have inv: "km_inv s1" using g(2) by (simp add: cache_inv_def)
  have buf1: "(buf, n) \<in> live s1" "buf \<notin> owned s1 bs1" using buf g(5,7) by (force simp: kept_def)+
  have n: "n \<le> 4096" using live_size [OF inv buf1(1)] .
  obtain nb m where bl: "(b, nb) \<in> live s1" "(b_data h, m) \<in> live s1" "1024 \<le> m"
    using g(2,4,9) by (fastforce simp: cache_inv_def buffer_ok_def)
  have "data_of s1 b \<in> owned s1 bs1" "data_of s1 b = b_data h" using g(4,9) by (simp_all add: owned_def) (simp add: data_of_def)
  then have ne: "buf \<noteq> b_data h" using buf1(2) by auto
  let ?dst = "buf + of_nat o'" and ?src = "of_nat nr + b_data h"
  have di: "in_block buf n (?dst + of_nat i)" if "i < len" for i
    using that len(2) n by (simp add: in_block_def unat_of_nat flip: of_nat_add)
  have si: "in_block (b_data h) m (?src + of_nat i)" if "i < len" for i
    using that len(1) bl(3) by (simp add: in_block_def unat_of_nat flip: of_nat_add)
  let ?m = "copied len ?dst ?src (mem s1)"
  let ?s2 = "s1\<lparr>mem := ?m\<rparr>"
  have cp: "copy_out len ?dst ?src s1 = Inr ?s2"
    using len n live_kernel [OF inv buf1(1) di] km.objs_apart [OF inv buf1(1) bl(2) ne] di si
    by (intro copy_out_kernel) (force+)
  have out: "?m x = mem s1 x" if "\<not> in_block buf n x" for x
    using that di [of "unat (x - ?dst)"] by (auto simp: copied_def)
  have bufd: "buf \<notin> data_of s1 ` set bs1" using buf1(2) by (simp add: owned_def)
  note w = cache_inv_write [OF g(2) buf1(1) bufd out]
  have C2: "cache_clean bd Z ?s2 bs1" "owned ?s2 bs1 = owned s1 bs1" using g(3) by (simp_all add: cache_clean_def owned_def data_of_def)
  obtain s3 where r: "brelse fl b ?s2 = Inr s3" "cache_inv content ready Z s3 (remove1 b bs1)" "cache_clean bd Z s3 (remove1 b bs1)"
      "content (flash s3) = content (flash ?s2)" "kept {p \<in> live ?s2. fst p \<notin> owned ?s2 bs1} ?s2 s3" "free_count ?s2 \<le> free_count s3"
      "owned s3 (remove1 b bs1) \<subseteq> owned ?s2 bs1"
    using brelse_clean [OF w(1) C2(1) g(4), of h] g(9,12) by auto
  have K: "(buf, n) \<in> {p \<in> live ?s2. fst p \<notin> owned ?s2 bs1}" using buf1 w(2) C2(2) by simp
  have bytes: "mem s3 (buf + of_nat k) = (if o' \<le> k \<and> k < o' + len
      then content (flash s) (PFLASH1_BASE + blk * BLOCK_SZ + of_nat (nr + (k - o'))) else mem s (buf + of_nat k))" if k: "k < n" for k
  proof -
    have kb: "in_block buf n (buf + of_nat k)" using k n by (simp add: in_block_def unat_of_nat)
    then have e: "mem s3 (buf + of_nat k) = ?m (buf + of_nat k)" using r(5) K by (simp add: kept_def)
    have hb: "mem s1 (b_data h + of_nat j) = content (flash s) (PFLASH1_BASE + blk * BLOCK_SZ + of_nat j)" if "j < 1024" for j
      using g(6,10,11) that unfolding holds_block_def by metis
    have old: "mem s1 (buf + of_nat k) = mem s (buf + of_nat k)" using g(7) buf(1) kb unfolding kept_def by blast
    have "nr + (k - o') < 1024" if "k < o' + len" "o' \<le> k" using that len(1) by linarith
    then show ?thesis
      unfolding e copied_bytes [OF less_le_trans [OF k n] order_trans [OF len(2) n]] old using hb by meson
  qed
  have "kept {} s s3" using g(7) r(5) by (simp add: kept_def)
  moreover have "free_count s \<le> free_count s3 + 4" using g(8) r(6) w(3) by simp
  moreover have "(buf, n) \<in> live s3" "buf \<notin> owned s3 (remove1 b bs1)" using r(5,7) K by (auto simp: kept_def)
  ultimately show ?thesis
    using g(1,6,9) cp r(1-4) bytes live_not_null [OF inv bl(1)]
    by (intro exI [of _ b] exI [of _ s1] exI [of _ h] exI [of _ ?s2] exI [of _ s3] exI [of _ "remove1 b bs1"]) simp
qed

lemma inode_direct_block:
  assumes "inodes s inode = Some i" "sbs s (i_sb i) = Some sb" "p < 7168"
  shows "inode_get_blk fl inode (word_of_int (int p)) s = get_blk fl (s_bd sb) (ucast (i_data i ! (p div 1024))) s"
proof -
  have p: "word_of_int (int p) = (of_nat p :: u64)" "unat (of_nat p :: u64) = p" using assms(3) by (simp_all add: unat_of_nat)
  have d: "unat (of_nat p div BLOCK_SZ) = p div 1024" using p(2) by (simp add: BLOCK_SZ_def unat_div)
  then have "of_nat p div BLOCK_SZ < (7 :: u64)" using assms(3) by (simp add: word_less_nat_alt less_mult_imp_div_less)
  then show ?thesis using assms(1,2) d p(1) by (simp add: inode_get_blk_def Let_def)
qed

lemma read_loop_direct:
  fixes s :: "('f, 'a) fs_state_scheme"
  assumes "cache_inv content ready Z s bs" "cache_clean (s_bd sb) Z s bs" "bdevs s (s_bd sb) \<noteq> None"
    and "inodes s inode = Some i" "sbs s (i_sb i) = Some sb" "(buf, n) \<in> live s" "buf \<notin> owned s bs"
    and "p + l \<le> 7168" "o' + l \<le> n" "0 < l \<longrightarrow> 4 * (7 - p div 1024) \<le> free_count s" "file_zones i \<subseteq> Z"
  shows "\<exists>s' bs'. minix_read_loop fl inode (buf + of_nat o') (int p) (int l) s = Inr (True, s') \<and>
    cache_inv content ready Z s' bs' \<and> cache_clean (s_bd sb) Z s' bs' \<and> content (flash s') = content (flash s) \<and> kept {} s s' \<and>
    (\<forall>k < n. mem s' (buf + of_nat k) = (if o' \<le> k \<and> k < o' + l then file_byte (content (flash s)) i (p + (k - o')) else mem s (buf + of_nat k)))"
  using assms
proof (induction l arbitrary: p o' s bs rule: less_induct)
  case (less l)
  show ?case
  proof (cases "l = 0")
    case True
    then show ?thesis using less.prems(1,2) by (subst minix_read_loop.simps) (auto simp: kept_def)
  next
    case False
    let ?nr = "p mod 1024" and ?blk = "ucast (i_data i ! (p div 1024)) :: u64"
    let ?len = "min (1024 - ?nr) l"
    have p7: "p < 7168" "p div 1024 < 7" using less.prems(8) False by (auto simp: less_mult_imp_div_less)
    have blk: "?blk < nr_blocks" "?blk \<in> Z" using zone_small file_zone_in [OF p7(1), of i] less.prems(11) by auto
    have len: "?nr + ?len \<le> 1024" "o' + ?len \<le> n" "?len \<le> l" "0 < ?len" using less.prems(9) False by auto
    have room: "4 \<le> free_count s" using less.prems(10) False p7(2) by simp
    obtain b s1 h s2 s3 bs3 where c: "get_blk fl (s_bd sb) ?blk s = Inr (b, s1)" "b \<noteq> NULL" "bhs s1 b = Some h"
        "copy_out ?len (buf + of_nat o') (of_nat ?nr + b_data h) s1 = Inr s2" "brelse fl b s2 = Inr s3"
        "cache_inv content ready Z s3 bs3" "cache_clean (s_bd sb) Z s3 bs3" "content (flash s3) = content (flash s)"
        "free_count s \<le> free_count s3 + 4" "(buf, n) \<in> live s3" "buf \<notin> owned s3 bs3" "kept {} s s3"
        "\<And>k. k < n \<Longrightarrow> mem s3 (buf + of_nat k) = (if o' \<le> k \<and> k < o' + ?len
          then content (flash s) (PFLASH1_BASE + ?blk * BLOCK_SZ + of_nat (?nr + (k - o'))) else mem s (buf + of_nat k))"
      using read_chunk [OF less.prems(1-3) room blk less.prems(6,7) len(1,2)] by blast
    have step: "minix_read_loop fl inode (buf + of_nat o') (int p) (int l) s =
        minix_read_loop fl inode (buf + of_nat (o' + ?len)) (int (p + ?len)) (int (l - ?len)) s3"
    proof -
      have f: "fits_int (int p + int ?len)" using less.prems(8) len(3) by (simp add: fits_int_def)
      have e: "int (p + ?len) = int p + int ?len" "int (l - ?len) = int l - int ?len" "nat (int ?len) = ?len" "max 0 (int ?len) = int ?len"
          "word_of_int (int ?nr) = (of_nat ?nr :: u64)" "buf + of_nat o' + word_of_int (int ?len) = buf + of_nat (o' + ?len)"
        using len(3) by (simp_all add: of_nat_diff)
      show ?thesis unfolding e(1,2) e(6) [symmetric]
        using False c(1-5) f e(3,4) inode_direct_block [OF less.prems(4,5) p7(1)]
        by (subst minix_read_loop.simps) (simp add: Let_def chunk_sizes(1,2) e(5) del: of_nat_min)
    qed
    have room3: "0 < l - ?len \<longrightarrow> 4 * (7 - (p + ?len) div 1024) \<le> free_count s3"
      using chunk_sizes(3) [of p l] less.prems(10) c(9) p7(2) by auto
    have pre: "l - ?len < l" "p + ?len + (l - ?len) \<le> 7168" "o' + ?len + (l - ?len) \<le> n"
      using len less.prems(8,9) False by auto
    have f3: "bdevs s3 (s_bd sb) \<noteq> None" "inodes s3 inode = Some i" "sbs s3 (i_sb i) = Some sb"
      using c(12) less.prems(3-5) by (simp_all add: kept_def)
    obtain s' bs' where IH: "minix_read_loop fl inode (buf + of_nat (o' + ?len)) (int (p + ?len)) (int (l - ?len)) s3 = Inr (True, s')"
        "cache_inv content ready Z s' bs'" "cache_clean (s_bd sb) Z s' bs'" "content (flash s') = content (flash s3)" "kept {} s3 s'"
        "\<And>k. k < n \<Longrightarrow> mem s' (buf + of_nat k) = (if o' + ?len \<le> k \<and> k < o' + ?len + (l - ?len)
          then file_byte (content (flash s3)) i (p + ?len + (k - (o' + ?len))) else mem s3 (buf + of_nat k))"
      using less.IH [OF pre(1) c(6,7) f3 c(10,11) pre(2,3) room3 less.prems(11)] by blast
    have "mem s' (buf + of_nat k) = (if o' \<le> k \<and> k < o' + l then file_byte (content (flash s)) i (p + (k - o')) else mem s (buf + of_nat k))"
      if k: "k < n" for k
    proof (cases "o' \<le> k \<and> k < o' + ?len")
      case True
      then have "k - o' < ?len" "k < o' + l" using len(3) by linarith+
      then show ?thesis using True IH(6) [OF k] c(13) [OF k] chunk_sizes(4) [of "k - o'" p l] by (simp add: file_byte_def)
    next
      case False
      then show ?thesis using IH(6) [OF k] c(13) [OF k] c(8) len(3) by auto
    qed
    then show ?thesis using step IH(1-5) c(8) kept_trans [OF c(12) IH(5)] by (intro exI [of _ s'] exI [of _ bs']) simp
  qed
qed

end

lemma files_km [simp]:
  fixes s :: "('f, 'a) fs_state_scheme"
  shows "km_inv (s\<lparr>files := g\<rparr>) = km_inv s" "live (s\<lparr>files := g\<rparr>) = live s"
  by (simp_all add: km_inv_def km_rel_def desc_ok_def desc_of_def obj_pages_def live_def used_pages_def mm_inv_def)

lemma files_update [simp]:
  fixes s :: "('f, 'a) fs_state_scheme"
  shows "cache_inv content ready Z (s\<lparr>files := g\<rparr>) bs = cache_inv content ready Z s bs"
    "cache_clean bd Z (s\<lparr>files := g\<rparr>) bs = cache_clean bd Z s bs"
proof -
  have "data_of (s\<lparr>files := g\<rparr>) = data_of s" by (simp add: data_of_def fun_eq_iff)
  then show "cache_inv content ready Z (s\<lparr>files := g\<rparr>) bs = cache_inv content ready Z s bs"
    by (simp add: cache_inv_def buffer_ok_def holds_block_def)
qed (simp add: cache_clean_def)

lemma file_read_run:
  fixes s :: "('f, 'a) fs_state_scheme"
  assumes "flash_device fl content ready status polls prog" "cache_inv content ready (file_zones i) s bs" "cache_clean (s_bd sb) (file_zones i) s bs"
    and "files s f = Some x" "inodes s (f_inode x) = Some i" "i_op i = Minix_inode_operations" "sbs s (i_sb i) = Some sb"
    and "bdevs s (s_bd sb) \<noteq> None" "(buf, n) \<in> live s" "buf \<notin> owned s bs" "nat count \<le> n"
    and "0 < count" "uint (f_pos x) + count \<le> 7168" "28 \<le> free_count s"
  shows "\<exists>s' bs'. file_read fl f buf count s = Inr (count, s') \<and> cache_inv content ready (file_zones i) s' bs' \<and> cache_clean (s_bd sb) (file_zones i) s' bs' \<and>
    content (flash s') = content (flash s) \<and> files s' f = Some (x\<lparr>f_pos := f_pos x + word_of_int count\<rparr>) \<and>
    (\<forall>k < nat count. mem s' (buf + of_nat k) = file_byte (content (flash s)) i (unat (f_pos x) + k))"
proof -
  let ?p = "unat (f_pos x)" and ?l = "nat count"
  have p: "int ?p = uint (f_pos x)" "int ?l = count" using assms(12) by simp_all
  have pl: "?p + ?l \<le> 7168" "0 + ?l \<le> n" "0 < ?l \<longrightarrow> 4 * (7 - ?p div 1024) \<le> free_count s" using assms(11-14) p by linarith+
  obtain s1 bs' where r: "minix_read_loop fl (f_inode x) buf (int ?p) (int ?l) s = Inr (True, s1)"
      "cache_inv content ready (file_zones i) s1 bs'" "cache_clean (s_bd sb) (file_zones i) s1 bs'" "content (flash s1) = content (flash s)" "kept {} s s1"
      "\<And>k. k < n \<Longrightarrow> mem s1 (buf + of_nat k) = (if 0 \<le> k \<and> k < 0 + ?l then file_byte (content (flash s)) i (?p + (k - 0)) else mem s (buf + of_nat k))"
    using flash_device.read_loop_direct [OF assms(1-3,8,5,7,9,10) pl subset_refl] by auto
  have t: "to_int (f_pos x) = int ?p" using to_int_small [of "f_pos x"] assms(12,13) p(1) by simp
  have "minix_read fl (f_inode x) buf (to_int (f_pos x)) count s = Inr (count, s1)"
    using r(1) assms(12) unfolding t minix_read_def p(2) by simp
  then have "file_read fl f buf count s = Inr (count, s1\<lparr>files := (files s)(f \<mapsto> x\<lparr>f_pos := f_pos x + word_of_int count\<rparr>)\<rparr>)"
    using assms(4-6,12) r(5) by (simp add: file_read_def with_file_def kept_def)
  then show ?thesis using r(2-4,6) assms(11) by (intro exI) auto
qed

section \<open>Properties\<close>

text \<open>C10: Reading a file works through all layers: for a range inside its seven direct blocks, that is the
  first 7168 bytes, with 28 free pages and every buffer of these seven blocks clean and of the file's device,
  \<^verbatim>\<open>file_read\<close> into a kernel object that is not a buffer returns the asked count, puts the bytes of
  the file on the flash chip into the object, and moves the position by the count; the chip keeps its
  content, and the buffers keep their invariant. Buffers of all other blocks, as those of inodes, may be
  there in any number and state. The size of the file plays no part: the range may lie beyond it.\<close>

theorem file_read_direct:
  fixes s :: "('f, 'a) fs_state_scheme"
  assumes "flash_device fl content ready status polls prog" "cache_inv content ready (file_zones i) s bs" "cache_clean (s_bd sb) (file_zones i) s bs"
    and "files s f = Some x" "inodes s (f_inode x) = Some i" "i_op i = Minix_inode_operations" "sbs s (i_sb i) = Some sb"
    and "bdevs s (s_bd sb) \<noteq> None" "(buf, n) \<in> live s" "buf \<notin> owned s bs" "nat count \<le> n"
    and "0 < count" "uint (f_pos x) + count \<le> 7168" "28 \<le> free_count s"
  shows "\<exists>s' bs'. file_read fl f buf count s = Inr (count, s') \<and> cache_inv content ready (file_zones i) s' bs' \<and> cache_clean (s_bd sb) (file_zones i) s' bs' \<and>
    content (flash s') = content (flash s) \<and> files s' f = Some (x\<lparr>f_pos := f_pos x + word_of_int count\<rparr>) \<and>
    (\<forall>k < nat count. mem s' (buf + of_nat k) = file_byte (content (flash s)) i (unat (f_pos x) + k))"
  using file_read_run [OF assms] .

text \<open>
  The kernel after boot, after the block 2 was read twice, as \<^verbatim>\<open>minix_iget\<close> does for two inodes of that
  block, and with one object of 512 bytes.
\<close>

definition boot_twice :: "(u64 \<times> chip fs_state) res" where
  "boot_twice = bindR (bread sim_flash 0xffff000000093000 2 boot_fs) (\<lambda>(_, s). bread sim_flash 0xffff000000093000 2 s)"

lemma boot_object:
  "\<exists>b s0 buf n s c. boot_twice = Inr (b, s0) \<and> kmalloc 512 s0 = Inr (buf, s) \<and> 512 \<le> n \<and> (buf, n) \<in> others s [b, c] \<and> 56 \<le> free_count s \<and>
     cache_inv chip_array chip_ready UNIV s [b, c] \<and> inodes s = inodes boot_fs \<and> sbs s = sbs boot_fs \<and>
     bdevs s = bdevs boot_fs \<and> files s = files boot_fs \<and> flash s = flash s0 \<and> chip_array (flash s0) = chip_array (flash boot_fs) \<and>
     (\<forall>b \<in> {b, c}. \<exists>h. bhs s b = Some h \<and> blk_no h = 2) \<and> tasks s = tasks boot_fs \<and> cregs s = cregs boot_fs"
proof -
  obtain c b s0 where r: "boot_twice = Inr (b, s0)" "cache_inv chip_array chip_ready UNIV s0 [b, c]"
      "chip_array (flash s0) = chip_array (flash boot_fs)" "kept (live boot_fs) boot_fs s0" "3832 \<le> free_count s0"
      "\<forall>b \<in> {c, b}. \<exists>h. bhs s0 b = Some h \<and> blk_no h = 2"
    using boot_fs_twice [of 2] unfolding boot_twice_def by (auto simp: case_prod_unfold)
  have inv: "km_inv s0" using r(2) by (simp add: cache_inv_def)
  have "km_enough s0" using r(5) by (simp add: km_enough_def free_count_def)
  then obtain buf n s where k: "kmalloc 512 s0 = Inr (buf, s)" "km_inv s" "512 \<le> n" "live s = insert (buf, n) (live s0)" "\<forall>m. (buf, m) \<notin> live s0"
      "\<forall>y m z. (y, m) \<in> live s0 \<longrightarrow> in_block y m z \<longrightarrow> mem s z = mem s0 z"
    using km.alloc_law [OF inv, of 512] by auto
  note mf = fs_more_fields [OF kmalloc_more [OF k(1)]]
  have d: "data_of s = data_of s0" using mf by (simp add: data_of_def fun_eq_iff)
  have "buffer_ok chip_array UNIV s e" if e: "e \<in> {b, c}" for e
    by (rule buffer_ok_frame [of _ _ s0]) (use e r(2) k mf in \<open>auto simp: cache_inv_def\<close>)
  then have "cache_inv chip_array chip_ready UNIV s [b, c]" using r(2) k(2) mf d by (simp add: cache_inv_def)
  moreover have "56 \<le> free_count s" using kmalloc_count [OF _ k(1)] inv r(5) by (auto simp: km_inv_def dest: km_relD(1))
  moreover have "owned s [b, c] \<subseteq> fst ` live s0"
    unfolding owned_def d using cache_live(2,3) [OF r(2)] by auto
  then have "(buf, n) \<in> others s [b, c]" using k(4,5) by (force simp: others_def)
  ultimately show ?thesis using r k(1,3) mf
    by (intro exI [of _ b] exI [of _ s0] exI [of _ buf] exI [of _ n] exI [of _ s] exI [of _ c]) (auto simp: kept_def)
qed

lemma cache_inv_mono: "cache_inv content ready Y s bs \<Longrightarrow> Z \<subseteq> Y \<Longrightarrow> cache_inv content ready Z s bs"
  unfolding cache_inv_def buffer_ok_def by blast

text \<open>The zones of the file of that kernel do not include the block that is there twice.\<close>

lemma boot_object_clean:
  assumes "\<forall>b \<in> {b, c}. \<exists>h. bhs s b = Some h \<and> blk_no h = 2" "i = the (inodes boot_fs 0xffff000000096000)"
  shows "cache_clean bd (file_zones i) s [b, c]" "cache_single (file_zones i) s [b, c]"
proof -
  have "{..<7} = {0, 1, 2, 3, 4, 5, 6 :: nat}" by auto
  then have "2 \<notin> file_zones i" by (simp add: file_zones_def assms(2) boot_fs_fields)
  then show "cache_clean bd (file_zones i) s [b, c]" "cache_single (file_zones i) s [b, c]"
    using assms(1) by (auto simp: cache_clean_def cache_single_def)
qed

theorem file_read_direct_witness:
  "\<exists>b s0 buf s s'. boot_twice = Inr (b, s0) \<and> kmalloc 512 s0 = Inr (buf, s) \<and>
     file_read sim_flash 0xffff000000094000 buf 200 s = Inr (200, s') \<and>
     mem s' (buf + 7) = chip_array (flash s) (PFLASH1_BASE + 3 * 1024 + 107)"
proof -
  let ?x = "\<lparr>f_inode = 0xffff000000096000, f_count = 1, f_flags = 0, f_pos = 100\<rparr>" and ?i = "the (inodes boot_fs 0xffff000000096000)"
  obtain b s0 buf n s c where k: "boot_twice = Inr (b, s0)" "kmalloc 512 s0 = Inr (buf, s)" "512 \<le> n" "(buf, n) \<in> others s [b, c]" "56 \<le> free_count s"
      "cache_inv chip_array chip_ready UNIV s [b, c]" "inodes s = inodes boot_fs" "sbs s = sbs boot_fs"
      "bdevs s = bdevs boot_fs" "files s = files boot_fs" "\<forall>b \<in> {b, c}. \<exists>h. bhs s b = Some h \<and> blk_no h = 2"
    using boot_object by blast
  note cl = cache_inv_mono [OF k(6), of "file_zones ?i"] boot_object_clean(1) [OF k(11) refl]
  obtain s' where r: "file_read sim_flash 0xffff000000094000 buf 200 s = Inr (200, s')"
      "\<forall>j < 200. mem s' (buf + of_nat j) = file_byte (chip_array (flash s)) ?i (100 + j)"
    using file_read_direct [OF sim.flash_device_axioms cl, where sb = "\<lparr>s_bd = 0xffff000000093000, s_fs_info = NULL\<rparr>" and f = "0xffff000000094000" and x = ?x
        and buf = buf and n = n and count = 200] k
    by (auto simp: boot_fs_fields owned_def others_def)
  have "mem s' (buf + 7) = chip_array (flash s) (PFLASH1_BASE + 3 * 1024 + 107)"
    using r(2) [rule_format, of 7] by (simp add: file_byte_def boot_fs_fields BLOCK_SZ_def)
  then show ?thesis using k(1,2) r(1) by blast
qed

end
