(* ===== verification/File_Write.thy ===== *)
theory File_Write
  imports File_Read
begin

text \<open>
  Writing a file through every layer, and reading it back: \<^verbatim>\<open>file_write\<close> on \<^verbatim>\<open>minix_write\<close>, the buffer
  cache, the object allocator and the flash chip.
\<close>

section \<open>Copying out of an object\<close>

lemma copy_in_kernel:
  assumes "n \<le> 4096" "\<And>i. i < n \<Longrightarrow> KERNEL_VA_START \<le> src + of_nat i"
    and "\<And>i j. i < n \<Longrightarrow> j < n \<Longrightarrow> dst + of_nat i \<noteq> src + of_nat j"
  shows "copy_in n src dst s = Inr (s\<lparr>mem := copied n dst src (mem s)\<rparr>)"
  using assms
proof (induction n arbitrary: dst src s)
  case 0
  then show ?case by (simp add: copied_def)
next
  case (Suc n)
  let ?s = "s\<lparr>mem := (mem s)(dst := mem s src)\<rparr>"
  have d0: "KERNEL_VA_START \<le> src" using Suc.prems(2) [of 0] by simp
  have "KERNEL_VA_START \<le> src + 1 + of_nat i" if "i < n" for i using Suc.prems(2) [of "Suc i"] that by (simp add: add.assoc)
  moreover have "dst + 1 + of_nat i \<noteq> src + 1 + of_nat j" if "i < n" "j < n" for i j
    using Suc.prems(3) [of "Suc i" "Suc j"] that by (simp add: add.assoc)
  ultimately have "copy_in n (src + 1) (dst + 1) ?s = Inr (?s\<lparr>mem := copied n (dst + 1) (src + 1) (mem ?s)\<rparr>)"
    using Suc.prems(1) by (intro Suc.IH) simp_all
  moreover have "copied n (dst + 1) (src + 1) (mem ?s) = copied (Suc n) dst src (mem s)"
    using Suc.prems(1) Suc.prems(3) [of 0] by (simp add: copied_Suc)
  ultimately show ?case using d0 by (simp add: get_byte_def byte_addr_def)
qed

section \<open>One block\<close>

lemma ucast_zone_eq: "ucast (a :: u16) = (ucast b :: u64) \<longleftrightarrow> a = b"
proof -
  have "unat (ucast w :: u64) = unat w" for w :: u16
    by (simp add: unsigned_ucast_eq take_bit_nat_eq_self order_less_trans [OF unsigned_less])
  then show ?thesis by (metis word_unat_eq_iff)
qed

text \<open>No other of the seven direct blocks of the file has the same zone.\<close>

definition zone_alone :: "inode \<Rightarrow> nat \<Rightarrow> bool" where
  "zone_alone i a \<longleftrightarrow> (\<forall>b < 7. i_data i ! b = i_data i ! a \<longrightarrow> b = a)"

lemma zone_eq:
  assumes "zone_alone i (p div 1024)" "q < 7168"
  shows "ucast (i_data i ! (q div 1024) :: u16) = (ucast (i_data i ! (p div 1024)) :: u64) \<longleftrightarrow> q div 1024 = p div 1024"
  using assms less_mult_imp_div_less [of q 7 1024] unfolding zone_alone_def ucast_zone_eq by auto

lemma chunk_position:
  fixes p q l :: nat
  defines "len \<equiv> min (1024 - p mod 1024) l"
  shows "q div 1024 = p div 1024 \<and> p mod 1024 \<le> q mod 1024 \<and> q mod 1024 < p mod 1024 + len \<longleftrightarrow> p \<le> q \<and> q < p + len"
    "p \<le> q \<Longrightarrow> q < p + len \<Longrightarrow> q mod 1024 - p mod 1024 = q - p"
proof -
  have in_chunk: "q div 1024 = p div 1024 \<and> q mod 1024 = p mod 1024 + (q - p)" if "p \<le> q" "q < p + len"
  proof -
    have "q - p < min (1024 - p mod 1024) l" "p + (q - p) = q" using that unfolding len_def by linarith+
    then show ?thesis using chunk_sizes(4) [of "q - p" p l] by simp
  qed
  show "q div 1024 = p div 1024 \<and> p mod 1024 \<le> q mod 1024 \<and> q mod 1024 < p mod 1024 + len \<longleftrightarrow> p \<le> q \<and> q < p + len" (is "?L \<longleftrightarrow> ?R")
  proof
    assume l: ?L
    have "p = p div 1024 * 1024 + p mod 1024" "q = q div 1024 * 1024 + q mod 1024" by simp_all
    with l show ?R by linarith
  next
    assume r: ?R
    show ?L using in_chunk r by force
  qed
  show "q mod 1024 - p mod 1024 = q - p" if "p \<le> q" "q < p + len" using in_chunk [OF that] by simp
qed

context flash_untimed
begin

lemma write_chunk:
  fixes s :: "('f, 'a) fs_state_scheme"
  assumes I: "cache_inv content ready Z s bs" and C: "cache_clean bd Z s bs" and S: "cache_single Z s bs"
    and bd: "bdevs s bd \<noteq> None" "4 \<le> free_count s" and blk: "blk < nr_blocks" "blk \<in> Z" "Z \<subseteq> {..<nr_blocks}"
    and buf: "(buf, n) \<in> others s bs" and len: "nr + len \<le> 1024" "o' + len \<le> n"
  shows "\<exists>b s1 h s2 s3 s4 bs'. get_blk fl bd blk s = Inr (b, s1) \<and> b \<noteq> NULL \<and> bhs s1 b = Some h \<and>
    copy_in len (buf + of_nat o') (of_nat nr + b_data h) s1 = Inr s2 \<and> mark_buffer_dirty b s2 = Inr s3 \<and> brelse fl b s3 = Inr s4 \<and>
    cache_inv content ready Z s4 bs' \<and> cache_clean bd Z s4 bs' \<and> cache_single Z s4 bs' \<and> free_count s \<le> free_count s4 + 4 \<and>
    others s bs \<subseteq> others s4 bs' \<and> kept (others s bs) s s4 \<and>
    (\<forall>a < nr_blocks. \<forall>k < 1024. content (flash s4) (PFLASH1_BASE + a * BLOCK_SZ + of_nat k) =
       (if a = blk \<and> nr \<le> k \<and> k < nr + len
        then prog (content (flash s) (PFLASH1_BASE + a * BLOCK_SZ + of_nat k)) (mem s (buf + of_nat (o' + (k - nr))))
        else content (flash s) (PFLASH1_BASE + a * BLOCK_SZ + of_nat k)))"
proof -
  obtain b s1 bs1 h where g: "get_blk fl bd blk s = Inr (b, s1)" "cache_inv content ready Z s1 bs1" "cache_clean bd Z s1 bs1" "b \<in> set bs1"
      "owned s1 bs1 \<inter> fst ` live s \<subseteq> owned s bs" "content (flash s1) = content (flash s)" "kept (live s) s s1"
      "free_count s \<le> free_count s1 + 4" "bhs s1 b = Some h" "blk_no h = blk" "holds_block content s1 h" "cache_single Z s1 bs1"
    using get_blk_clean [OF I C bd blk(1,2)] S by blast
  have inv: "km_inv s1" using g(2) by (simp add: cache_inv_def)
  have oth: "others s bs \<subseteq> others s1 bs1" using g(5,7) by (force simp: kept_def others_def)
  then have buf1: "(buf, n) \<in> live s1" "buf \<notin> owned s1 bs1" using buf by (auto simp: others_def)
  have n: "n \<le> 4096" using live_size [OF inv buf1(1)] .
  obtain nb m where bl: "(b, nb) \<in> live s1" "(b_data h, m) \<in> live s1" "1024 \<le> m"
    using g(2,4,9) by (fastforce simp: cache_inv_def buffer_ok_def)
  have own: "b \<in> owned s1 bs1" "b_data h \<in> owned s1 bs1"
    using g(4,9) by (auto simp: owned_def data_of_def intro!: image_eqI [of _ _ b])
  then have ne: "b_data h \<noteq> buf" using buf1(2) by auto
  let ?src = "buf + of_nat o'" and ?dst = "of_nat nr + b_data h"
  have si: "in_block buf n (?src + of_nat i)" if "i < len" for i
    using that len(2) n by (simp add: in_block_def unat_of_nat flip: of_nat_add)
  have di: "in_block (b_data h) 1024 (?dst + of_nat i)" "in_block (b_data h) m (?dst + of_nat i)" if "i < len" for i
    using that len(1) bl(3) by (simp_all add: in_block_def unat_of_nat flip: of_nat_add)
  let ?m = "copied len ?dst ?src (mem s1)"
  let ?s2 = "s1\<lparr>mem := ?m\<rparr>" and ?h = "h\<lparr>b_state := BH_Dirty\<rparr>"
  let ?s3 = "?s2\<lparr>bhs := (bhs s1)(b \<mapsto> ?h)\<rparr>"
  have cp: "copy_in len ?src ?dst s1 = Inr ?s2"
    using len n live_kernel [OF inv buf1(1) si] km.objs_apart [OF inv bl(2) buf1(1) ne] di(2) si
    by (intro copy_in_kernel) (force+)
  have mk: "mark_buffer_dirty b ?s2 = Inr ?s3" using g(9) by (simp add: mark_buffer_dirty_def)
  have out: "?m x = mem s1 x" if "\<not> in_block (b_data h) 1024 x" for x
    using that di(1) [of "unat (x - ?dst)"] by (auto simp: copied_def)
  note cd = cache_inv_dirty [OF g(2,4,9) out]
  have dis: "distinct bs1" using g(2) by (simp add: cache_inv_def)
  have ot: "blk_no (the (bhs ?s3 c)) \<noteq> blk_no ?h" if "c \<in> set bs1 - {b}" "blk_no (the (bhs ?s3 c)) \<in> Z" for c
    using g(4,9,12) that unfolding cache_single_def by fastforce
  have h3: "bhs ?s3 b = Some ?h" by simp
  obtain s4 where r: "brelse fl b ?s3 = Inr s4" "cache_inv content ready Z s4 (remove1 b bs1)"
      "live s4 = {p \<in> live ?s3. fst p \<noteq> b \<and> fst p \<noteq> b_data h}" "kept (live s4) ?s3 s4" "free_count ?s3 \<le> free_count s4"
      "bhs s4 = (bhs ?s3)(b := None)" "content (flash s4) = written_block prog ?m h (content (flash s1))"
    using brelse_dirty_buffer [OF cd(1) g(4) h3 _ blk(3) _ ot] g(10) blk(1) by auto
  note rm = cache_clean_remove [OF g(3) dis, of b s4]
  have own4: "owned s4 (remove1 b bs1) \<subseteq> owned s1 bs1" and C4: "cache_clean bd Z s4 (remove1 b bs1)"
      and S4: "cache_single Z s4 (remove1 b bs1)"
    using rm g(12) r(6) by simp_all
  have o4: "others s1 bs1 \<subseteq> others s4 (remove1 b bs1)" using own own4 cd(2) r(3) by (auto simp: others_def)
  have "mem s4 x = mem s x" if "(y, i) \<in> others s bs" "in_block y i x" for y i x
  proof -
    have y: "(y, i) \<in> live s4" "(y, i) \<in> live s1" "y \<noteq> b_data h" "(y, i) \<in> live s" using that(1) oth o4 own(2) by (auto simp: others_def)
    then have "mem s4 x = ?m x" using r(4) that(2) by (force simp: kept_def)
    also have "\<dots> = mem s1 x"
      using km.objs_apart [OF inv y(2) bl(2) y(3), of x] that(2) bl(3) by (intro out) (auto simp: in_block_def)
    finally show ?thesis using g(7) y(4) that(2) by (force simp: kept_def)
  qed
  moreover have "kept {} s s4" using g(7) r(4) by (simp add: kept_def)
  ultimately have K: "kept (others s bs) s s4" using oth o4 unfolding kept_def by (auto simp: others_def)
  have old: "mem s1 (buf + of_nat (o' + (k - nr))) = mem s (buf + of_nat (o' + (k - nr)))" if "nr \<le> k" "k < nr + len" for k
  proof -
    have "o' + (k - nr) < n" using that len(2) by linarith
    then have "in_block buf n (buf + of_nat (o' + (k - nr)))" using n by (rule object_byte)
    then show ?thesis using g(7) buf unfolding kept_def others_def by blast
  qed
  have "content (flash s4) (PFLASH1_BASE + a * BLOCK_SZ + of_nat k) =
       (if a = blk \<and> nr \<le> k \<and> k < nr + len
        then prog (content (flash s) (PFLASH1_BASE + a * BLOCK_SZ + of_nat k)) (mem s (buf + of_nat (o' + (k - nr))))
        else content (flash s) (PFLASH1_BASE + a * BLOCK_SZ + of_nat k))" if ak: "a < nr_blocks" "k < 1024" for a k
  proof (cases "a = blk")
    case False
    then show ?thesis using written_block_other [OF ak(1) _ _ ak(2), of h prog ?m "content (flash s1)"] blk(1) g(6,10) r(7) by simp
  next
    case True
    let ?x = "PFLASH1_BASE + blk * BLOCK_SZ + of_nat k"
    have "content (flash s4) ?x = prog (content (flash s) ?x) (?m (b_data h + of_nat k))"
      using written_block_same [OF ak(2), of prog ?m h] g(6,10) r(7) by simp
    moreover have "?m (b_data h + of_nat k) = (if nr \<le> k \<and> k < nr + len then mem s1 (buf + of_nat (o' + (k - nr))) else mem s1 (b_data h + of_nat k))"
      using copied_bytes [of k nr len "b_data h" o' buf "mem s1"] ak(2) len(1) by (simp add: add.commute)
    moreover have "mem s1 (b_data h + of_nat k) = content (flash s) ?x"
      using g(6,10,11) ak(2) by (simp add: holds_block_def)
    ultimately show ?thesis unfolding True using old prog_same by simp
  qed
  moreover have "free_count s \<le> free_count s4 + 4" using g(8) r(5) cd(3) by simp
  ultimately show ?thesis
    using K g(1,9) cp mk r(1,2) C4 S4 live_not_null [OF inv bl(1)] order_trans [OF oth o4]
    by (intro exI [of _ b] exI [of _ s1] exI [of _ h] exI [of _ ?s2] exI [of _ ?s3] exI [of _ s4] exI [of _ "remove1 b bs1"]) simp
qed


lemma write_loop_direct:
  fixes s :: "('f, 'a) fs_state_scheme"
  assumes "cache_inv content ready Z s bs" "cache_clean (s_bd sb) Z s bs" "bdevs s (s_bd sb) \<noteq> None"
    and "inodes s inode = Some i" "sbs s (i_sb i) = Some sb" "(buf, n) \<in> others s bs"
    and "p + l \<le> 7168" "o' + l \<le> n" "0 < l \<longrightarrow> 4 * (7 - p div 1024) \<le> free_count s" "cache_single Z s bs"
    and "\<And>q. p \<le> q \<Longrightarrow> q < p + l \<Longrightarrow> zone_alone i (q div 1024)" and Z: "file_zones i \<subseteq> Z" "Z \<subseteq> {..<nr_blocks}"
  shows "\<exists>s' bs'. minix_write_loop fl inode (buf + of_nat o') (int p) (int l) s = Inr (True, s') \<and>
    cache_inv content ready Z s' bs' \<and> cache_clean (s_bd sb) Z s' bs' \<and> cache_single Z s' bs' \<and>
    others s bs \<subseteq> others s' bs' \<and> kept (others s bs) s s' \<and>
    free_count s \<le> free_count s' + (if l = 0 then 0 else 4 * (7 - p div 1024)) \<and>
    (\<forall>q < 7168. file_byte (content (flash s')) i q = (if p \<le> q \<and> q < p + l
       then prog (file_byte (content (flash s)) i q) (mem s (buf + of_nat (o' + (q - p)))) else file_byte (content (flash s)) i q)) \<and>
    (\<forall>a < nr_blocks. a \<notin> file_zones i \<longrightarrow> (\<forall>k < 1024. content (flash s') (PFLASH1_BASE + a * BLOCK_SZ + of_nat k) =
       content (flash s) (PFLASH1_BASE + a * BLOCK_SZ + of_nat k)))"
  using assms(1-11)
proof (induction l arbitrary: p o' s bs rule: less_induct)
  case (less l)
  show ?case
  proof (cases "l = 0")
    case True
    then show ?thesis using less.prems(1,2,10) by (subst minix_write_loop.simps) (auto simp: kept_def others_def)
  next
    case False
    let ?nr = "p mod 1024" and ?blk = "ucast (i_data i ! (p div 1024)) :: u64"
    define len where "len = min (1024 - ?nr) l"
    note cs = chunk_sizes(1) [of p] chunk_sizes(2-4) [where p = p and l = l, folded len_def]
      and cp = chunk_position [where p = p and l = l, folded len_def]
    have p7: "p < 7168" "p div 1024 < 7" using less.prems(7) False by (auto simp: less_mult_imp_div_less)
    have blk: "?blk < nr_blocks" "?blk \<in> Z" using zone_small file_zone_in [OF p7(1), of i] Z(1) by auto
    have al: "zone_alone i (p div 1024)" using less.prems(11) [of p] False by simp
    have len: "?nr + len \<le> 1024" "o' + len \<le> n" "len \<le> l" "0 < len" using less.prems(8) False by (auto simp: len_def)
    have room: "4 \<le> free_count s" using less.prems(9) False p7(2) by simp
    obtain b s1 h s2 s3 s4 bs4 where c: "get_blk fl (s_bd sb) ?blk s = Inr (b, s1)" "b \<noteq> NULL" "bhs s1 b = Some h"
        "copy_in len (buf + of_nat o') (of_nat ?nr + b_data h) s1 = Inr s2" "mark_buffer_dirty b s2 = Inr s3" "brelse fl b s3 = Inr s4"
        "cache_inv content ready Z s4 bs4" "cache_clean (s_bd sb) Z s4 bs4" "free_count s \<le> free_count s4 + 4"
        "others s bs \<subseteq> others s4 bs4" "kept (others s bs) s s4"
        "\<And>a k. a < nr_blocks \<Longrightarrow> k < 1024 \<Longrightarrow> content (flash s4) (PFLASH1_BASE + a * BLOCK_SZ + of_nat k) =
           (if a = ?blk \<and> ?nr \<le> k \<and> k < ?nr + len
            then prog (content (flash s) (PFLASH1_BASE + a * BLOCK_SZ + of_nat k)) (mem s (buf + of_nat (o' + (k - ?nr))))
            else content (flash s) (PFLASH1_BASE + a * BLOCK_SZ + of_nat k))" "cache_single Z s4 bs4"
      using write_chunk [OF less.prems(1,2,10,3) room blk Z(2) less.prems(6) len(1,2)] by blast
    have step: "minix_write_loop fl inode (buf + of_nat o') (int p) (int l) s =
        minix_write_loop fl inode (buf + of_nat (o' + len)) (int (p + len)) (int (l - len)) s4"
    proof -
      have f: "fits_int (int p + int len)" using less.prems(7) len(3) by (simp add: fits_int_def)
      have e: "int (p + len) = int p + int len" "int (l - len) = int l - int len" "nat (int len) = len" "max 0 (int len) = int len"
          "word_of_int (int ?nr) = (of_nat ?nr :: u64)" "buf + of_nat o' + word_of_int (int len) = buf + of_nat (o' + len)"
        using len(3) by (simp_all add: of_nat_diff)
      show ?thesis unfolding e(1,2) e(6) [symmetric]
        using False c(1-6) f e(3,4) inode_direct_block [OF less.prems(4,5) p7(1)]
        by (subst minix_write_loop.simps) (simp add: Let_def cs(1,2) e(5))
    qed
    have room4: "0 < l - len \<longrightarrow> 4 * (7 - (p + len) div 1024) \<le> free_count s4"
      using cs(3) less.prems(9) c(9) p7(2) by auto
    have pre: "l - len < l" "p + len + (l - len) \<le> 7168" "o' + len + (l - len) \<le> n"
      using len less.prems(7,8) False by auto
    have al4: "zone_alone i (q div 1024)" if "p + len \<le> q" "q < p + len + (l - len)" for q
      using less.prems(11) [of q] that len(3) by simp
    have f4: "bdevs s4 (s_bd sb) \<noteq> None" "inodes s4 inode = Some i" "sbs s4 (i_sb i) = Some sb" "(buf, n) \<in> others s4 bs4"
      using c(10,11) less.prems(3-6) by (auto simp: kept_def)
    obtain s' bs' where IH: "minix_write_loop fl inode (buf + of_nat (o' + len)) (int (p + len)) (int (l - len)) s4 = Inr (True, s')"
        "cache_inv content ready Z s' bs'" "cache_clean (s_bd sb) Z s' bs'" "others s4 bs4 \<subseteq> others s' bs'" "kept (others s4 bs4) s4 s'"
        "free_count s4 \<le> free_count s' + (if l - len = 0 then 0 else 4 * (7 - (p + len) div 1024))"
        "\<And>q. q < 7168 \<Longrightarrow> file_byte (content (flash s')) i q = (if p + len \<le> q \<and> q < p + len + (l - len)
          then prog (file_byte (content (flash s4)) i q) (mem s4 (buf + of_nat (o' + len + (q - (p + len))))) else file_byte (content (flash s4)) i q)"
        "cache_single Z s' bs'"
        "\<And>a k. a < nr_blocks \<Longrightarrow> a \<notin> file_zones i \<Longrightarrow> k < 1024 \<Longrightarrow> content (flash s') (PFLASH1_BASE + a * BLOCK_SZ + of_nat k) =
          content (flash s4) (PFLASH1_BASE + a * BLOCK_SZ + of_nat k)"
      using less.IH [OF pre(1) c(7,8) f4(1-4) pre(2,3) room4 c(13) al4] by blast
    have outside: "content (flash s') (PFLASH1_BASE + a * BLOCK_SZ + of_nat k) = content (flash s) (PFLASH1_BASE + a * BLOCK_SZ + of_nat k)"
      if "a < nr_blocks" "a \<notin> file_zones i" "k < 1024" for a k
      using IH(9) [OF that] c(12) [OF that(1,3)] file_zone_in [OF p7(1), of i] that(2) by auto
    have room': "free_count s \<le> free_count s' + (if l = 0 then 0 else 4 * (7 - p div 1024))"
    proof (cases "len = l")
      case False
      then have l: "len < l" using len(3) by simp
      have "7 - p div 1024 = Suc (7 - (p + len) div 1024)" unfolding cs(3) [OF l] using p7(2) by arith
      then show ?thesis using c(9) IH(6) \<open>l \<noteq> 0\<close> l by (auto split: if_splits)
    next
      case True
      then have z: "l - len = 0" by linarith
      have "4 \<le> 4 * (7 - p div 1024)" using p7(2) by simp
      moreover have "free_count s4 \<le> free_count s'" using IH(6) [unfolded z] by simp
      ultimately show ?thesis using c(9) \<open>l \<noteq> 0\<close> by simp
    qed
    have here: "file_byte (content (flash s4)) i q = (if p \<le> q \<and> q < p + len
        then prog (file_byte (content (flash s)) i q) (mem s (buf + of_nat (o' + (q - p))))
        else file_byte (content (flash s)) i q)" if q: "q < 7168" for q
    proof -
      have a: "content (flash s4) (PFLASH1_BASE + ucast (i_data i ! (q div 1024)) * BLOCK_SZ + of_nat (q mod 1024)) =
          (if ucast (i_data i ! (q div 1024)) = ?blk \<and> ?nr \<le> q mod 1024 \<and> q mod 1024 < ?nr + len
           then prog (content (flash s) (PFLASH1_BASE + ucast (i_data i ! (q div 1024)) * BLOCK_SZ + of_nat (q mod 1024)))
             (mem s (buf + of_nat (o' + (q mod 1024 - ?nr))))
           else content (flash s) (PFLASH1_BASE + ucast (i_data i ! (q div 1024)) * BLOCK_SZ + of_nat (q mod 1024)))"
        by (rule c(12) [OF zone_small]) simp
      show ?thesis
        unfolding file_byte_def a zone_eq [OF al q] cp(1)
        by (rule if_cong [OF refl _ refl]) (use cp(2) [of q] in metis)
    qed
    have bn: "(buf, n) \<in> live s" "n \<le> 4096" using less.prems(1,6) live_size by (auto simp: others_def cache_inv_def)
    have same: "mem s4 (buf + of_nat (o' + j)) = mem s (buf + of_nat (o' + j))" if "j < l" for j
    proof -
      have "o' + j < n" using that less.prems(8) by linarith
      then have "in_block buf n (buf + of_nat (o' + j))" using bn(2) by (rule object_byte)
      then show ?thesis using c(11) less.prems(6) unfolding kept_def by blast
    qed
    have "file_byte (content (flash s')) i q =
       (if p \<le> q \<and> q < p + l then prog (file_byte (content (flash s)) i q) (mem s (buf + of_nat (o' + (q - p))))
        else file_byte (content (flash s)) i q)" if q: "q < 7168" for q
    proof -
      have l: "p + len + (l - len) = p + l" using len(3) by linarith
      consider "p + len \<le> q" "q < p + l" | "\<not> (p + len \<le> q \<and> q < p + l)" by blast
      then show ?thesis
      proof cases
        case 1
        then have e: "o' + len + (q - (p + len)) = o' + (q - p)" "q - p < l" "p \<le> q" "\<not> (p \<le> q \<and> q < p + len)" by linarith+
        show ?thesis using IH(7) [OF q, unfolded l e(1)] 1 same [OF e(2)] e(3) here [OF q, unfolded if_not_P [OF e(4)]]
          by (simp only: if_True conj_absorb)
      next
        case 2
        then have "p \<le> q \<and> q < p + l \<longleftrightarrow> p \<le> q \<and> q < p + len" using len(3) by linarith
        then show ?thesis using IH(7) [OF q, unfolded l] 2 here [OF q] by (simp only: if_False)
      qed
    qed
    then show ?thesis using step IH(1-3,8) outside room' order_trans [OF c(10) IH(4)] kept_trans [OF c(11) kept_mono [OF IH(5) c(10)]]
      by (intro exI [of _ s'] exI [of _ bs']) simp
  qed
qed

end

section \<open>Files\<close>

lemma files_others [simp]: "others (s\<lparr>files := g\<rparr>) bs = others s bs" "free_count (s\<lparr>files := g\<rparr>) = free_count s"
  "cache_single Z (s\<lparr>files := g\<rparr>) bs = cache_single Z s bs"
proof -
  have "data_of (s\<lparr>files := g\<rparr>) = data_of s" by (simp add: data_of_def fun_eq_iff)
  then show "others (s\<lparr>files := g\<rparr>) bs = others s bs" by (simp add: others_def owned_def)
qed (simp_all add: free_count_def used_pages_def cache_single_def)

text \<open>
  What the file and the machine must be for a write of \<open>count\<close> bytes at the position of the file: the
  range lies in the direct blocks, and no other block of the file has the zone of a block in the range.
\<close>

definition writable :: "inode \<Rightarrow> file_struct \<Rightarrow> int \<Rightarrow> bool" where
  "writable i x count \<longleftrightarrow> 0 < count \<and> uint (f_pos x) + count \<le> 7168 \<and>
     (\<forall>q. unat (f_pos x) \<le> q \<longrightarrow> q < unat (f_pos x) + nat count \<longrightarrow> zone_alone i (q div 1024))"

lemma file_write_run:
  fixes s :: "('f, 'a) fs_state_scheme"
  assumes "flash_untimed fl content ready status polls prog" "cache_inv content ready (file_zones i) s bs"
    and "cache_clean (s_bd sb) (file_zones i) s bs" "cache_single (file_zones i) s bs"
    and "files s f = Some x" "inodes s (f_inode x) = Some i" "i_op i = Minix_inode_operations" "sbs s (i_sb i) = Some sb"
    and "bdevs s (s_bd sb) \<noteq> None" "(buf, n) \<in> others s bs" "nat count \<le> n" "writable i x count" "28 \<le> free_count s"
  shows "\<exists>s' bs'. file_write fl f buf count s = Inr (count, s') \<and> cache_inv content ready (file_zones i) s' bs' \<and>
    cache_clean (s_bd sb) (file_zones i) s' bs' \<and> cache_single (file_zones i) s' bs' \<and>
    files s' f = Some (x\<lparr>f_pos := f_pos x + word_of_int count\<rparr>) \<and> others s bs \<subseteq> others s' bs' \<and>
    inodes s' = inodes s \<and> sbs s' = sbs s \<and> bdevs s' = bdevs s \<and> free_count s \<le> free_count s' + 28 \<and>
    (\<forall>q < 7168. file_byte (content (flash s')) i q = (if unat (f_pos x) \<le> q \<and> q < unat (f_pos x) + nat count
       then prog (file_byte (content (flash s)) i q) (mem s (buf + of_nat (q - unat (f_pos x))))
       else file_byte (content (flash s)) i q)) \<and>
    (\<forall>a < nr_blocks. a \<notin> file_zones i \<longrightarrow> (\<forall>k < 1024. content (flash s') (PFLASH1_BASE + a * BLOCK_SZ + of_nat k) =
       content (flash s) (PFLASH1_BASE + a * BLOCK_SZ + of_nat k)))"
proof -
  let ?p = "unat (f_pos x)" and ?l = "nat count"
  have wr: "0 < count" "uint (f_pos x) + count \<le> 7168" using assms(12) by (simp_all add: writable_def)
  have al: "zone_alone i (q div 1024)" if "?p \<le> q" "q < ?p + ?l" for q using assms(12) that by (simp add: writable_def)
  have p: "int ?p = uint (f_pos x)" "int ?l = count" using wr(1) by simp_all
  have pl: "?p + ?l \<le> 7168" "0 + ?l \<le> n" "0 < ?l \<longrightarrow> 4 * (7 - ?p div 1024) \<le> free_count s" using assms(11,13) wr p by linarith+
  obtain s1 bs' where r: "minix_write_loop fl (f_inode x) (buf + of_nat 0) (int ?p) (int ?l) s = Inr (True, s1)"
      "cache_inv content ready (file_zones i) s1 bs'" "cache_clean (s_bd sb) (file_zones i) s1 bs'" "cache_single (file_zones i) s1 bs'"
      "others s bs \<subseteq> others s1 bs'" "kept (others s bs) s s1"
      "free_count s \<le> free_count s1 + (if ?l = 0 then 0 else 4 * (7 - ?p div 1024))"
      "\<forall>q < 7168. file_byte (content (flash s1)) i q = (if ?p \<le> q \<and> q < ?p + ?l
         then prog (file_byte (content (flash s)) i q) (mem s (buf + of_nat (0 + (q - ?p)))) else file_byte (content (flash s)) i q)"
      "\<forall>a < nr_blocks. a \<notin> file_zones i \<longrightarrow> (\<forall>k < 1024. content (flash s1) (PFLASH1_BASE + a * BLOCK_SZ + of_nat k) =
         content (flash s) (PFLASH1_BASE + a * BLOCK_SZ + of_nat k))"
    using flash_untimed.write_loop_direct [OF assms(1-3,9,6,8,10) pl assms(4) al subset_refl file_zones_small] by blast
  have t: "to_int (f_pos x) = int ?p" using to_int_small [of "f_pos x"] wr p(1) by simp
  have "minix_write fl (f_inode x) buf (to_int (f_pos x)) count s = Inr (count, s1)"
    using r(1) wr(1) unfolding t minix_write_def p(2) by simp
  then have "file_write fl f buf count s = Inr (count, s1\<lparr>files := (files s)(f \<mapsto> x\<lparr>f_pos := f_pos x + word_of_int count\<rparr>)\<rparr>)"
    using assms(5-7) wr(1) r(6) by (simp add: file_write_def with_file_def kept_def)
  moreover have "free_count s \<le> free_count s1 + 28" using r(7) by (auto split: if_splits)
  ultimately show ?thesis using r(2-6,8,9)
    by (intro exI [of _ "s1\<lparr>files := (files s)(f \<mapsto> x\<lparr>f_pos := f_pos x + word_of_int count\<rparr>)\<rparr>"] exI [of _ bs'])
      (simp add: kept_def)
qed

section \<open>Properties\<close>

text \<open>C13: Writing a file works through all layers, on a flash chip that programs a byte before the next command.
  The range lies inside the seven direct blocks (7168 bytes), no other direct block of the file has the zone of a
  block in the range (so at most one block of a written file is unallocated), 28 pages are free, and each of the seven blocks has
  at most one buffer, a clean one of the file's device; buffers of other blocks may be there in any number and
  state. Then \<^verbatim>\<open>file_write\<close> from a kernel object that is not a buffer returns the asked count and
  moves the position by it. Each byte of the file in the range is what programming the new byte into the old one
  gives, as the driver never erases; the other bytes of the file and all blocks of the disk that are not
  among the seven are as before. The size of the file does not grow.\<close>

theorem file_write_direct:
  fixes s :: "('f, 'a) fs_state_scheme"
  assumes "flash_untimed fl content ready status polls prog" "cache_inv content ready (file_zones i) s bs"
    and "cache_clean (s_bd sb) (file_zones i) s bs" "cache_single (file_zones i) s bs"
    and "files s f = Some x" "inodes s (f_inode x) = Some i" "i_op i = Minix_inode_operations" "sbs s (i_sb i) = Some sb"
    and "bdevs s (s_bd sb) \<noteq> None" "(buf, n) \<in> others s bs" "nat count \<le> n" "writable i x count" "28 \<le> free_count s"
  shows "\<exists>s' bs'. file_write fl f buf count s = Inr (count, s') \<and> cache_inv content ready (file_zones i) s' bs' \<and>
    cache_clean (s_bd sb) (file_zones i) s' bs' \<and> cache_single (file_zones i) s' bs' \<and>
    files s' f = Some (x\<lparr>f_pos := f_pos x + word_of_int count\<rparr>) \<and> inodes s' = inodes s \<and>
    (\<forall>q < 7168. file_byte (content (flash s')) i q = (if unat (f_pos x) \<le> q \<and> q < unat (f_pos x) + nat count
       then prog (file_byte (content (flash s)) i q) (mem s (buf + of_nat (q - unat (f_pos x))))
       else file_byte (content (flash s)) i q)) \<and>
    (\<forall>a < nr_blocks. a \<notin> file_zones i \<longrightarrow> (\<forall>k < 1024. content (flash s') (PFLASH1_BASE + a * BLOCK_SZ + of_nat k) =
       content (flash s) (PFLASH1_BASE + a * BLOCK_SZ + of_nat k)))"
  using file_write_run [OF assms] by blast

text \<open>C4: What is written is read back. Under the conditions of a write within the seven direct blocks (no shared
  zone in the range, at most one buffer of each of the seven blocks and that one clean, a chip that programs a byte before
  the next command), with 56 free pages and a position within the size of the file, \<^verbatim>\<open>file_write\<close> of a kernel object,
  \<^verbatim>\<open>file_lseek\<close> to the old position and \<^verbatim>\<open>file_read\<close> into another object (or the same) all succeed.
  If no byte of the file needs a bit that is 0 set to 1, which flash memory can not do without the erase the driver
  lacks, the second object then has exactly the bytes of the first.\<close>

theorem file_write_read:
  fixes s :: "('f, 'a) fs_state_scheme"
  assumes "flash_untimed fl content ready status polls prog" "cache_inv content ready (file_zones i) s bs"
    and "cache_clean (s_bd sb) (file_zones i) s bs" "cache_single (file_zones i) s bs"
    and "files s f = Some x" "inodes s (f_inode x) = Some i" "i_op i = Minix_inode_operations" "sbs s (i_sb i) = Some sb"
    and "bdevs s (s_bd sb) \<noteq> None" "(buf, n) \<in> others s bs" "nat count \<le> n" "(dst, nd) \<in> others s bs" "nat count \<le> nd"
    and "writable i x count" "56 \<le> free_count s" "f_pos x \<le> i_size i"
    and "\<forall>k < nat count. file_byte (content (flash s)) i (unat (f_pos x) + k) AND mem s (buf + of_nat k) = mem s (buf + of_nat k)"
  shows "\<exists>s1 s2 s3. file_write fl f buf count s = Inr (count, s1) \<and>
    file_lseek f (uint (f_pos x)) SEEK_SET s1 = Inr (uint (f_pos x), s2) \<and> file_read fl f dst count s2 = Inr (count, s3) \<and>
    (\<forall>k < nat count. mem s3 (dst + of_nat k) = mem s (buf + of_nat k))"
proof -
  note fd = flash_untimed.axioms(1) [OF assms(1)]
  have room: "28 \<le> free_count s" and wr: "0 < count" "uint (f_pos x) + count \<le> 7168" using assms(14,15) by (simp_all add: writable_def)
  obtain s1 bs1 where w: "file_write fl f buf count s = Inr (count, s1)" "cache_inv content ready (file_zones i) s1 bs1"
      "cache_clean (s_bd sb) (file_zones i) s1 bs1" "files s1 f = Some (x\<lparr>f_pos := f_pos x + word_of_int count\<rparr>)"
      "others s bs \<subseteq> others s1 bs1" "inodes s1 = inodes s" "sbs s1 = sbs s" "bdevs s1 = bdevs s" "free_count s \<le> free_count s1 + 28"
      "\<forall>q < 7168. file_byte (content (flash s1)) i q = (if unat (f_pos x) \<le> q \<and> q < unat (f_pos x) + nat count
         then prog (file_byte (content (flash s)) i q) (mem s (buf + of_nat (q - unat (f_pos x))))
         else file_byte (content (flash s)) i q)"
    using file_write_run [OF assms(1-11,14) room] by blast
  let ?s2 = "s1\<lparr>files := (files s1)(f \<mapsto> x)\<rparr>"
  have "- 2147483648 \<le> uint (f_pos x)" by (rule order_trans [of _ 0]) simp_all
  then have fi: "fits_int (uint (f_pos x))" using wr by (simp add: fits_int_def)
  have "x\<lparr>f_pos := f_pos x + word_of_int count, f_pos := f_pos x\<rparr> = x" by simp
  then have l: "file_lseek f (uint (f_pos x)) SEEK_SET s1 = Inr (uint (f_pos x), ?s2)"
    using w(4,6) assms(6) fi leD [OF assms(16)] by (simp add: file_lseek_def SEEK_SET_def with_file_def Let_def)
  have "(dst, nd) \<in> others ?s2 bs1" using w(5) assms(12) by auto
  then have b2: "(dst, nd) \<in> live ?s2" "dst \<notin> owned ?s2 bs1" unfolding others_def by simp_all
  have pre: "cache_inv content ready (file_zones i) ?s2 bs1" "cache_clean (s_bd sb) (file_zones i) ?s2 bs1" "files ?s2 f = Some x"
      "inodes ?s2 (f_inode x) = Some i" "sbs ?s2 (i_sb i) = Some sb" "bdevs ?s2 (s_bd sb) \<noteq> None" "28 \<le> free_count ?s2"
    using w(2,3,6-9) assms(6,8,9,15) by simp_all
  obtain s3 where r: "file_read fl f dst count ?s2 = Inr (count, s3)"
      "\<forall>k < nat count. mem s3 (dst + of_nat k) = file_byte (content (flash ?s2)) i (unat (f_pos x) + k)"
    using file_read_run [OF fd pre(1-4) assms(7) pre(5,6) b2 assms(13) wr pre(7)] by blast
  have "int (unat (f_pos x)) + count \<le> 7168" using wr(2) by simp
  then have q: "unat (f_pos x) + k < 7168" if "k < nat count" for k using that by linarith
  have "mem s3 (dst + of_nat k) = mem s (buf + of_nat k)" if "k < nat count" for k
    using r(2) w(10) [rule_format, OF q [OF that]] that flash_device.program_clears [OF fd] assms(17) by simp
  then show ?thesis using w(1) l r(1) by blast
qed

lemma boot_writable: "writable (the (inodes boot_fs 0xffff000000096000)) \<lparr>f_inode = 0xffff000000096000, f_count = 1, f_flags = 0, f_pos = 100\<rparr> 200"
proof -
  let ?i = "the (inodes boot_fs 0xffff000000096000)"
  have e: "{..<7} = {0, 1, 2, 3, 4, 5, 6 :: nat}" by auto
  have "zone_alone ?i 0 \<longleftrightarrow> (\<forall>b \<in> {..<7}. i_data ?i ! b = i_data ?i ! 0 \<longrightarrow> b = 0)" unfolding zone_alone_def by blast
  then have "zone_alone ?i 0" unfolding e by (simp add: boot_fs_fields)
  then show ?thesis by (simp add: writable_def)
qed

theorem file_write_direct_witness:
  "\<exists>b s0 buf s s'. boot_twice = Inr (b, s0) \<and> kmalloc 512 s0 = Inr (buf, s) \<and>
     file_write sim_flash 0xffff000000094000 buf 200 s = Inr (200, s') \<and>
     chip_array (flash s') (PFLASH1_BASE + 3 * 1024 + 107) = 3 AND mem s (buf + 7)"
proof -
  let ?x = "\<lparr>f_inode = 0xffff000000096000, f_count = 1, f_flags = 0, f_pos = 100\<rparr>" and ?i = "the (inodes boot_fs 0xffff000000096000)"
  obtain b s0 buf n s c where k: "boot_twice = Inr (b, s0)" "kmalloc 512 s0 = Inr (buf, s)" "512 \<le> n" "(buf, n) \<in> others s [b, c]" "56 \<le> free_count s"
      "cache_inv chip_array chip_ready UNIV s [b, c]" "inodes s = inodes boot_fs" "sbs s = sbs boot_fs"
      "bdevs s = bdevs boot_fs" "files s = files boot_fs" "\<forall>b \<in> {b, c}. \<exists>h. bhs s b = Some h \<and> blk_no h = 2"
      "flash s = flash s0" "chip_array (flash s0) = chip_array (flash boot_fs)"
    using boot_object by blast
  note cl = cache_inv_mono [OF k(6), of "file_zones ?i"] boot_object_clean [OF k(11) refl]
  obtain s' where w: "file_write sim_flash 0xffff000000094000 buf 200 s = Inr (200, s')"
      "\<forall>q < 7168. file_byte (chip_array (flash s')) ?i q = (if 100 \<le> q \<and> q < 300
        then file_byte (chip_array (flash s)) ?i q AND mem s (buf + of_nat (q - 100)) else file_byte (chip_array (flash s)) ?i q)"
    using file_write_direct [OF sim.flash_untimed_axioms cl, where sb = "\<lparr>s_bd = 0xffff000000093000, s_fs_info = NULL\<rparr>" and f = "0xffff000000094000"
        and x = ?x and buf = buf and n = n and count = 200] k boot_writable
    by (auto simp: boot_fs_fields)
  have "chip_array (flash s) (3179 + PFLASH1_BASE) = 3"
    using k(12,13) by (simp add: boot_fs_def task_state.defs fs_state.defs PFLASH1_BASE_def)
  then have "chip_array (flash s') (PFLASH1_BASE + 3 * 1024 + 107) = 3 AND mem s (buf + 7)"
    using w(2) [rule_format, of 107] by (simp add: file_byte_def boot_fs_fields BLOCK_SZ_def)
  then show ?thesis using k(1,2) w(1) by blast
qed

theorem file_write_read_witness:
  "\<exists>b s0 buf s s1 s2 s3. boot_twice = Inr (b, s0) \<and> kmalloc 512 s0 = Inr (buf, s) \<and>
     file_write sim_flash 0xffff000000094000 buf 200 (s\<lparr>mem := (\<lambda>x. if unat (x - buf) < 200 then 2 else mem s x)\<rparr>) = Inr (200, s1) \<and>
     file_lseek 0xffff000000094000 100 SEEK_SET s1 = Inr (100, s2) \<and> file_read sim_flash 0xffff000000094000 buf 200 s2 = Inr (200, s3) \<and>
     mem s3 (buf + 7) = 2"
proof -
  let ?x = "\<lparr>f_inode = 0xffff000000096000, f_count = 1, f_flags = 0, f_pos = 100\<rparr>" and ?i = "the (inodes boot_fs 0xffff000000096000)"
  obtain b s0 buf n s c where k: "boot_twice = Inr (b, s0)" "kmalloc 512 s0 = Inr (buf, s)" "512 \<le> n" "(buf, n) \<in> others s [b, c]" "56 \<le> free_count s"
      "cache_inv chip_array chip_ready UNIV s [b, c]" "inodes s = inodes boot_fs" "sbs s = sbs boot_fs"
      "bdevs s = bdevs boot_fs" "files s = files boot_fs" "\<forall>b \<in> {b, c}. \<exists>h. bhs s b = Some h \<and> blk_no h = 2"
      "flash s = flash s0" "chip_array (flash s0) = chip_array (flash boot_fs)"
    using boot_object by blast
  let ?m = "\<lambda>x. if unat (x - buf) < 200 then 2 else mem s x"
  let ?s = "s\<lparr>mem := ?m\<rparr>"
  have bl: "(buf, n) \<in> live s" "buf \<notin> data_of s ` set [b, c]" using k(4) by (auto simp: others_def owned_def)
  have m: "?m x = mem s x" if "\<not> in_block buf n x" for x using that k(3) by (simp add: in_block_def)
  note w = cache_inv_write [OF k(6) bl m]
  have d: "data_of ?s = data_of s" by (simp add: data_of_def fun_eq_iff)
  have o: "(buf, n) \<in> others ?s [b, c]" using k(4) w(2) d by (simp add: others_def owned_def)
  have t: "\<forall>b \<in> {b, c}. \<exists>h. bhs ?s b = Some h \<and> blk_no h = 2" using k(11) by simp
  note cl = cache_inv_mono [OF w(1), of "file_zones ?i"] boot_object_clean [OF t refl]
  have old: "file_byte (chip_array (flash ?s)) ?i (100 + j) AND ?m (buf + of_nat j) = ?m (buf + of_nat j)" if "j < 200" for j
  proof -
    have "(100 + j) div 1024 = 0" "(100 + j) mod 1024 = 100 + j" using that by simp_all
    then have "file_byte (chip_array (flash ?s)) ?i (100 + j) = ucast (drop_bit 10 (PFLASH1_BASE + 3 * BLOCK_SZ + of_nat (100 + j)))"
      using k(12,13) by (simp add: file_byte_def boot_fs_fields) (simp add: boot_fs_def task_state.defs fs_state.defs)
    moreover have "drop_bit 10 (PFLASH1_BASE + 3 * BLOCK_SZ + of_nat (100 + j)) = PFLASH1_BASE div 1024 + 3"
    proof (rule word_unat_eq_iff [THEN iffD2])
      have "unat (PFLASH1_BASE + 3 * BLOCK_SZ + of_nat (100 + j)) = 0xffff000400000c00 + (100 + j)"
        using that by (simp add: PFLASH1_BASE_def BLOCK_SZ_def unat_word_ariths unat_of_nat)
      moreover have "(0xffff000400000c00 + (100 + j)) div 1024 = (0xffff000400000c00 :: nat) div 1024" using that by simp
      ultimately show "unat (drop_bit 10 (PFLASH1_BASE + 3 * BLOCK_SZ + of_nat (100 + j)) :: u64) = unat (PFLASH1_BASE div 1024 + 3)"
        by (simp add: drop_bit_eq_div unat_div_distrib PFLASH1_BASE_def)
    qed
    ultimately show ?thesis using that by (simp add: unat_of_nat PFLASH1_BASE_def)
  qed
  obtain s1 s2 s3 where r: "file_write sim_flash 0xffff000000094000 buf 200 ?s = Inr (200, s1)"
      "file_lseek 0xffff000000094000 100 SEEK_SET s1 = Inr (100, s2)" "file_read sim_flash 0xffff000000094000 buf 200 s2 = Inr (200, s3)"
      "\<forall>j < 200. mem s3 (buf + of_nat j) = ?m (buf + of_nat j)"
    using file_write_read [OF sim.flash_untimed_axioms cl, where sb = "\<lparr>s_bd = 0xffff000000093000, s_fs_info = NULL\<rparr>" and f = "0xffff000000094000"
        and x = ?x and buf = buf and n = n and dst = buf and nd = n and count = 200] k(3,5,7-10) o w(3) boot_writable old
    by (auto simp: boot_fs_fields)
  have "mem s3 (buf + 7) = 2" using r(4) [rule_format, of 7] by simp
  then show ?thesis using k(1,2) r(1-3) by blast
qed

end
