(* ===== verification/Sys_File.thy ===== *)
theory Sys_File
  imports Syscall File_Write
begin

text \<open>
  The system calls for files from the registers of the caller to the flash chip: how they check
  their arguments, what a read does, and what it does with an address that is not the caller's.
\<close>

section \<open>System calls on the layers below\<close>

text \<open>Unmasking interrupts changes nothing the file system looks at.\<close>

lemma enable_irq_fs [simp]:
  fixes s :: "('f, 'a) fs_state_scheme"
  shows "tasks (enable_irq s) = tasks s" "get_current (enable_irq s) = get_current s" "files (enable_irq s) = files s"
    "inodes (enable_irq s) = inodes s" "sbs (enable_irq s) = sbs s" "bdevs (enable_irq s) = bdevs s" "mem (enable_irq s) = mem s"
    "flash (enable_irq s) = flash s" "bhs (enable_irq s) = bhs s" "lists (enable_irq s) = lists s" "bh_head (enable_irq s) = bh_head s"
    "live (enable_irq s) = live s" "km_inv (enable_irq s) = km_inv s" "free_count (enable_irq s) = free_count s"
  by (simp_all add: enable_irq_def msr_DAIFClr_def get_current_def km_inv_def km_rel_def desc_ok_def desc_of_def obj_pages_def live_def
      used_pages_def mm_inv_def free_count_def)

lemma enable_irq_cache [simp]:
  fixes s :: "('f, 'a) fs_state_scheme"
  shows "cache_inv content ready Z (enable_irq s) bs = cache_inv content ready Z s bs"
    "cache_clean bd Z (enable_irq s) bs = cache_clean bd Z s bs" "owned (enable_irq s) bs = owned s bs"
proof -
  have d: "data_of (enable_irq s) = data_of s" by (simp add: data_of_def fun_eq_iff)
  show "cache_inv content ready Z (enable_irq s) bs = cache_inv content ready Z s bs"
    unfolding cache_inv_def buffer_ok_def holds_block_def d by simp
  show "owned (enable_irq s) bs = owned s bs" unfolding owned_def d by simp
qed (simp add: cache_clean_def)

lemma disable_irq_mem [simp]: "mem (disable_irq s) = mem s"
  by (simp add: disable_irq_def msr_DAIFSet_def)



section \<open>Properties\<close>




text \<open>The kernel after boot whose first task has the file open at descriptor 3.\<close>

lemma tasks_cache [simp]:
  fixes s :: "('f, 'a) fs_state_scheme"
  shows "cache_inv content ready Z (s\<lparr>tasks := g\<rparr>) bs = cache_inv content ready Z s bs"
    "cache_clean bd Z (s\<lparr>tasks := g\<rparr>) bs = cache_clean bd Z s bs" "owned (s\<lparr>tasks := g\<rparr>) bs = owned s bs"
    "live (s\<lparr>tasks := g\<rparr>) = live s" "free_count (s\<lparr>tasks := g\<rparr>) = free_count s"
proof -
  have d: "data_of (s\<lparr>tasks := g\<rparr>) = data_of s" by (simp add: data_of_def fun_eq_iff)
  show l: "live (s\<lparr>tasks := g\<rparr>) = live s" and "free_count (s\<lparr>tasks := g\<rparr>) = free_count s"
    by (simp_all add: live_def desc_of_def free_count_def used_pages_def)
  have k: "km_inv (s\<lparr>tasks := g\<rparr>) = km_inv s"
    by (simp add: km_inv_def km_rel_def desc_ok_def desc_of_def obj_pages_def used_pages_def mm_inv_def)
  show "cache_inv content ready Z (s\<lparr>tasks := g\<rparr>) bs = cache_inv content ready Z s bs"
    unfolding cache_inv_def buffer_ok_def holds_block_def d l k by simp
  show "owned (s\<lparr>tasks := g\<rparr>) bs = owned s bs" unfolding owned_def d by simp
qed (simp add: cache_clean_def)


end
