(* ===== verification/Vectors.thy ===== *)
theory Vectors
  imports Task
begin

text \<open>
  The assembly code of \<^verbatim>\<open>arch/vector.S\<close> on the registers of the processor: saving and restoring the interrupted
  context around an exception, the return of a system call, and the switch between two tasks. The other theories see
  these as operations on the abstract contexts of tasks; the properties here say that the code does what they assume.
\<close>

section \<open>Registers\<close>

text \<open>
  \<open>xreg n\<close> is the register \<open>xn\<close>; \<open>sp_el1\<close> is the stack pointer of the kernel, \<open>pc\<close> and \<open>pstate\<close> are what the
  processor continues with.
\<close>

record vcpu =
  xreg :: "nat \<Rightarrow> u64"
  sp_el1 :: u64
  sp_el0 :: u64
  elr_el1 :: u64
  spsr_el1 :: u64
  pc :: u64
  pstate :: u64
  ram :: memory

definition stp :: "u64 \<Rightarrow> u64 \<Rightarrow> u64 \<Rightarrow> memory \<Rightarrow> memory" where
  "stp a b addr m = store64 (store64 m addr a) (addr + 8) b"

definition ldp :: "nat \<Rightarrow> nat \<Rightarrow> u64 \<Rightarrow> memory \<Rightarrow> (nat \<Rightarrow> u64) \<Rightarrow> nat \<Rightarrow> u64" where
  "ldp a b addr m x = x(a := load64 m addr, b := load64 m (addr + 8))"

definition eret :: "vcpu \<Rightarrow> vcpu" where
  "eret c = c\<lparr>pc := elr_el1 c, pstate := spsr_el1 c\<rparr>"

section \<open>Exceptions\<close>

definition entry_frame :: "nat \<Rightarrow> vcpu \<Rightarrow> vcpu" where
  "entry_frame el c =
     (let sp = sp_el1 c - FRAME_SZ;
          m = fold (\<lambda>k. stp (xreg c (2 * k)) (xreg c (2 * k + 1)) (sp + 16 * of_nat k)) [0 ..< 15] (ram c);
          x21 = (if el = 0 then sp_el0 c else sp + FRAME_SZ);
          x22 = elr_el1 c;
          x23 = spsr_el1 c;
          m = stp (xreg c 30) x21 (sp + 16 * 15) m;
          m = stp x22 x23 (sp + 16 * 16) m
      in c\<lparr>sp_el1 := sp, ram := m, xreg := (xreg c)(21 := x21, 22 := x22, 23 := x23)\<rparr>)"

definition exit_frame :: "nat \<Rightarrow> vcpu \<Rightarrow> vcpu" where
  "exit_frame el c =
     (let sp = sp_el1 c; m = ram c;
          x = ldp 22 23 (sp + 16 * 16) m (xreg c);
          x = ldp 30 21 (sp + 16 * 15) m x;
          c = (if el = 0 then c\<lparr>sp_el0 := x 21\<rparr> else c);
          c = c\<lparr>elr_el1 := x 22, spsr_el1 := x 23\<rparr>;
          x = fold (\<lambda>k. ldp (2 * k) (2 * k + 1) (sp + 16 * of_nat k) m) [0 ..< 15] x
      in eret (c\<lparr>xreg := x, sp_el1 := sp + FRAME_SZ\<rparr>))"

definition X0_OFFSET :: u64 where "X0_OFFSET = FRAME_SZ"

text \<open>The end of \<^verbatim>\<open>el0_svc\<close>: the result of the handler replaces the saved \<^verbatim>\<open>x0\<close>.\<close>

definition svc_return :: "vcpu \<Rightarrow> vcpu" where
  "svc_return c =
     (let x13 = sp_el1 c + FRAME_SZ - X0_OFFSET
      in exit_frame 0 (c\<lparr>xreg := (xreg c)(13 := x13), ram := store64 (ram c) x13 (xreg c 0)\<rparr>))"

section \<open>Tasks\<close>

definition switch_regs :: "u64 \<Rightarrow> u64 \<Rightarrow> vcpu \<Rightarrow> vcpu" where
  "switch_regs prev next c =
     (let m = fold (\<lambda>k. stp (xreg c (19 + 2 * k)) (xreg c (20 + 2 * k)) (prev + 16 * of_nat k)) [0 ..< 5] (ram c);
          m = stp (xreg c 29) (sp_el1 c) (prev + 80) m;
          m = store64 m (prev + 96) (xreg c 30);
          x = (xreg c)(0 := prev, 1 := next, 10 := 0);
          x = fold (\<lambda>k. ldp (19 + 2 * k) (20 + 2 * k) (next + 16 * of_nat k) m) [0 ..< 5] x;
          x = ldp 29 9 (next + 80) m x;
          x = x(8 := next + 96, 30 := load64 m (next + 96))
      in c\<lparr>ram := m, xreg := x, sp_el1 := x 9, pc := x 30\<rparr>)"

section \<open>Words in memory\<close>

definition words_at :: "memory \<Rightarrow> u64 \<Rightarrow> nat \<Rightarrow> u64" where
  "words_at m p k = load64 m (p + 8 * of_nat k)"

lemma apart_words:
  assumes "j < 2 ^ 60" "k < 2 ^ 60" "j \<noteq> k"
  shows "apart8 (p + 8 * of_nat j) (p + 8 * of_nat k)"
proof -
  have u: "unat (8 * of_nat n :: u64) = 8 * n" if "n < 2 ^ 60" for n using that by (simp add: unat_word_ariths unat_of_nat)
  have e: "(p + 8 * of_nat a) - (p + 8 * of_nat b) = (8 * of_nat a :: u64) - 8 * of_nat b" for a b by simp
  have "8 \<le> (8 * of_nat a :: u64) - 8 * of_nat b" if "a < 2 ^ 60" "b < 2 ^ 60" "a \<noteq> b" for a b
    using that by (simp add: word_le_nat_alt unat_sub_if' u) arith
  then show ?thesis using assms unfolding apart8_def e by blast
qed

lemma stores_words:
  assumes "j < 2 ^ 60" "n \<le> 2 ^ 60"
  shows "words_at (fold (\<lambda>k m. store64 m (p + 8 * of_nat k) (f k)) [0 ..< n] m) p j = (if j < n then f j else words_at m p j)"
  using assms(2)
proof (induction n)
  case 0
  then show ?case by simp
next
  case (Suc n)
  show ?case
  proof (cases "j = n")
    case True
    then show ?thesis by (simp add: words_at_def)
  next
    case False
    then have "apart8 (p + 8 * of_nat j) (p + 8 * of_nat n)" using assms(1) Suc.prems by (intro apart_words) simp_all
    then show ?thesis using Suc False by (auto simp: words_at_def load64_store64_apart)
  qed
qed

lemma words_of_pages_apart:
  assumes "page_aligned p" "page_aligned q" "p \<noteq> q" "j < 512" "k < 512"
  shows "apart8 (p + 8 * of_nat j) (q + 8 * of_nat k)"
proof -
  obtain a b where ab: "unat p = 4096 * a" "unat q = 4096 * b" using assms(1,2) by (elim page_aligned_obtain)
  have u: "unat (8 * of_nat n :: u64) = 8 * n" if "n < 512" for n using that by (simp add: unat_word_ariths unat_of_nat)
  have "unat (p + 8 * of_nat j) = 4096 * a + 8 * j" "unat (q + 8 * of_nat k) = 4096 * b + 8 * k"
    using assms ab by (simp_all add: aligned_offset u)
  moreover have "p + 8 * of_nat j \<noteq> q + 8 * of_nat k"
  proof
    assume "p + 8 * of_nat j = q + 8 * of_nat k"
    then have "4096 * a + 8 * j = 4096 * b + 8 * k" using calculation by metis
    then have "a = b" using aligned_sum_eq [of a "8 * j" b "8 * k"] assms(4,5) by simp
    then show False using ab assms(3) by (simp add: word_unat_eq_iff)
  qed
  ultimately show ?thesis by (intro aligned8_apart) (simp_all add: mod_simps)
qed

lemma stores_other_page:
  assumes "page_aligned p" "page_aligned q" "p \<noteq> q" "j < 512" "n \<le> 512"
  shows "words_at (fold (\<lambda>k m. store64 m (q + 8 * of_nat k) (f k)) [0 ..< n] m) p j = words_at m p j"
  using assms(5) by (induction n) (simp_all add: words_at_def load64_store64_apart words_of_pages_apart [OF assms(1-4)])

abbreviation store_words :: "u64 \<Rightarrow> (nat \<Rightarrow> u64) \<Rightarrow> nat \<Rightarrow> memory \<Rightarrow> memory" where
  "store_words p f n m \<equiv> fold (\<lambda>k m. store64 m (p + 8 * of_nat k) (f k)) [0 ..< n] m"

text \<open>A sequence of stores and of loads of pairs.\<close>

lemma stp_sequence:
  "fold (\<lambda>k. stp (f (2 * k)) (f (2 * k + 1)) (p + 16 * of_nat k)) [0 ..< n] m = store_words p f (2 * n) m"
  by (induction n) (simp_all add: stp_def algebra_simps)

lemma ldp_sequence:
  "fold (\<lambda>k. ldp (a + 2 * k) (a + 2 * k + 1) (p + 16 * of_nat k) m) [0 ..< n] x =
    (\<lambda>i. if a \<le> i \<and> i < a + 2 * n then words_at m p (i - a) else x i)"
proof (induction n)
  case 0
  then show ?case by (auto simp: fun_eq_iff)
next
  case (Suc n)
  have "words_at m p (2 * n) = load64 m (p + 16 * of_nat n)" "words_at m p (2 * n + 1) = load64 m (p + 16 * of_nat n + 8)"
    by (simp_all add: words_at_def algebra_simps)
  then show ?case using Suc by (auto simp: ldp_def fun_eq_iff)
qed

section \<open>The frame of an exception\<close>

definition frame_words :: "nat \<Rightarrow> vcpu \<Rightarrow> nat \<Rightarrow> u64" where
  "frame_words el c k =
     (if k < 31 then xreg c k else if k = 31 then if el = 0 then sp_el0 c else sp_el1 c else if k = 32 then elr_el1 c else spsr_el1 c)"

lemma entry_frame_ram: "ram (entry_frame el c) = store_words (sp_el1 c - FRAME_SZ) (frame_words el c) 34 (ram c)"
proof -
  have "store_words p (frame_words el c) 30 m = store_words p (xreg c) 30 m" for p m
    by (rule fold_cong) (simp_all add: frame_words_def)
  moreover have "[0 ..< 34] = [0 ..< 30] @ [30, 31, 32, 33 :: nat]" using upt_add_eq_append [of 0 30 4] by (simp add: upt_rec)
  ultimately show ?thesis
    using stp_sequence [of "xreg c" "sp_el1 c - FRAME_SZ" 15 "ram c"]
    by (simp add: entry_frame_def frame_words_def stp_def Let_def add.commute [of _ "sp_el1 c - FRAME_SZ"] del: upt_rec_numeral)
qed

lemma entry_frame_words: "k < 34 \<Longrightarrow> words_at (ram (entry_frame el c)) (sp_el1 (entry_frame el c)) k = frame_words el c k"
  using stores_words [of k 34] by (simp add: entry_frame_ram) (simp add: entry_frame_def Let_def)

lemma exit_frame_regs:
  "i < 31 \<Longrightarrow> xreg (exit_frame el c) i = words_at (ram c) (sp_el1 c) i"
  "sp_el1 (exit_frame el c) = sp_el1 c + FRAME_SZ" "pc (exit_frame el c) = words_at (ram c) (sp_el1 c) 32"
  "pstate (exit_frame el c) = words_at (ram c) (sp_el1 c) 33"
  "sp_el0 (exit_frame el c) = (if el = 0 then words_at (ram c) (sp_el1 c) 31 else sp_el0 c)"
proof -
  assume "i < 31"
  then consider "i < 30" | "i = 30" by arith
  then show "xreg (exit_frame el c) i = words_at (ram c) (sp_el1 c) i"
    using ldp_sequence [of 0 "sp_el1 c" "ram c" 15]
    by cases (simp_all add: exit_frame_def eret_def Let_def ldp_def words_at_def)
qed (simp_all add: exit_frame_def eret_def Let_def ldp_def words_at_def add.commute [of _ "sp_el1 c"])

section \<open>The context of a task\<close>

text \<open>The \<^verbatim>\<open>struct cpu_context\<close> in memory, and the one in the registers.\<close>

definition context_of :: "(nat \<Rightarrow> u64) \<Rightarrow> cpu_context" where
  "context_of w = \<lparr>x19 = w 0, x20 = w 1, x21 = w 2, x22 = w 3, x23 = w 4, x24 = w 5, x25 = w 6, x26 = w 7, x27 = w 8, x28 = w 9,
     x29 = w 10, ctx_sp = w 11, ctx_pc = w 12\<rparr>"

definition live_context :: "vcpu \<Rightarrow> nat \<Rightarrow> u64" where
  "live_context c k = (if k < 11 then xreg c (19 + k) else if k = 11 then sp_el1 c else xreg c 30)"

lemma context_of_cong: "(\<And>k. k < 13 \<Longrightarrow> f k = g k) \<Longrightarrow> context_of f = context_of g"
  by (simp add: context_of_def)

lemma switch_ram: "ram (switch_regs prev next c) = store_words prev (live_context c) 13 (ram c)"
proof -
  have "store_words p (live_context c) 10 m = store_words p (\<lambda>k. xreg c (19 + k)) 10 m" for p m
    by (rule fold_cong) (simp_all add: live_context_def)
  moreover have "[0 ..< 13] = [0 ..< 10] @ [10, 11, 12 :: nat]" using upt_add_eq_append [of 0 10 3] by (simp add: upt_rec)
  ultimately show ?thesis
    using stp_sequence [of "\<lambda>k. xreg c (19 + k)" prev 5 "ram c"]
    by (simp add: switch_regs_def live_context_def stp_def Let_def add.commute [of _ prev] del: upt_rec_numeral)
qed

lemma switch_context: "k < 13 \<Longrightarrow> live_context (switch_regs prev next c) k = words_at (ram (switch_regs prev next c)) next k"
proof -
  assume "k < 13"
  then consider "k < 10" | "k = 10" | "k = 11" | "k = 12" by arith
  then show ?thesis
    using ldp_sequence [of 19 "next" "ram (switch_regs prev next c)" 5]
    by cases (simp_all add: live_context_def switch_regs_def Let_def ldp_def words_at_def add.commute [of _ "next"])
qed

section \<open>Properties\<close>

text \<open>What a handler owes to the interrupted code: the stack pointer and the 34 words of the frame.\<close>

definition same_frame :: "vcpu \<Rightarrow> vcpu \<Rightarrow> bool" where
  "same_frame c c' \<longleftrightarrow> sp_el1 c' = sp_el1 c \<and> (\<forall>k < 34. words_at (ram c') (sp_el1 c) k = words_at (ram c) (sp_el1 c) k)"

lemma same_frame_words: "same_frame (entry_frame el c) c' \<Longrightarrow> k < 34 \<Longrightarrow> words_at (ram c') (sp_el1 c') k = frame_words el c k"
  by (simp add: same_frame_def entry_frame_words)

lemma entry_frame_sp: "sp_el1 (entry_frame el c) = sp_el1 c - FRAME_SZ"
  by (simp add: entry_frame_def Let_def)

text \<open>C15: An exception does not disturb the code it interrupts: whatever the handler does to the registers, if it
  leaves the stack pointer \<^verbatim>\<open>sp_el1\<close> and the frame alone then the exit restores all general registers and \<^verbatim>\<open>sp_el1\<close>,
  and the processor continues at the interrupted instruction with the saved state. For an exception from a user
  program (level 0) the exit also restores its stack pointer \<^verbatim>\<open>sp_el0\<close>; for one from the kernel \<^verbatim>\<open>sp_el0\<close> is neither saved nor
  restored and is what the handler left in it.\<close>

theorem exception_frame_roundtrip:
  assumes "same_frame (entry_frame el c) c'"
  shows "(\<forall>i < 31. xreg (exit_frame el c') i = xreg c i) \<and> sp_el1 (exit_frame el c') = sp_el1 c \<and>
    pc (exit_frame el c') = elr_el1 c \<and> pstate (exit_frame el c') = spsr_el1 c \<and>
    sp_el0 (exit_frame el c') = (if el = 0 then sp_el0 c else sp_el0 c')"
proof -
  note w = same_frame_words [OF assms]
  have "sp_el1 c' = sp_el1 c - FRAME_SZ" using assms by (simp add: same_frame_def entry_frame_sp)
  then show ?thesis using w [of 31] w [of 32] w [of 33] w by (simp add: exit_frame_regs frame_words_def)
qed

text \<open>A system call returns its result in \<^verbatim>\<open>x0\<close> and nothing else: every other register of the program, its stack
  pointer and its state are as before the call, and it continues behind the call.\<close>

theorem svc_return_result:
  assumes "same_frame (entry_frame 0 c) c'"
  shows "xreg (svc_return c') 0 = xreg c' 0 \<and> (\<forall>i. 0 < i \<and> i < 31 \<longrightarrow> xreg (svc_return c') i = xreg c i) \<and>
    sp_el0 (svc_return c') = sp_el0 c \<and> sp_el1 (svc_return c') = sp_el1 c \<and> pc (svc_return c') = elr_el1 c \<and>
    pstate (svc_return c') = spsr_el1 c"
proof -
  let ?r = "c'\<lparr>xreg := (xreg c')(13 := sp_el1 c'), ram := store64 (ram c') (sp_el1 c') (xreg c' 0)\<rparr>"
  have r: "svc_return c' = exit_frame 0 ?r" by (simp add: svc_return_def X0_OFFSET_def Let_def)
  have sp: "sp_el1 c' = sp_el1 c - FRAME_SZ" using assms by (simp add: same_frame_def entry_frame_sp)
  have z: "words_at (ram ?r) (sp_el1 ?r) 0 = xreg c' 0" by (simp add: words_at_def)
  have w: "words_at (ram ?r) (sp_el1 ?r) k = frame_words 0 c k" if "0 < k" "k < 34" for k
  proof -
    have "apart8 (sp_el1 c' + 8 * of_nat k) (sp_el1 c' + 8 * of_nat 0)" using that by (intro apart_words) simp_all
    then show ?thesis using same_frame_words [OF assms that(2)] by (simp add: words_at_def load64_store64_apart)
  qed
  show ?thesis unfolding r using z w [of 31] w [of 32] w [of 33] w sp by (simp add: exit_frame_regs frame_words_def del: vcpu.select_convs)
qed

text \<open>C16: The code of \<^verbatim>\<open>cpu_switch_to\<close> does what the scheduler relies on: it stores the callee-saved registers, the
  stack pointer and the return address as the context of the task it leaves, goes on with exactly those of the
  context of the next task, at its return address, and changes no other context.\<close>

theorem switch_regs_refines:
  "let c' = switch_regs prev next c in
     context_of (words_at (ram c') prev) = context_of (live_context c) \<and>
     context_of (live_context c') = context_of (words_at (ram c') next) \<and>
     pc c' = ctx_pc (context_of (words_at (ram c') next)) \<and>
     (page_aligned prev \<and> page_aligned p \<and> p \<noteq> prev \<longrightarrow> context_of (words_at (ram c') p) = context_of (words_at (ram c) p))"
proof -
  let ?c = "switch_regs prev next c"
  have "context_of (words_at (ram ?c) prev) = context_of (live_context c)"
    unfolding switch_ram by (rule context_of_cong) (simp add: stores_words)
  moreover have "context_of (live_context ?c) = context_of (words_at (ram ?c) next)"
    by (rule context_of_cong) (rule switch_context)
  moreover have "pc ?c = ctx_pc (context_of (words_at (ram ?c) next))"
    using switch_context [of 12 prev "next" c] by (simp add: context_of_def) (simp add: live_context_def switch_regs_def Let_def)
  moreover have "context_of (words_at (ram ?c) p) = context_of (words_at (ram c) p)"
    if "page_aligned p" "page_aligned prev" "p \<noteq> prev"
    unfolding switch_ram by (rule context_of_cong, rule stores_other_page [OF that]) simp_all
  ultimately show ?thesis unfolding Let_def by blast
qed

text \<open>A program with the number of each register in it, and a handler that returns 42.\<close>

definition sample_cpu :: vcpu where
  "sample_cpu = \<lparr>xreg = (\<lambda>i. of_nat i), sp_el1 = 0xffff000000092000, sp_el0 = 0x3ffffff0, elr_el1 = 0x1004, spsr_el1 = 0,
     pc = 0xffff000000080400, pstate = 0x3c5, ram = (\<lambda>_. 0)\<rparr>"

lemma sample_frame: "same_frame (entry_frame el sample_cpu) ((entry_frame el sample_cpu)\<lparr>xreg := \<lambda>_. 42\<rparr>)"
  by (simp add: same_frame_def)

lemma exception_frame_roundtrip_witness:
  "xreg (exit_frame 1 ((entry_frame 1 sample_cpu)\<lparr>xreg := \<lambda>_. 42\<rparr>)) 22 = 22 \<and>
   pc (exit_frame 1 ((entry_frame 1 sample_cpu)\<lparr>xreg := \<lambda>_. 42\<rparr>)) = 0x1004"
proof -
  have "xreg sample_cpu 22 = 22" "elr_el1 sample_cpu = 0x1004" by (simp_all add: sample_cpu_def)
  then show ?thesis using exception_frame_roundtrip [OF sample_frame, of 1] by simp
qed

lemma svc_return_result_witness:
  "xreg (svc_return ((entry_frame 0 sample_cpu)\<lparr>xreg := \<lambda>_. 42\<rparr>)) 0 = 42 \<and>
   xreg (svc_return ((entry_frame 0 sample_cpu)\<lparr>xreg := \<lambda>_. 42\<rparr>)) 1 = 1 \<and>
   sp_el0 (svc_return ((entry_frame 0 sample_cpu)\<lparr>xreg := \<lambda>_. 42\<rparr>)) = 0x3ffffff0"
proof -
  have "xreg sample_cpu 1 = 1" "sp_el0 sample_cpu = 0x3ffffff0" by (simp_all add: sample_cpu_def)
  then show ?thesis using svc_return_result [OF sample_frame] by simp
qed

lemma switch_regs_refines_witness:
  "context_of (words_at (ram (switch_regs 0x1000 0x2000 sample_cpu)) 0x3000) = context_of (words_at (ram sample_cpu) 0x3000)"
  using switch_regs_refines [of "0x1000" "0x2000" sample_cpu "0x3000"] by (simp add: page_aligned_def Let_def)

end
