(* ===== verification/Start.thy ===== *)
theory Start
  imports Vectors Page_Table
begin

text \<open>
  \<^verbatim>\<open>arch/start.S\<close>, the code that runs first: it fills the page tables of the kernel and a temporary identity map, sets
  the system registers, turns the MMU on and jumps to \<^verbatim>\<open>init_main\<close>. The code runs at physical addresses, and so
  memory is indexed by them here. \<open>translate\<close> is the translation that the architecture defines for these registers; it
  says what the constants of \<^verbatim>\<open>include/mmu.h\<close> and the macros \<^verbatim>\<open>__va\<close> and \<^verbatim>\<open>__pa\<close> are worth.
\<close>

section \<open>Registers and constants\<close>

record boot_cpu =
  sctlr :: u64
  ttbr0 :: u64
  ttbr1 :: u64
  tcr :: u64
  mair :: u64
  vbar :: u64
  cpuectlr :: u64
  stack_ptr :: u64
  jumps_to :: u64
  phys :: memory

text \<open>The symbols of the linker: the tables at their physical addresses, the others at their link addresses.\<close>

record symbols =
  pg_tbl_pa :: u64
  ram_tbl_pa :: u64
  vector_table :: u64
  init_stack_top :: u64
  init_main_addr :: u64

definition MT_DEVICE_nGnRnE :: nat where "MT_DEVICE_nGnRnE = 0"
definition MT_NORMAL_NC :: nat where "MT_NORMAL_NC = 1"
definition MT_DEVICE_nGnRnE_FLAGS :: u64 where "MT_DEVICE_nGnRnE_FLAGS = 0"
definition MT_NORMAL_NC_FLAGS :: u64 where "MT_NORMAL_NC_FLAGS = 0x44"
definition MAIR_VALUE :: u64 where
  "MAIR_VALUE = push_bit (8 * MT_DEVICE_nGnRnE) MT_DEVICE_nGnRnE_FLAGS OR push_bit (8 * MT_NORMAL_NC) MT_NORMAL_NC_FLAGS"

definition TCR_T0SZ :: u64 where "TCR_T0SZ = 64 - 48"
definition TCR_T1SZ :: u64 where "TCR_T1SZ = push_bit 16 (64 - 48)"
definition TCR_TG0_4K :: u64 where "TCR_TG0_4K = push_bit 14 0"
definition TCR_TG1_4K :: u64 where "TCR_TG1_4K = push_bit 30 2"
definition TCR_VALUE :: u64 where "TCR_VALUE = TCR_T0SZ OR TCR_T1SZ OR TCR_TG0_4K OR TCR_TG1_4K"

definition SCTLR_RESERVED :: u64 where
  "SCTLR_RESERVED = push_bit 28 3 OR push_bit 22 3 OR push_bit 20 1 OR push_bit 11 1"
definition SCTLR_EE_LITTLE_ENDIAN :: u64 where "SCTLR_EE_LITTLE_ENDIAN = push_bit 25 0"
definition SCTLR_I_CACHE_DISABLED :: u64 where "SCTLR_I_CACHE_DISABLED = push_bit 12 0"
definition SCTLR_D_CACHE_DISABLED :: u64 where "SCTLR_D_CACHE_DISABLED = push_bit 2 0"
definition SCTLR_MMU_DISABLED :: u64 where "SCTLR_MMU_DISABLED = push_bit 0 0"
definition SCTLR_VALUE_MMU_DISABLED :: u64 where
  "SCTLR_VALUE_MMU_DISABLED = SCTLR_RESERVED OR SCTLR_EE_LITTLE_ENDIAN OR SCTLR_I_CACHE_DISABLED OR SCTLR_D_CACHE_DISABLED OR
     SCTLR_MMU_DISABLED"

definition UART_PA_BASE :: u64 where "UART_PA_BASE = 0x09000000"
definition UART_BASE :: u64 where "UART_BASE = 0xffff00003fc00000"
definition QEMU_VIRT_GIC_PA_BASE :: u64 where "QEMU_VIRT_GIC_PA_BASE = 0x08000000"
definition QEMU_VIRT_GIC_BASE :: u64 where "QEMU_VIRT_GIC_BASE = 0xffff00003fe00000"

section \<open>The tables\<close>

text \<open>The loop of label \<^verbatim>\<open>1\<close>, with the registers it uses: an entry is stored before the index is tested.\<close>

function pmd_loop :: "u64 \<Rightarrow> u64 \<Rightarrow> u64 \<Rightarrow> memory \<Rightarrow> u64 \<times> memory" where
  "pmd_loop x3 x7 x8 m =
     (let m = store64 m (x3 + push_bit 3 x8) ((MEM_BASE + x7) OR MMU_FLAGS);
          x7 = x7 + SECTION_SIZE;
          x8 = x8 + 1
      in if x8 \<le> 509 then pmd_loop x3 x7 x8 m else (x8, m))"
  by pat_completeness auto
termination
proof (relation "measure (\<lambda>(_, _, x8, _). 510 - unat (x8 + 1))", goal_cases)
  case (2 x3 x7 x8 m m' x7' y)
  then have "unat y \<le> 509" by (simp add: word_le_nat_alt)
  then show ?case using 2 by (simp add: unat_word_ariths)
qed simp

declare pmd_loop.simps [simp del]

definition kernel_tables :: "u64 \<Rightarrow> memory \<Rightarrow> memory" where
  "kernel_tables x1 m =
     (let x2 = x1 + PAGE_SIZE;
          x3 = x2 + PAGE_SIZE;
          m = store64 m (x1 + 0) (x2 OR MM_TYPE_PAGE_TABLE);
          m = store64 m (x2 + 0) (x3 OR MM_TYPE_PAGE_TABLE);
          (x8, m) = pmd_loop x3 0 0 m;
          m = store64 m (x3 + push_bit 3 x8) (UART_PA_BASE OR MMU_DEVICE_FLAGS);
          x8 = x8 + 1
      in store64 m (x3 + push_bit 3 x8) (QEMU_VIRT_GIC_PA_BASE OR MMU_DEVICE_FLAGS))"

definition ram_tables :: "u64 \<Rightarrow> memory \<Rightarrow> memory" where
  "ram_tables x1 m =
     (let x2 = x1 + PAGE_SIZE;
          x3 = x2 + PAGE_SIZE;
          m = store64 m (x1 + 0) (x2 OR MM_TYPE_PAGE_TABLE);
          m = store64 m (x2 + 8) (x3 OR MM_TYPE_PAGE_TABLE);
          x7 = 0;
          x8 = 0
      in store64 m (x3 + push_bit 3 x8) ((MEM_BASE + x7) OR MMU_FLAGS))"

definition start :: "symbols \<Rightarrow> boot_cpu \<Rightarrow> boot_cpu" where
  "start syms c =
     (let c = c\<lparr>sctlr := SCTLR_VALUE_MMU_DISABLED\<rparr>;
          c = c\<lparr>phys := kernel_tables (pg_tbl_pa syms) (phys c)\<rparr>;
          c = c\<lparr>phys := ram_tables (ram_tbl_pa syms) (phys c)\<rparr>;
          c = c\<lparr>ttbr1 := pg_tbl_pa syms, ttbr0 := ram_tbl_pa syms, tcr := TCR_VALUE, mair := MAIR_VALUE\<rparr>;
          c = c\<lparr>vbar := vector_table syms, stack_ptr := init_stack_top syms\<rparr>;
          x2 = init_main_addr syms;
          c = c\<lparr>cpuectlr := cpuectlr c OR push_bit 6 1\<rparr>;
          c = c\<lparr>sctlr := sctlr c OR push_bit 2 1 OR push_bit 12 1 OR 1\<rparr>
      in c\<lparr>jumps_to := x2\<rparr>)"

section \<open>Translation\<close>

text \<open>
  A walk with the shifts of the levels that are left. Bits 1 and 0 of an entry tell tables from blocks and pages, bit 10 is
  the access flag, and bits 4 to 2 select the memory type, here its byte of \<^verbatim>\<open>MAIR_EL1\<close>. There are no blocks on the first
  level.
\<close>

fun mmu_walk :: "memory \<Rightarrow> nat list \<Rightarrow> u64 \<Rightarrow> u64 \<Rightarrow> (u64 \<times> nat) option" where
  "mmu_walk m [] t a = None"
| "mmu_walk m (n # ns) t a =
     (let e = load64 m (t + push_bit 3 (table_index n a)) in
      if ns \<noteq> [] \<and> take_bit 2 e = 3 then mmu_walk m ns (take_bit 48 e AND NOT (mask 12)) a
      else if n < 39 \<and> take_bit 2 e = (if ns = [] then 3 else 1) \<and> bit e 10
      then Some ((take_bit 48 e AND NOT (mask n)) OR take_bit n a, unat (take_bit 3 (drop_bit 2 e)))
      else None)"

definition translate :: "boot_cpu \<Rightarrow> u64 \<Rightarrow> (u64 \<times> u64) option" where
  "translate c a =
     (if \<not> bit (sctlr c) 0 then Some (a, 0)
      else
        let t0sz = unat (take_bit 6 (tcr c));
            t1sz = unat (take_bit 6 (drop_bit 16 (tcr c)));
            root = (if drop_bit (64 - t0sz) a = 0 then Some (ttbr0 c)
                    else if drop_bit (64 - t1sz) (NOT a) = 0 then Some (ttbr1 c) else None)
        in case root of
             None \<Rightarrow> None
           | Some t \<Rightarrow> map_option (\<lambda>(p, k). (p, take_bit 8 (drop_bit (8 * k) (mair c)))) (mmu_walk (phys c) [39, 30, 21, 12] t a))"

section \<open>Entries\<close>

lemma page_offset_aligned: "page_aligned p \<Longrightarrow> page_aligned (p + 0x1000 * of_nat k)"
  unfolding page_aligned_int uint_arith_dvd4096 by (simp add: uint_word_ariths dvd_mod_iff)

lemma pmd_loop_stores:
  assumes "k \<le> 509"
  shows "pmd_loop x3 (SECTION_SIZE * of_nat k) (of_nat k) m =
    (510, fold (\<lambda>j m. store64 m (x3 + 8 * of_nat j) ((MEM_BASE + SECTION_SIZE * of_nat j) OR MMU_FLAGS)) [k ..< 510] m)"
  using assms
proof (induction "509 - k" arbitrary: k m)
  case 0
  then have k: "k = 509" by simp
  have u: "[509 ..< 510 :: nat] = [509]" by (simp add: upt_rec)
  show ?case by (subst pmd_loop.simps) (simp add: k u push_bit_eq_mult Let_def mult.commute)
next
  case (Suc d)
  then have k: "d = 509 - Suc k" "Suc k \<le> 509" by simp_all
  then have w: "of_nat k + 1 \<le> (509 :: u64)" by (simp add: word_le_nat_alt unat_word_ariths unat_of_nat)
  have u: "[k ..< 510] = k # [Suc k ..< 510]" using k by (simp add: upt_rec)
  have s: "SECTION_SIZE * of_nat k + SECTION_SIZE = SECTION_SIZE * of_nat (Suc k)" "of_nat k + 1 = (of_nat (Suc k) :: u64)"
    by (simp_all add: algebra_simps)
  show ?case using Suc.hyps(1) [OF k] w
    by (subst pmd_loop.simps) (simp add: u push_bit_eq_mult Let_def mult.commute s del: of_nat_Suc)
qed

text \<open>The 512 entries of the last table of the kernel.\<close>

definition kernel_pmd :: "nat \<Rightarrow> u64" where
  "kernel_pmd j =
     (if j < 510 then (MEM_BASE + SECTION_SIZE * of_nat j) OR MMU_FLAGS
      else if j = 510 then UART_PA_BASE OR MMU_DEVICE_FLAGS else QEMU_VIRT_GIC_PA_BASE OR MMU_DEVICE_FLAGS)"

lemma kernel_tables_words:
  "kernel_tables p m = store_words (p + 0x2000) kernel_pmd 512
     (store64 (store64 m p ((p + 0x1000) OR 3)) (p + 0x1000) ((p + 0x2000) OR 3))"
proof -
  have u: "[0 ..< 512] = [0 ..< 510] @ [510, 511 :: nat]" by (simp add: upt_rec)
  have f: "fold (\<lambda>j m. store64 m (x3 + 8 * of_nat j) (kernel_pmd j)) [0 ..< 510] m =
      fold (\<lambda>j m. store64 m (x3 + 8 * of_nat j) ((MEM_BASE + SECTION_SIZE * of_nat j) OR MMU_FLAGS)) [0 ..< 510] m" for x3 m
    by (rule fold_cong) (simp_all add: kernel_pmd_def fun_eq_iff)
  have k: "kernel_pmd 510 = UART_PA_BASE OR MMU_DEVICE_FLAGS" "kernel_pmd 511 = QEMU_VIRT_GIC_PA_BASE OR MMU_DEVICE_FLAGS"
    by (simp_all add: kernel_pmd_def)
  have l: "pmd_loop x3 0 0 m = (510, store_words x3 kernel_pmd 510 m)" for x3 m using pmd_loop_stores [of 0] by (simp add: f)
  show ?thesis
    by (simp add: kernel_tables_def Let_def u l k PAGE_SIZE_def PAGE_SHIFT_def MM_TYPE_PAGE_TABLE_def add.assoc)
qed

lemma ram_tables_words:
  "ram_tables p m = store64 (store64 (store64 m p ((p + 0x1000) OR 3)) (p + 0x1008) ((p + 0x2000) OR 3)) (p + 0x2000)
     (MEM_BASE OR MMU_FLAGS)"
  by (simp add: ram_tables_def Let_def PAGE_SIZE_def PAGE_SHIFT_def MM_TYPE_PAGE_TABLE_def add.assoc)

text \<open>The six pages, with what is stored there.\<close>

lemma start_tables:
  assumes "page_aligned p" "r = p + 0x3000" "m' = ram_tables r (kernel_tables p m)"
  shows "words_at m' p 0 = (p + 0x1000) OR 3" "words_at m' (p + 0x1000) 0 = (p + 0x2000) OR 3"
    "j < 512 \<Longrightarrow> words_at m' (p + 0x2000) j = kernel_pmd j"
    "words_at m' r 0 = (r + 0x1000) OR 3" "words_at m' (r + 0x1000) 1 = (r + 0x2000) OR 3" "words_at m' (r + 0x2000) 0 = MEM_BASE OR MMU_FLAGS"
proof -
  define q1 q2 q3 q4 q5 where q: "q1 = p + 0x1000" "q2 = p + 0x2000" "q3 = p + 0x3000" "q4 = p + 0x4000" "q5 = p + 0x5000"
  have al: "page_aligned p" "page_aligned q1" "page_aligned q2" "page_aligned q3" "page_aligned q4" "page_aligned q5"
    using assms(1) page_offset_aligned [OF assms(1), of 1] page_offset_aligned [OF assms(1), of 2] page_offset_aligned [OF assms(1), of 3]
      page_offset_aligned [OF assms(1), of 4] page_offset_aligned [OF assms(1), of 5] by (simp_all add: q)
  have d: "distinct [p, q1, q2, q3, q4, q5]" by (simp add: q)
  have w: "words_at (store64 M q v) q' k = words_at M q' k" if "page_aligned q" "page_aligned q'" "q \<noteq> q'" "k < 512" for M q q' k v
    using words_of_pages_apart [OF that(2,1) that(3) [symmetric] that(4), of 0] by (simp add: words_at_def load64_store64_apart)
  have w8: "words_at (store64 M (q + 8) v) q' k = words_at M q' k" if "page_aligned q" "page_aligned q'" "q \<noteq> q'" "k < 512" for M q q' k v
    using words_of_pages_apart [OF that(2,1) that(3) [symmetric] that(4), of 1] by (simp add: words_at_def load64_store64_apart)
  have e: "words_at (store64 M q v) q 0 = v" "words_at (store64 M (q + 8) v) q 1 = v" for M q v by (simp_all add: words_at_def)
  have r: "r + 0x1000 = q4" "r + 0x1008 = q4 + 8" "r + 0x2000 = q5" "r = q3" by (simp_all add: assms(2) q)
  have m': "m' = store64 (store64 (store64 (store_words q2 kernel_pmd 512 (store64 (store64 m p (q1 OR 3)) q1 (q2 OR 3))) q3 (q4 OR 3))
      (q4 + 8) (q5 OR 3)) q5 (MEM_BASE OR MMU_FLAGS)"
    unfolding assms(3) ram_tables_words unfolding r(1-3) unfolding kernel_tables_words r(4) q(1,2) ..
  note tables = m' al w w8 e stores_other_page stores_words
  show "words_at m' p 0 = (p + 0x1000) OR 3" "words_at m' (p + 0x1000) 0 = (p + 0x2000) OR 3"
    "j < 512 \<Longrightarrow> words_at m' (p + 0x2000) j = kernel_pmd j" unfolding q(1,2) [symmetric] using d by (auto simp: tables)
  show "words_at m' r 0 = (r + 0x1000) OR 3" "words_at m' (r + 0x1000) 1 = (r + 0x2000) OR 3" "words_at m' (r + 0x2000) 0 = MEM_BASE OR MMU_FLAGS"
    unfolding r(1-3) unfolding r(4) using d by (auto simp: tables simp del: One_nat_def)
qed

section \<open>Walks\<close>

lemma walk_table:
  assumes "words_at m t i = q OR 3" "page_aligned q" "take_bit 48 q = q" "table_index n a = of_nat i" "ns \<noteq> []"
  shows "mmu_walk m (n # ns) t a = mmu_walk m ns q a"
proof -
  have q: "bit q k \<Longrightarrow> 12 \<le> k \<and> k < 48" for k
  proof -
    have "take_bit 12 (unat q) = 0" using assms(2) by (simp add: page_aligned_def take_bit_eq_mod)
    then have "take_bit 12 q = 0" by (simp only: word_unat_eq_iff unsigned_take_bit_eq unsigned_0)
    then show "bit q k \<Longrightarrow> 12 \<le> k \<and> k < 48" using assms(3) by (metis bit_take_bit_iff bit_0_eq bot_apply not_le_imp_less bot_bool_def)
  qed
  have e: "load64 m (t + push_bit 3 (table_index n a)) = q OR 3" using assms(1,4) by (simp add: words_at_def push_bit_eq_mult mult.commute)
  have three: "(3 :: u64) = mask 2" by (simp add: mask_eq_exp_minus_1)
  have "take_bit 2 (q OR 3) = (3 :: u64)" unfolding three by (rule bit_word_eqI) (auto simp: bit_simps dest: q)
  moreover have "take_bit 48 (q OR 3) AND NOT (mask 12) = q" unfolding three by (rule bit_word_eqI) (auto simp: bit_simps dest: q)
  ultimately show ?thesis using assms(5) by (simp add: e Let_def)
qed

lemma walk_section:
  assumes "words_at m t i = b OR f" "f = MMU_FLAGS \<or> f = MMU_DEVICE_FLAGS" "take_bit 21 b = 0" "take_bit 48 b = b"
    "table_index 21 a = of_nat i"
  shows "mmu_walk m [21, 12] t a = Some (b + take_bit 21 a, if f = MMU_FLAGS then 1 else 0)"
proof -
  have b: "bit b k \<Longrightarrow> 21 \<le> k \<and> k < 48" for k
    using assms(3,4) by (metis bit_take_bit_iff bit_0_eq bot_apply not_le_imp_less bot_bool_def)
  have f: "take_bit 11 f = f" "take_bit 2 f = 1" "bit f 10" "take_bit 3 (drop_bit 2 f) = (if f = MMU_FLAGS then 1 else 0)"
    using assms(2) by (auto simp: MMU_FLAGS_def MMU_DEVICE_FLAGS_def)
  have f11: "bit f k \<Longrightarrow> k < 11" for k using f(1) by (metis bit_take_bit_iff)
  have e: "load64 m (t + push_bit 3 (table_index 21 a)) = b OR f" using assms(1,5) by (simp add: words_at_def push_bit_eq_mult mult.commute)
  have "take_bit 2 (b OR f) = take_bit 2 f" by (rule bit_word_eqI) (auto simp: bit_simps dest: b)
  moreover have "take_bit 3 (drop_bit 2 (b OR f)) = take_bit 3 (drop_bit 2 f)" by (rule bit_word_eqI) (auto simp: bit_simps dest: b)
  moreover have "take_bit 48 (b OR f) AND NOT (mask 21) = b" by (rule bit_word_eqI) (auto simp: bit_simps dest: b f11)
  moreover have "b OR take_bit 21 a = b + take_bit 21 a" by (rule disjunctive_add [symmetric]) (auto simp: bit_simps dest: b)
  ultimately show ?thesis using f(2-4) by (simp add: e Let_def bit_or_iff)
qed

text \<open>Addresses in the first gigabyte behind a base.\<close>

lemma gigabyte:
  fixes B off :: u64
  assumes "take_bit 30 B = 0" "off < push_bit 30 1"
  shows "30 \<le> n \<Longrightarrow> drop_bit n (B + off) = drop_bit n B" "30 \<le> n \<Longrightarrow> table_index n (B + off) = table_index n B"
    "table_index 21 (B + off) = of_nat (unat (drop_bit 21 off))" "unat (drop_bit 21 off) < 512" "take_bit 21 (B + off) = take_bit 21 off"
    "drop_bit 48 (NOT (B + off)) = drop_bit 48 (NOT B)"
proof -
  have u: "unat off < 2 ^ 30" using assms(2) by (simp add: word_less_nat_alt)
  have o': "take_bit 30 off = off" using u by (simp add: word_unat_eq_iff unsigned_take_bit_eq take_bit_nat_eq_self_iff)
  have ob: "bit off k \<Longrightarrow> k < 30" for k using o' by (metis bit_take_bit_iff)
  have Bb: "bit B k \<Longrightarrow> 30 \<le> k" for k using assms(1) by (metis bit_take_bit_iff bit_0_eq bot_apply not_le_imp_less bot_bool_def)
  have s: "B + off = B OR off" by (rule disjunctive_add) (use ob Bb in \<open>auto simp: not_le [symmetric]\<close>)
  show d: "drop_bit n (B + off) = drop_bit n B" if "30 \<le> n" for n
    unfolding s using that by (intro bit_word_eqI) (auto simp: bit_simps dest: ob)
  show "30 \<le> n \<Longrightarrow> table_index n (B + off) = table_index n B" by (simp add: table_index_def d)
  have m: "TABLE_MASK = mask 9" by (simp add: TABLE_MASK_def mask_eq_exp_minus_1)
  have "take_bit 64 (unat off) < 2 ^ 30" using take_bit_nat_less_eq_self u by (rule le_less_trans)
  then show "unat (drop_bit 21 off) < 512" by (subst unsigned_drop_bit_eq) (simp add: drop_bit_eq_div less_mult_imp_div_less)
  show "table_index 21 (B + off) = of_nat (unat (drop_bit 21 off))"
    unfolding table_index_def m s by (rule bit_word_eqI) (use Bb [of "21 + k" for k] ob [of "21 + k" for k] in \<open>fastforce simp: bit_simps\<close>)
  show "take_bit 21 (B + off) = take_bit 21 off" unfolding s by (intro bit_word_eqI) (auto simp: bit_simps dest: Bb)
  show "drop_bit 48 (NOT (B + off)) = drop_bit 48 (NOT B)" unfolding s by (intro bit_word_eqI) (auto simp: bit_simps dest: ob)
qed

lemma start_regs [simp]:
  "ttbr0 (start syms c) = ram_tbl_pa syms" "ttbr1 (start syms c) = pg_tbl_pa syms" "tcr (start syms c) = TCR_VALUE"
  "mair (start syms c) = MAIR_VALUE" "phys (start syms c) = ram_tables (ram_tbl_pa syms) (kernel_tables (pg_tbl_pa syms) (phys c))"
  "bit (sctlr (start syms c)) 0" "jumps_to (start syms c) = init_main_addr syms" "vbar (start syms c) = vector_table syms"
  "stack_ptr (start syms c) = init_stack_top syms"
  by (simp_all add: start_def Let_def bit_or_iff)

lemma sizes: "unat (take_bit 6 TCR_VALUE) = 16" "unat (take_bit 6 (drop_bit 16 TCR_VALUE)) = 16"
  "take_bit 8 MAIR_VALUE = MT_DEVICE_nGnRnE_FLAGS" "take_bit 8 (drop_bit 8 MAIR_VALUE) = MT_NORMAL_NC_FLAGS"
  by (simp_all add: TCR_VALUE_def TCR_T0SZ_def TCR_T1SZ_def TCR_TG0_4K_def TCR_TG1_4K_def MAIR_VALUE_def MT_DEVICE_nGnRnE_def
      MT_NORMAL_NC_def MT_DEVICE_nGnRnE_FLAGS_def MT_NORMAL_NC_FLAGS_def)

lemma translate_start:
  "translate (start syms c) a =
    (let root = (if drop_bit 48 a = 0 then Some (ram_tbl_pa syms) else if drop_bit 48 (NOT a) = 0 then Some (pg_tbl_pa syms) else None)
     in case root of None \<Rightarrow> None
        | Some t \<Rightarrow> map_option (\<lambda>(p, k). (p, take_bit 8 (drop_bit (8 * k) MAIR_VALUE))) (mmu_walk (phys (start syms c)) [39, 30, 21, 12] t a))"
  by (simp add: translate_def sizes)

definition linked :: "symbols \<Rightarrow> bool" where
  "linked syms \<longleftrightarrow> page_aligned (pg_tbl_pa syms) \<and> ram_tbl_pa syms = pg_tbl_pa syms + 3 * PAGE_SIZE \<and> pg_tbl_pa syms < push_bit 47 1"

lemma table_pages:
  fixes p :: u64
  assumes "page_aligned p" "p < push_bit 47 1" "k \<le> 5"
  shows "page_aligned (p + 0x1000 * of_nat k)" "take_bit 48 (p + 0x1000 * of_nat k) = p + 0x1000 * of_nat k"
proof -
  show "page_aligned (p + 0x1000 * of_nat k)" by (rule page_offset_aligned [OF assms(1)])
  have "unat p < 2 ^ 47" "unat (of_nat k :: u64) \<le> 5" using assms(2,3) by (simp_all add: word_less_nat_alt unat_of_nat)
  then have "unat (p + 0x1000 * of_nat k) < 2 ^ 48" by (simp add: unat_word_ariths)
  then show "take_bit 48 (p + 0x1000 * of_nat k) = p + 0x1000 * of_nat k"
    by (simp only: word_unat_eq_iff unsigned_take_bit_eq take_bit_nat_eq_self_iff)
qed

lemma kernel_section:
  assumes "linked syms" "off < push_bit 30 1" "kernel_pmd (unat (drop_bit 21 off)) = b OR f" "f = MMU_FLAGS \<or> f = MMU_DEVICE_FLAGS"
    "take_bit 21 b = 0" "take_bit 48 b = b"
  shows "translate (start syms c) (KERNEL_VA_START + off) =
    Some (b + take_bit 21 off, if f = MMU_FLAGS then MT_NORMAL_NC_FLAGS else MT_DEVICE_nGnRnE_FLAGS)"
proof -
  let ?p = "pg_tbl_pa syms" and ?a = "KERNEL_VA_START + off" and ?m = "phys (start syms c)"
  have p: "page_aligned ?p" "ram_tbl_pa syms = ?p + 0x3000" "?p < push_bit 47 1"
    using assms(1) by (simp_all add: linked_def PAGE_SIZE_def PAGE_SHIFT_def)
  note w = start_tables [OF p(1,2) start_regs(5) [of syms c]]
  have K: "take_bit 30 KERNEL_VA_START = 0" by (simp add: KERNEL_VA_START_def)
  note g = gigabyte [OF K assms(2)]
  have i: "table_index 39 ?a = of_nat 0" "table_index 30 ?a = of_nat 0"
    unfolding g(2) [of 39, simplified] g(2) [of 30, simplified] by (simp_all add: table_index_def KERNEL_VA_START_def TABLE_MASK_def)
  have "mmu_walk ?m [39, 30, 21, 12] ?p ?a = mmu_walk ?m [30, 21, 12] (?p + 0x1000) ?a"
    using table_pages [OF p(1,3), of 1] by (intro walk_table [OF w(1)] i(1)) simp_all
  also have "\<dots> = mmu_walk ?m [21, 12] (?p + 0x2000) ?a"
    using table_pages [OF p(1,3), of 2] by (intro walk_table [OF w(2)] i(2)) simp_all
  also have "\<dots> = Some (b + take_bit 21 off, if f = MMU_FLAGS then 1 else 0)"
    using walk_section [OF trans [OF w(3) [OF g(4)] assms(3)] assms(4-6) g(3)] by (simp only: g(5))
  moreover have "drop_bit 48 ?a \<noteq> 0" "drop_bit 48 (NOT ?a) = 0"
    unfolding g(1) [of 48, simplified] g(6) by (simp_all add: KERNEL_VA_START_def)
  ultimately show ?thesis unfolding translate_start Let_def by (simp add: sizes del: mmu_walk.simps start_regs)
qed

lemma section_offset:
  assumes "k < 512" "d < SECTION_SIZE"
  shows "push_bit 21 (of_nat k) + d < push_bit 30 1" "unat (drop_bit 21 (push_bit 21 (of_nat k) + d)) = k"
    "take_bit 21 (push_bit 21 (of_nat k) + d) = d"
proof -
  let ?w = "push_bit 21 (of_nat k) + d"
  have d: "unat d < 2097152" using assms(2) by (simp add: SECTION_SIZE_def SECTION_SHIFT_def word_less_nat_alt)
  have w: "unat ?w = 2097152 * k + unat d" using d assms(1) by (simp add: push_bit_eq_mult unat_word_ariths unat_of_nat mult.commute)
  show "?w < push_bit 30 1" using d assms(1) by (simp add: word_less_nat_alt w)
  have "unat (drop_bit 21 ?w) = unat ?w div 2097152" by (simp add: drop_bit_eq_div unat_div)
  then show "unat (drop_bit 21 ?w) = k" using d by (simp add: w)
  have "unat (take_bit 21 ?w) = unat ?w mod 2097152" by (simp add: take_bit_eq_mod unat_mod)
  then show "take_bit 21 ?w = d" using d by (simp add: w word_unat_eq_iff)
qed

lemma kernel_memory:
  assumes "linked syms" "off < 0x3fc00000"
  shows "translate (start syms c) (KERNEL_VA_START + off) = Some (MEM_BASE + off, MT_NORMAL_NC_FLAGS)"
proof -
  let ?k = "unat (drop_bit 21 off)" and ?b = "MEM_BASE + push_bit 21 (drop_bit 21 off)"
  have o': "off < push_bit 30 1" using assms(2) by (rule less_le_trans) simp
  have "unat (drop_bit 21 off) = unat off div 2097152" by (simp add: drop_bit_eq_div unat_div)
  moreover have "unat off < 510 * 2097152" using assms(2) by (simp add: word_less_nat_alt)
  ultimately have k: "?k < 510" by (simp add: less_mult_imp_div_less)
  have "?b = MEM_BASE + SECTION_SIZE * of_nat ?k" by (simp add: SECTION_SIZE_def SECTION_SHIFT_def push_bit_eq_mult)
  then have "kernel_pmd ?k = ?b OR MMU_FLAGS" using k by (simp add: kernel_pmd_def)
  moreover have b: "?b = push_bit 21 (512 + drop_bit 21 off)" by (simp add: MEM_BASE_def push_bit_eq_mult algebra_simps)
  moreover have "take_bit 21 ?b = 0" unfolding b by (rule bit_word_eqI) (simp add: bit_simps)
  moreover have "unat ?b < 2 ^ 48" using k by (simp add: MEM_BASE_def push_bit_eq_mult unat_word_ariths)
  then have "take_bit 48 ?b = ?b" by (simp only: word_unat_eq_iff unsigned_take_bit_eq take_bit_nat_eq_self_iff)
  ultimately have "translate (start syms c) (KERNEL_VA_START + off) = Some (?b + take_bit 21 off, MT_NORMAL_NC_FLAGS)"
    using kernel_section [OF assms(1) o', of ?b MMU_FLAGS c] by simp
  then show ?thesis using bits_ident [of 21 off] by (simp add: add.assoc)
qed

lemma kernel_device:
  assumes "linked syms" "k < 512" "kernel_pmd k = b OR MMU_DEVICE_FLAGS" "take_bit 21 b = 0" "take_bit 48 b = b" "d < SECTION_SIZE"
  shows "translate (start syms c) (KERNEL_VA_START + (push_bit 21 (of_nat k) + d)) = Some (b + d, MT_DEVICE_nGnRnE_FLAGS)"
proof -
  note s = section_offset [OF assms(2,6)]
  have "MMU_DEVICE_FLAGS \<noteq> MMU_FLAGS" by (simp add: MMU_DEVICE_FLAGS_def MMU_FLAGS_def)
  then show ?thesis using kernel_section [OF assms(1) s(1), of b MMU_DEVICE_FLAGS c] assms(3-5) by (simp add: s(2,3))
qed

lemma ram_identity:
  assumes "linked syms" "d < SECTION_SIZE"
  shows "translate (start syms c) (MEM_BASE + d) = Some (MEM_BASE + d, MT_NORMAL_NC_FLAGS)"
proof -
  let ?r = "ram_tbl_pa syms" and ?a = "MEM_BASE + d" and ?m = "phys (start syms c)"
  have p: "page_aligned (pg_tbl_pa syms)" "?r = pg_tbl_pa syms + 0x3000" "pg_tbl_pa syms < push_bit 47 1"
    using assms(1) by (simp_all add: linked_def PAGE_SIZE_def PAGE_SHIFT_def)
  note w = start_tables [OF p(1,2) start_regs(5) [of syms c]]
  have s: "d < push_bit 30 1" "unat (drop_bit 21 d) = 0" "take_bit 21 d = d" using section_offset [of 0, OF _ assms(2)] by simp_all
  have B: "take_bit 30 MEM_BASE = 0" by (simp add: MEM_BASE_def)
  note g = gigabyte [OF B s(1)]
  have i: "table_index 39 ?a = of_nat 0" "table_index 30 ?a = of_nat 1" "table_index 21 ?a = of_nat 0"
    unfolding g(2) [of 39, simplified] g(2) [of 30, simplified] g(3) s(2) by (simp_all add: table_index_def MEM_BASE_def TABLE_MASK_def)
  have "mmu_walk ?m [39, 30, 21, 12] ?r ?a = mmu_walk ?m [30, 21, 12] (?r + 0x1000) ?a"
    using table_pages [OF p(1,3), of 4] p(2) by (intro walk_table [OF w(4)] i(1)) (simp_all add: add.commute)
  also have "\<dots> = mmu_walk ?m [21, 12] (?r + 0x2000) ?a"
    using table_pages [OF p(1,3), of 5] p(2) by (intro walk_table [OF w(5)] i(2)) (simp_all add: add.commute)
  also have "\<dots> = Some (MEM_BASE + d, 1)"
    using walk_section [OF w(6) _ _ _ i(3)] unfolding g(5) s(3) by (simp add: MEM_BASE_def)
  moreover have "drop_bit 48 ?a = 0" unfolding g(1) [of 48, simplified] by (simp add: MEM_BASE_def)
  ultimately show ?thesis unfolding translate_start Let_def by (simp add: sizes del: mmu_walk.simps start_regs)
qed

text \<open>C6: When the assembly code turns the MMU on, the macros of the kernel mean what they say: an address of the
  kernel below the devices is translated to its \<^verbatim>\<open>__pa\<close> and is normal memory, the addresses of the UART and of the
  interrupt controller lead to their physical registers and are device memory, and the first two megabytes of RAM, with
  the code that is running, are mapped to themselves.\<close>

theorem start_translates:
  assumes "linked syms"
  shows "(\<forall>a. KERNEL_VA_START \<le> a \<and> a < UART_BASE \<longrightarrow> translate (start syms c) a = Some (pa_of a, MT_NORMAL_NC_FLAGS)) \<and>
    (\<forall>off < SECTION_SIZE. translate (start syms c) (UART_BASE + off) = Some (UART_PA_BASE + off, MT_DEVICE_nGnRnE_FLAGS) \<and>
       translate (start syms c) (QEMU_VIRT_GIC_BASE + off) = Some (QEMU_VIRT_GIC_PA_BASE + off, MT_DEVICE_nGnRnE_FLAGS) \<and>
       translate (start syms c) (MEM_BASE + off) = Some (MEM_BASE + off, MT_NORMAL_NC_FLAGS)) \<and>
    jumps_to (start syms c) = init_main_addr syms \<and> stack_ptr (start syms c) = init_stack_top syms \<and> vbar (start syms c) = vector_table syms"
proof (intro conjI allI impI)
  fix a assume a: "KERNEL_VA_START \<le> a \<and> a < UART_BASE"
  define off where "off = a - KERNEL_VA_START"
  have e: "a = KERNEL_VA_START + off" by (simp add: off_def)
  have "off < 0x3fc00000" using a unfolding off_def KERNEL_VA_START_def UART_BASE_def by unat_arith
  then show "translate (start syms c) a = Some (pa_of a, MT_NORMAL_NC_FLAGS)"
    using kernel_memory [OF assms, of off c] by (simp add: e pa_of_def add.commute)
next
  fix off assume o': "off < SECTION_SIZE"
  have e: "UART_BASE + off = KERNEL_VA_START + (push_bit 21 (of_nat 510) + off)" "QEMU_VIRT_GIC_BASE + off = KERNEL_VA_START + (push_bit 21 (of_nat 511) + off)"
    by (simp_all add: UART_BASE_def QEMU_VIRT_GIC_BASE_def KERNEL_VA_START_def)
  show "translate (start syms c) (UART_BASE + off) = Some (UART_PA_BASE + off, MT_DEVICE_nGnRnE_FLAGS)"
      "translate (start syms c) (QEMU_VIRT_GIC_BASE + off) = Some (QEMU_VIRT_GIC_PA_BASE + off, MT_DEVICE_nGnRnE_FLAGS)"
    unfolding e using kernel_device [OF assms, of 510 UART_PA_BASE off c] kernel_device [OF assms, of 511 QEMU_VIRT_GIC_PA_BASE off c] o'
    by (simp_all add: kernel_pmd_def UART_PA_BASE_def QEMU_VIRT_GIC_PA_BASE_def)
  show "translate (start syms c) (MEM_BASE + off) = Some (MEM_BASE + off, MT_NORMAL_NC_FLAGS)" by (rule ram_identity [OF assms o'])
qed simp_all

text \<open>The image with the addresses that the comments of \<^verbatim>\<open>linker.ld\<close> give.\<close>

definition nbos_symbols :: symbols where
  "nbos_symbols = \<lparr>pg_tbl_pa = 0x40086000, ram_tbl_pa = 0x40089000, vector_table = 0xffff000000081000,
     init_stack_top = 0xffff000000084000, init_main_addr = 0xffff000000082000\<rparr>"

definition reset_cpu :: boot_cpu where
  "reset_cpu = \<lparr>sctlr = 0, ttbr0 = 0, ttbr1 = 0, tcr = 0, mair = 0, vbar = 0, cpuectlr = 0, stack_ptr = 0, jumps_to = 0, phys = \<lambda>_. 0\<rparr>"

lemma start_translates_witness:
  "translate (start nbos_symbols reset_cpu) 0xffff000000080123 = Some (0x40080123, 0x44) \<and>
   translate (start nbos_symbols reset_cpu) 0xffff00003fc00000 = Some (0x09000000, 0) \<and>
   translate (start nbos_symbols reset_cpu) 0x40080123 = Some (0x40080123, 0x44)"
proof -
  have "linked nbos_symbols" by (simp add: linked_def nbos_symbols_def page_aligned_def PAGE_SIZE_def PAGE_SHIFT_def)
  note st = start_translates [OF this, of reset_cpu]
  have small: "0 < SECTION_SIZE" "0x80123 < SECTION_SIZE" by (simp_all add: SECTION_SIZE_def SECTION_SHIFT_def)
  have "translate (start nbos_symbols reset_cpu) 0xffff000000080123 = Some (pa_of 0xffff000000080123, MT_NORMAL_NC_FLAGS)"
    using st by (simp add: KERNEL_VA_START_def UART_BASE_def)
  moreover have "translate (start nbos_symbols reset_cpu) (UART_BASE + 0) = Some (UART_PA_BASE + 0, MT_DEVICE_nGnRnE_FLAGS)"
    "translate (start nbos_symbols reset_cpu) (MEM_BASE + 0x80123) = Some (MEM_BASE + 0x80123, MT_NORMAL_NC_FLAGS)"
    using st by (blast intro: small)+
  ultimately show ?thesis
    by (simp add: UART_BASE_def UART_PA_BASE_def MEM_BASE_def pa_of_def KERNEL_VA_START_def MT_NORMAL_NC_FLAGS_def MT_DEVICE_nGnRnE_FLAGS_def)
qed

end
