(* ===== verification/Atomic.thy ===== *)
theory Atomic
  imports Prelude
begin

text \<open>
  \<^verbatim>\<open>include/atomic.h\<close>: the counters of the page descriptors. \<^verbatim>\<open>atomic_add\<close> is a loop around a load-exclusive and a
  store-exclusive instruction; the steps of several processors that run it on one counter are interleaved in any
  order. The exclusive monitor is the documented one: a load sets the monitor of its processor, a store that
  succeeds clears the monitors of all.
\<close>

section \<open>Definitions\<close>

text \<open>The value of a C \<^verbatim>\<open>int\<close> of 32 bits in a register; the addition of the processor wraps.\<close>

record atomic_t =
  counter :: u32

definition atomic_set :: "u32 \<Rightarrow> atomic_t \<Rightarrow> atomic_t" where
  "atomic_set i v = v\<lparr>counter := i\<rparr>"

definition atomic_read :: "atomic_t \<Rightarrow> u32" where
  "atomic_read v = counter v"

text \<open>The instruction of the loop that comes next: \<^verbatim>\<open>ldxr\<close>, \<^verbatim>\<open>add\<close>, \<^verbatim>\<open>stxr\<close>, \<^verbatim>\<open>cbnz\<close>, or the end.\<close>

datatype insn = Ldxr | Addw | Stxr | Cbnz | Done

record core =
  at_insn :: insn
  w0 :: u32
  w1 :: u32
  addend :: u32
  monitor :: bool

type_synonym cores = "nat \<Rightarrow> core"

definition core_step :: "nat \<Rightarrow> atomic_t \<times> cores \<Rightarrow> atomic_t \<times> cores" where
  "core_step n = (\<lambda>(v, cs). let c = cs n in
     case at_insn c of
       Ldxr \<Rightarrow> (v, cs(n := c\<lparr>w0 := counter v, monitor := True, at_insn := Addw\<rparr>))
     | Addw \<Rightarrow> (v, cs(n := c\<lparr>w0 := w0 c + addend c, at_insn := Stxr\<rparr>))
     | Stxr \<Rightarrow>
         if monitor c then (atomic_set (w0 c) v, (\<lambda>m. (cs m)\<lparr>monitor := False\<rparr>)(n := c\<lparr>w1 := 0, monitor := False, at_insn := Cbnz\<rparr>))
         else (v, cs(n := c\<lparr>w1 := 1, at_insn := Cbnz\<rparr>))
     | Cbnz \<Rightarrow> (v, cs(n := c\<lparr>at_insn := (if w1 c \<noteq> 0 then Ldxr else Done)\<rparr>))
     | Done \<Rightarrow> (v, cs))"

text \<open>A processor that is about to run \<^verbatim>\<open>atomic_add(i, v)\<close>, and \<open>k\<close> of its steps when it runs alone.\<close>

definition enters :: "u32 \<Rightarrow> core" where
  "enters i = \<lparr>at_insn = Ldxr, w0 = 0, w1 = 0, addend = i, monitor = False\<rparr>"

inductive interleaved :: "nat set \<Rightarrow> atomic_t \<times> cores \<Rightarrow> atomic_t \<times> cores \<Rightarrow> bool" for N where
  start: "interleaved N s s"
| step: "interleaved N s s' \<Longrightarrow> n \<in> N \<Longrightarrow> interleaved N s (core_step n s')"

section \<open>No update is lost\<close>

definition stored :: "core \<Rightarrow> bool" where
  "stored c \<longleftrightarrow> at_insn c = Done \<or> at_insn c = Cbnz \<and> w1 c = 0"

text \<open>A set monitor means that the value in the register is that of the counter, before or after the addition.\<close>

definition core_ok :: "u32 \<Rightarrow> core \<Rightarrow> bool" where
  "core_ok v c \<longleftrightarrow> (monitor c \<longrightarrow> (at_insn c = Addw \<and> w0 c = v) \<or> (at_insn c = Stxr \<and> w0 c = v + addend c))"

definition add_inv :: "nat set \<Rightarrow> u32 \<Rightarrow> (nat \<Rightarrow> u32) \<Rightarrow> atomic_t \<times> cores \<Rightarrow> bool" where
  "add_inv N v0 f = (\<lambda>(v, cs). (\<forall>n \<in> N. core_ok (counter v) (cs n) \<and> addend (cs n) = f n) \<and>
     counter v = v0 + (\<Sum>n \<in> N. if stored (cs n) then f n else 0))"

lemma sum_update:
  assumes "finite N" "n \<in> N" "\<And>m. m \<in> N \<Longrightarrow> m \<noteq> n \<Longrightarrow> g m = h m"
  shows "sum h N = sum g N - g n + (h n :: u32)"
proof -
  have "sum g (N - {n}) = sum h (N - {n})" using assms(3) by (intro sum.cong) auto
  then show ?thesis using sum.remove [OF assms(1,2), of g] sum.remove [OF assms(1,2), of h] by simp
qed

lemma core_step_inv:
  assumes "finite N" "n \<in> N" "add_inv N v0 f s"
  shows "add_inv N v0 f (core_step n s)"
proof -
  obtain v cs where s: "s = (v, cs)" by fastforce
  have ok: "core_ok (counter v) (cs m)" "addend (cs m) = f m" if "m \<in> N" for m using assms(3) that by (auto simp: s add_inv_def)
  have c: "counter v = v0 + (\<Sum>n \<in> N. if stored (cs n) then f n else 0)" using assms(3) by (simp add: s add_inv_def)
  have same: "add_inv N v0 f (v, cs(n := c))" if "core_ok (counter v) c" "addend c = f n" "stored c = stored (cs n)" for c
  proof -
    have "(\<Sum>m \<in> N. if stored ((cs(n := c)) m) then f m else 0) = (\<Sum>m \<in> N. if stored (cs m) then f m else 0)"
      using that(3) by (intro sum.cong) auto
    then show ?thesis using that ok c by (auto simp: add_inv_def)
  qed
  show ?thesis
  proof (cases "at_insn (cs n)")
    case Stxr
    let ?c = "(cs n)\<lparr>w1 := 0, monitor := False, at_insn := Cbnz\<rparr>"
    let ?cs = "(\<lambda>m. (cs m)\<lparr>monitor := False\<rparr>)(n := ?c)"
    show ?thesis
    proof (cases "monitor (cs n)")
      case True
      have w: "w0 (cs n) = counter v + f n" using True Stxr ok [OF assms(2)] by (simp add: core_ok_def)
      have "(\<Sum>m \<in> N. if stored (?cs m) then f m else 0) = (\<Sum>m \<in> N. if stored (cs m) then f m else 0) + f n"
        using sum_update [OF assms(1,2), of "\<lambda>m. if stored (cs m) then f m else 0" "\<lambda>m. if stored (?cs m) then f m else 0"] Stxr
        by (simp add: stored_def)
      then show ?thesis using True Stxr w ok c
        by (auto simp: s core_step_def Let_def add_inv_def core_ok_def atomic_set_def add.assoc)
    next
      case False
      then show ?thesis using Stxr ok [OF assms(2)] by (auto simp: s core_step_def Let_def core_ok_def stored_def intro!: same)
    qed
  qed (use ok [OF assms(2)] assms(3) in \<open>auto simp: s core_step_def Let_def core_ok_def stored_def intro!: same\<close>)
qed

lemma add_inv_start: "add_inv N (counter v) f (v, \<lambda>n. enters (f n))"
  by (simp add: add_inv_def core_ok_def enters_def stored_def)

lemma interleaved_inv:
  assumes "interleaved N s s'" "finite N" "add_inv N v0 f s"
  shows "add_inv N v0 f s'"
  using assms(1,3) by (induction rule: interleaved.induct) (auto intro: core_step_inv [OF assms(2)])

lemma interleaved_run: "set ns \<subseteq> N \<Longrightarrow> interleaved N s0 s \<Longrightarrow> interleaved N s0 (fold core_step ns s)"
proof (induction ns arbitrary: s)
  case (Cons n ns)
  then have "interleaved N s0 (core_step n s)" by (intro interleaved.step) simp_all
  then show ?case using Cons by simp
qed simp

lemma core_alone: "at_insn (snd ((core_step n ^^ 7) s) n) = Done"
proof -
  obtain v cs where s: "s = (v, cs)" by fastforce
  show ?thesis
    by (cases "at_insn (cs n)"; cases "monitor (cs n)"; cases "w1 (cs n) = 0")
      (simp_all add: s numeral_eq_Suc core_step_def Let_def)
qed

text \<open>C23: \<^verbatim>\<open>atomic_add\<close> is atomic: however the instructions of any number of processors are interleaved, when all have
  finished the counter has grown by the sum of what they add, modulo the width of an \<^verbatim>\<open>int\<close>; no update is lost and none
  is made twice. A processor that is not disturbed finishes within seven instructions.\<close>

theorem atomic_add_atomic:
  assumes "finite N" "interleaved N (v, \<lambda>n. enters (f n)) (v', cs)"
  shows "((\<forall>n \<in> N. at_insn (cs n) = Done) \<longrightarrow> atomic_read v' = atomic_read v + (\<Sum>n \<in> N. f n)) \<and>
    at_insn (snd ((core_step n ^^ 7) (v', cs)) n) = Done"
proof -
  have "add_inv N (counter v) f (v', cs)" using interleaved_inv [OF assms(2,1) add_inv_start] .
  then show ?thesis using core_alone by (auto simp: add_inv_def atomic_read_def stored_def)
qed

text \<open>Two processors that add 3 and 4; the second one is disturbed and tries again.\<close>

lemma atomic_add_atomic_witness:
  "let s = fold core_step [1, 0, 0, 0, 1, 1, 0, 1, 1, 1, 1, 1] (\<lparr>counter = 10\<rparr>, \<lambda>n. enters (of_nat n + 3)) in
     interleaved {0, 1} (\<lparr>counter = 10\<rparr>, \<lambda>n. enters (of_nat n + 3)) s \<and> (\<forall>n \<in> {0, 1}. at_insn (snd s n) = Done) \<and> counter (fst s) = 17"
proof -
  let ?init = "(\<lparr>counter = 10\<rparr>, \<lambda>n. enters (of_nat n + 3))"
  let ?s = "fold core_step [1, 0, 0, 0, 1, 1, 0, 1, 1, 1, 1, 1] ?init"
  have i: "interleaved {0, 1} ?init ?s" by (rule interleaved_run [OF _ interleaved.start]) simp
  have d: "\<forall>n \<in> {0, 1}. at_insn (snd ?s n) = Done" by (simp add: core_step_def enters_def atomic_set_def Let_def)
  have "atomic_read (fst ?s) = atomic_read (fst ?init) + (\<Sum>n \<in> {0, 1}. of_nat n + 3)"
    using atomic_add_atomic [of "{0, 1}" "fst ?init" "\<lambda>n. of_nat n + 3" "fst ?s" "snd ?s"] i d by simp
  then show ?thesis using i d by (simp add: atomic_read_def Let_def)
qed

end
