(* ===== verification/Debug_Print.thy ===== *)
theory Debug_Print
  imports Kernel_Run
begin

text \<open>
  The functions that report the state of the kernel: tasks (\<^verbatim>\<open>kernel/task.c\<close>), address spaces
  (\<^verbatim>\<open>mm/mm.c\<close>), the file system (\<^verbatim>\<open>fs/minix_fs.c\<close>, \<^verbatim>\<open>fs/fs.c\<close>) and the periodic timer
  (\<^verbatim>\<open>kernel/soft_timer.c\<close>). An argument of \<^verbatim>\<open>printf\<close> that has 32 bits is passed zero-extended.
\<close>

section \<open>Loops over lists and the delay loop\<close>

fun each :: "('b \<Rightarrow> 's \<Rightarrow> 's res) \<Rightarrow> 'b list \<Rightarrow> 's \<Rightarrow> 's res" where
  "each f [] s = Inr s"
| "each f (x # xs) s = bindR (f x s) (each f xs)"

text \<open>\<^verbatim>\<open>while(i--)\<close>: the counter is 32 bits wide and ends one below zero.\<close>

function kdelay_loop :: "u32 \<Rightarrow> u32" where
  "kdelay_loop i = (if i = 0 then i - 1 else kdelay_loop (i - 1))"
  by pat_completeness auto
termination by (relation "measure unat") (simp_all add: unat_minus_one unat_gt_0)

declare kdelay_loop.simps [simp del]

definition kdelay :: u32 where
  "kdelay = kdelay_loop (push_bit 24 1)"

definition timer_handler0 :: "literals \<Rightarrow> ('f, 'a) fs_state_scheme \<Rightarrow> ('f, 'a) fs_state_scheme res" where
  "timer_handler0 lit = kprintf lit (''this is timer_handler'' @ nl) []"

section \<open>Tasks\<close>

definition print_task_struct :: "literals \<Rightarrow> u64 \<Rightarrow> ('f, 'a) fs_state_scheme \<Rightarrow> ('f, 'a) fs_state_scheme res" where
  "print_task_struct lit p s =
     bindR (deref (tasks s) p) (\<lambda>t.
     let c = cpu_context t in
     bindR (kprintf lit (''x19: 0x%x'' @ tab @ '' x12: 0x%x'' @ tab @ '' x21: 0x%x'' @ tab @ '' x22: 0x%x'' @ tab @ '' x23: 0x%x'' @ nl)
              [x19 c, x20 c, x21 c, x22 c, x23 c] s) (\<lambda>s.
     bindR (kprintf lit (''x24: 0x%x'' @ tab @ '' x25: 0x%x'' @ tab @ '' x26: 0x%x'' @ tab @ '' x27: 0x%x'' @ tab @ '' x28: 0x%x'' @ nl)
              [x24 c, x25 c, x26 c, x27 c, x28 c] s) (\<lambda>s.
     bindR (kprintf lit (''x29: 0x%x'' @ tab @ ''  sp: 0x%x'' @ tab @ ''  pc: 0x%x'' @ nl) [x29 c, ctx_sp c, ctx_pc c] s) (\<lambda>s.
     bindR (kprintf lit (''task_struct addr: 0x%p'' @ nl) [p] s)
       (kprintf lit (''task_struct canary: %#x'' @ nl) [ucast (canary t)])))))"

definition print_task_queue :: "literals \<Rightarrow> ('f, 'a) fs_state_scheme \<Rightarrow> ('f, 'a) fs_state_scheme res" where
  "print_task_queue lit s =
     bindR (task_nums s) (\<lambda>n.
     bindR (kprintf lit (''=============task_queue(has %d tasks)==============='' @ nl) [word_of_int n] s) (\<lambda>s.
     bindR (print_task_struct lit (init_task s) s) (\<lambda>s.
     bindR (list_for_each lists (init_task s + list_off)
              (\<lambda>pos s. bindR (print_task_struct lit (pos - list_off) s) (\<lambda>s. Inr (None :: unit option, s))) s) (\<lambda>(_, s).
     Inr s))))"

section \<open>Address spaces\<close>

definition print_process_page :: "literals \<Rightarrow> u64 \<Rightarrow> ('f, 'a) fs_state_scheme \<Rightarrow> ('f, 'a) fs_state_scheme res" where
  "print_process_page lit p s =
     (if p = NULL then Inr s
      else bindR (deref (mms s) p) (\<lambda>m.
        let line = ''va: 0x%p,'' @ tab @ '' pa: 0x%p'' @ nl in
        bindR (kprintf lit (''user page:'' @ nl) [] s) (\<lambda>s.
        bindR (each (\<lambda>v s. if pa v \<noteq> 0 then kprintf lit line [va v, pa v] s else Inr s) (take MAX_USER_PAGES (vma m)) s) (\<lambda>s.
        bindR (kprintf lit (''pgtbl page:'' @ nl) [] s)
          (each (\<lambda>t s. if t \<noteq> NULL then kprintf lit line [t, pa_of t] s else Inr s) (take MAX_PGTBL_PAGES (pgtbl_page m)))))))"

section \<open>The file system\<close>

definition print_block :: "literals \<Rightarrow> u64 \<Rightarrow> ('f, 'a) fs_state_scheme \<Rightarrow> ('f, 'a) fs_state_scheme res" where
  "print_block lit bh s =
     bindR (deref (bhs s) bh) (\<lambda>h.
     bindR (each (\<lambda>i s.
              bindR (kprintf lit ''addr: %#lx, val: %#lx; '' [of_nat i, ucast (load32 (mem s) (b_data h + of_nat i))] s) (\<lambda>s.
              if i mod 20 = 0 \<and> i \<noteq> 0 then kprintf lit nl [] s else Inr s))
            (map ((*) 4) [0 ..< unat BLOCK_SZ div 4]) s)
       (kprintf lit nl []))"

definition print_minix_inode ::
  "literals \<Rightarrow> 'f flash_bus \<Rightarrow> u64 \<Rightarrow> u64 \<Rightarrow> ('f, 'a) fs_state_scheme \<Rightarrow> ('f, 'a) fs_state_scheme res" where
  "print_minix_inode lit fl bd inode_no s =
     bindR (deref (bdevs s) bd) (\<lambda>b.
     bindR (minix_iget fl (bd_sb b) inode_no s) (\<lambda>(inode, s).
     bindR (deref (inodes s) inode) (\<lambda>i.
     bindR (kprintf lit (''i_mode: %#x'' @ nl) [i_mode i] s) (\<lambda>s.
     bindR (kprintf lit (''i_size: %d'' @ nl) [i_size i] s)
       (each (\<lambda>k. kprintf lit (''i_data[%d]: %d'' @ nl) [of_nat k, ucast (i_data i ! k)]) [0 ..< 9])))))"

definition print_minix_sb :: "literals \<Rightarrow> u64 \<Rightarrow> ('f, 'a) fs_state_scheme \<Rightarrow> ('f, 'a) fs_state_scheme res" where
  "print_minix_sb lit sb s =
     bindR (minix_sb sb s) (\<lambda>i.
     bindR (kprintf lit (''ninodes: %d, nzones: %d, imap_blocks: %d, zmap_blocks: %d'' @ nl)
              [s_ninodes i, s_nzones i, s_imap_blocks i, s_zmap_blocks i] s)
       (kprintf lit (''s_firstdatazone: %d, s_max_size: %d'' @ nl) [s_firstdatazone i, s_max_size i]))"

definition entry_format :: string where
  "entry_format = ''ino: %d, file name: %s'' @ nl"

definition print_dir_entry :: "literals \<Rightarrow> u64 \<Rightarrow> ('f, 'a) fs_state_scheme \<Rightarrow> ('f, 'a) fs_state_scheme res" where
  "print_dir_entry lit dir s = kprintf lit entry_format [ucast (load16 (mem s) dir), dir + 2] s"

function print_dir_loop :: "nat \<Rightarrow> literals \<Rightarrow> u64 \<Rightarrow> ('f, 'a) fs_state_scheme \<Rightarrow> ('f, 'a) fs_state_scheme res" where
  "print_dir_loop fuel lit dir s =
     (if fuel = 0 then Inl Out_of_fuel
      else
        let dir = dir + 32 in
        if load16 (mem s) dir = 0 then Inr s
        else bindR (print_dir_entry lit dir s) (print_dir_loop (fuel - 1) lit dir))"
  by pat_completeness auto
termination by (relation "measure (\<lambda>(fuel, _). fuel)") auto

declare print_dir_loop.simps [simp del]

text \<open>The pointer runs over at most \<open>2\<close> to the power \<open>59\<close> entries before it comes back to the first.\<close>

definition dir_fuel :: nat where
  "dir_fuel = 2 ^ 59"

definition print_dir_entries :: "literals \<Rightarrow> u64 \<Rightarrow> ('f, 'a) fs_state_scheme \<Rightarrow> ('f, 'a) fs_state_scheme res" where
  "print_dir_entries lit bh s = bindR (deref (bhs s) bh) (\<lambda>h. print_dir_loop dir_fuel lit (b_data h) s)"

definition print_minix :: "literals \<Rightarrow> 'f flash_bus \<Rightarrow> u64 \<Rightarrow> ('f, 'a) fs_state_scheme \<Rightarrow> ('f, 'a) fs_state_scheme res" where
  "print_minix lit fl bd s =
     bindR (deref (bdevs s) bd) (\<lambda>b.
     bindR (print_minix_sb lit (bd_sb b) s) (\<lambda>s.
     bindR (get_blk fl bd 696 s) (\<lambda>(bh, s).
     bindR (print_dir_entries lit bh s) (\<lambda>s.
     bindR (each (print_minix_inode lit fl bd) [MINIX_ROOT_INO, 2, 3] s) (\<lambda>s.
     bindR (get_blk fl bd 698 s) (\<lambda>(bh, s).
     bindR (print_dir_entries lit bh s) (\<lambda>s.
     bindR (minix_iget fl (bd_sb b) 1 s) (\<lambda>(inode, s).
     bindR (namei fl inode (lit ''./dir1/dir2/user_code.bin'') s) (\<lambda>(inode, s).
     if inode \<noteq> NULL then
       bindR (deref (inodes s) inode) (\<lambda>i. kprintf lit (''==========ino: %d========='' @ nl) [i_ino i] s)
     else kprintf lit (''not found'' @ nl) [] s)))))))))"

definition print_root_bdev :: "literals \<Rightarrow> 'f flash_bus \<Rightarrow> ('f, 'a) fs_state_scheme \<Rightarrow> ('f, 'a) fs_state_scheme res" where
  "print_root_bdev lit fl s = print_minix lit fl (root_bdev s) s"

section \<open>What they print\<close>

text \<open>The delay loop ends.\<close>

lemma kdelay_loop_end: "kdelay_loop i = - 1"
  by (induction i rule: kdelay_loop.induct) (subst kdelay_loop.simps, simp)

text \<open>The used entries of a directory from \<open>dir\<close> on, up to the first free one, with their names.\<close>

fun dir_names :: "('f, 'a) fs_state_scheme \<Rightarrow> u64 \<Rightarrow> u8 list list \<Rightarrow> bool" where
  "dir_names s dir [] \<longleftrightarrow> load16 (mem s) dir = 0"
| "dir_names s dir (x # xs) \<longleftrightarrow> load16 (mem s) dir \<noteq> 0 \<and> tstr (\<lambda>a. byte_addr a s) (out_of s) (dir + 2) x \<and>
     length x < 2 ^ 30 \<and> dir_names s (dir + 32) xs"

definition dir_line :: "nat \<Rightarrow> u8 list \<Rightarrow> u8 list" where
  "dir_line ino x = text_bytes ''ino: '' @ dec ino @ text_bytes '', file name: '' @ x @ text_bytes nl"

fun listing :: "memory \<Rightarrow> u64 \<Rightarrow> u8 list list \<Rightarrow> u8 list" where
  "listing m dir [] = []"
| "listing m dir (x # xs) = dir_line (unat (load16 m dir)) x @ listing m (dir + 32) xs"

lemma dir_names_console [simp]: "dir_names (s\<lparr>console := c\<rparr>) dir xs = dir_names s dir xs"
proof (induction xs arbitrary: dir)
  case (Cons x xs)
  have "out_of (s\<lparr>console := c\<rparr>) = (out_of s)\<lparr>uart := c\<rparr>" by (simp add: out_of_def)
  then show ?case using Cons by simp
qed simp

lemma print_dir_entry_line:
  assumes "literal lit s entry_format" "tstr (\<lambda>a. byte_addr a s) (out_of s) (dir + 2) x" "length x < 2 ^ 30"
  shows "print_dir_entry lit dir s = Inr (s\<lparr>console := console s @ dir_line (unat (load16 (mem s) dir)) x\<rparr>)"
proof -
  let ?i = "load16 (mem s) dir"
  let ?strs = "\<lambda>p. if p = dir + 2 then Some x else None"
  have n: "uint (ucast ?i :: u64) = uint ?i" "uint ?i < 2 ^ 16" using uint_lt2p [of ?i]
    by (simp_all add: unsigned_ucast_eq take_bit_int_eq_self_iff)
  then have i: "sint (ucast (ucast ?i :: u64) :: u32) = uint ?i" using sint_ucast_small [of "ucast ?i"] by simp
  have ge: "uint ?i \<noteq> - (2 ^ 31)" using uint_ge_0 [of ?i] by (metis neg_0_le_iff_le zero_less_numeral zero_less_power not_less)
  have "unat ?i < 2 ^ 16" by (rule order_less_le_trans [OF unsigned_less]) simp
  then have l: "length (dec (unat ?i)) \<le> 20" by (intro dec_length) simp
  show ?thesis unfolding print_dir_entry_def
  proof (rule kprintf_rendered [where strs = ?strs])
    show "render ?strs (text_bytes entry_format) [ucast ?i, dir + 2] = Some (dir_line (unat ?i) x)"
      using i ge by (simp add: entry_format_def text_bytes_def ch_def cat_def show_arg_def nl_def dir_line_def show_signed_def Let_def)
    show "length (dir_line (unat ?i) x) < 2 ^ 31" using l assms(3) by (simp add: dir_line_def text_bytes_def nl_def)
  qed (use assms in \<open>simp_all add: texts_def entry_format_def nl_def\<close>)
qed

lemma print_dir_loop_lists:
  assumes "literal lit s entry_format" "dir_names s (dir + 32) xs" "length xs < fuel"
  shows "print_dir_loop fuel lit dir s = Inr (s\<lparr>console := console s @ listing (mem s) (dir + 32) xs\<rparr>)"
  using assms
proof (induction xs arbitrary: dir fuel s)
  case Nil
  then show ?case by (subst print_dir_loop.simps) (simp add: Let_def)
next
  case (Cons x xs)
  let ?d = "dir + 32"
  let ?s = "s\<lparr>console := console s @ dir_line (unat (load16 (mem s) ?d)) x\<rparr>"
  have "print_dir_entry lit ?d s = Inr ?s" using Cons.prems by (intro print_dir_entry_line) simp_all
  moreover have "print_dir_loop (fuel - 1) lit ?d ?s = Inr (?s\<lparr>console := console ?s @ listing (mem ?s) (?d + 32) xs\<rparr>)"
    using Cons.prems by (intro Cons.IH) simp_all
  ultimately show ?case using Cons.prems by (subst print_dir_loop.simps) (simp add: Let_def)
qed

text \<open>C40: \<^verbatim>\<open>print_dir_entries\<close> prints one line for each used entry of a directory block up to the first free one, with
  its inode number and its name, but it starts at the second entry: the first one is never shown.\<close>

theorem print_dir_entries_skips_first:
  assumes "literal lit s entry_format" "bhs s bh = Some h" "dir_names s (b_data h + 32) xs" "length xs < 2 ^ 59"
  shows "print_dir_entries lit bh s = Inr (s\<lparr>console := console s @ listing (mem s) (b_data h + 32) xs\<rparr>)"
  using assms print_dir_loop_lists [OF assms(1,3), of dir_fuel] by (simp add: print_dir_entries_def dir_fuel_def)

text \<open>A block with the entries \<^verbatim>\<open>.\<close>, \<^verbatim>\<open>..\<close> and \<^verbatim>\<open>a\<close>; the first one is not printed.\<close>

definition dir_block :: memory where
  "dir_block = put_chars 0xffff000000100000 (text_bytes entry_format)
     (put_chars 0xffff000000200000 [1, 0, 46] (put_chars 0xffff000000200020 [1, 0, 46, 46]
     (put_chars 0xffff000000200040 [5, 0, 97] (\<lambda>_. 0))))"

lemma print_dir_entries_skips_first_witness:
  "\<exists>s'. print_dir_entries (\<lambda>_. 0xffff000000100000) 0x1000
      (boot_fs\<lparr>mem := dir_block, bhs := [0x1000 \<mapsto> \<lparr>b_state = 0, b_data = 0xffff000000200000, b_bd = 0, blk_no = 0\<rparr>]\<rparr>) = Inr s' \<and>
    console s' = text_bytes (''ino: 1, file name: ..'' @ nl @ ''ino: 5, file name: a'' @ nl)"
  (is "\<exists>s'. print_dir_entries ?lit ?bh ?s = _ \<and> _")
proof -
  have "literal ?lit ?s entry_format"
    by (simp add: literal_def entry_format_def dir_block_def text_bytes_def nl_def read_char_def byte_addr_def KERNEL_VA_START_def
        out_of_def put_chars_def ch_def)
  moreover have "dir_names ?s (b_data \<lparr>b_state = 0, b_data = 0xffff000000200000, b_bd = 0, blk_no = 0\<rparr> + 32) [[46, 46], [97]]"
    by (simp add: entry_format_def dir_block_def text_bytes_def nl_def read_char_def byte_addr_def KERNEL_VA_START_def
        out_of_def put_chars_def ch_def load16_def)
  ultimately have "print_dir_entries ?lit ?bh ?s = Inr (?s\<lparr>console := console ?s @ listing (mem ?s) 0xffff000000200020 [[46, 46], [97]]\<rparr>)"
    using print_dir_entries_skips_first [of ?lit ?s ?bh _ "[[46, 46], [97]]"] by simp
  moreover have "listing (mem ?s) 0xffff000000200020 [[46, 46], [97]] = text_bytes (''ino: 1, file name: ..'' @ nl @ ''ino: 5, file name: a'' @ nl)"
    by (simp add: dir_line_def dir_block_def entry_format_def text_bytes_def nl_def put_chars_def ch_def load16_def dec_def dec_digit_def digits_of.simps)
  ultimately show ?thesis by (simp add: boot_fs_fields)
qed

end
