(* ===== verification/Init.thy ===== *)
theory Init
  imports Debug_Print
begin

text \<open>
  \<^verbatim>\<open>init/init_task.c\<close>: the start of the kernel and the idle task. The record \<open>image\<close> has the addresses that the
  linker chooses. \<open>early_boot\<close> is the part of \<^verbatim>\<open>init_main\<close> before the file system is mounted.
\<close>

section \<open>Definitions\<close>

record image =
  stack_init_task :: u64
  pg_tbl_start :: u64
  img_end :: u64
  handler0 :: u64
  idle_addr :: u64
  lits :: literals

definition early_boot ::
  "image \<Rightarrow> 'd gic_bus \<Rightarrow> ('f, 'd, 'a) irq_state_scheme \<Rightarrow> ('f, 'd, 'a) irq_state_scheme res" where
  "early_boot img bus s =
     bindR (init_init_task (stack_init_task img) (disable_irq s)) (\<lambda>s.
     bindR (init_mm (pg_tbl_start img) (img_end img) s) (\<lambda>(too_large, s).
     bindR (if too_large then kprintf (lits img) (''image is too large'' @ nl) [] s else Inr s) (\<lambda>s.
     bindR (timer_init bus s) (init_timer (handler0 img)))))"

text \<open>\<^verbatim>\<open>init_main\<close> up to its loop, and \<open>n\<close> turns of the loops of \<^verbatim>\<open>init_main\<close> and \<^verbatim>\<open>idle_main\<close>, which do not end.\<close>

definition init_main ::
  "image \<Rightarrow> 'f flash_bus \<Rightarrow> 'd gic_bus \<Rightarrow> mm_struct \<Rightarrow> ('f, 'd, 'a) irq_state_scheme \<Rightarrow> ('f, 'd, 'a) irq_state_scheme res" where
  "init_main img fl bus junk s =
     bindR (early_boot img bus s) (\<lambda>s.
     bindR (init_fs fl s) (\<lambda>s.
     bindR (print_root_bdev (lits img) fl s) (\<lambda>s.
     bindR (kthread_create (idle_addr img) s) (\<lambda>s.
     bindR (do_execv fl junk (lits img ''/user_code.bin'') s) (\<lambda>(_, s).
     Inr (enable_irq s))))))"

fun init_loop :: "image \<Rightarrow> nat \<Rightarrow> ('f, 'a) fs_state_scheme \<Rightarrow> ('f, 'a) fs_state_scheme res" where
  "init_loop img 0 s = Inr s"
| "init_loop img (Suc n) s =
     bindR (kprintf (lits img) (''this is init'' @ nl) [] s) (\<lambda>s. let i = kdelay in init_loop img n s)"

fun idle_main :: "image \<Rightarrow> nat \<Rightarrow> ('f, 'a) fs_state_scheme \<Rightarrow> ('f, 'a) fs_state_scheme res" where
  "idle_main img 0 s = Inr s"
| "idle_main img (Suc n) s =
     bindR (kprintf (lits img) (''this is idle'' @ nl) [] s) (\<lambda>s. let i = kdelay in idle_main img n s)"

section \<open>Early boot\<close>

text \<open>
  What the loader and the assembly code leave: no page is in use, the allocator of kernel objects and the list of
  timers are empty, the stack pointer is in the stack of the first task, and that stack and the head of the
  timer list lie outside the pages.
\<close>

definition loaded :: "image \<Rightarrow> ('f, 'd, 'a) irq_state_scheme \<Rightarrow> bool" where
  "loaded img s \<longleftrightarrow> mm_inv s \<and> used_pages s = {} \<and> bucket_dir s = init_bucket_dir \<and> free_bucket_desc s = NULL \<and>
     dlist (lists s) (timer_head s) [] \<and> static_addr (timer_head s) \<and> static_addr (stack_init_task img + list_off) \<and>
     static_addr (stack_init_task img) \<and> stack_init_task img \<noteq> NULL \<and> timer_head s \<noteq> stack_init_task img + list_off \<and>
     running s = stack_init_task img \<and> switch_ret s \<noteq> ret_from_fork s \<and> pa_of (img_end img) \<le> HIGH_MEM"

definition first_task :: task_struct where
  "first_task = zero_task\<lparr>state := TASK_RUNNING, canary := CANARY_MAGIC_NUM\<rparr>"

lemma init_init_task_run:
  obtains h where "init_init_task st s = Inr (s\<lparr>init_task := st, tasks := (tasks s)(st \<mapsto> first_task), lists := h\<rparr>)"
    "dlist h (st + list_off) []" "\<And>l xs. dlist (lists s) l xs \<Longrightarrow> st + list_off \<notin> set (l # xs) \<Longrightarrow> dlist h l xs"
proof -
  let ?a = "st + list_off"
  let ?h = "\<lparr>prv = (prv (lists s))(?a \<mapsto> ?a), nxt = (nxt (lists s))(?a \<mapsto> ?a)\<rparr>"
  have "dlist ?h ?a []" by (simp add: dlist_def)
  moreover have "dlist ?h l xs" if "dlist (lists s) l xs" "?a \<notin> set (l # xs)" for l xs
    by (rule dlist_frame [OF that(1)]) (use that(2) in auto)
  moreover have "init_init_task st s = Inr (s\<lparr>init_task := st, tasks := (tasks s)(st \<mapsto> first_task), lists := ?h\<rparr>)"
    by (simp add: init_init_task_def INIT_LIST_HEAD_def set_next_def set_prev_def make_node_def with_task_def first_task_def Let_def)
  ultimately show ?thesis using that by blast
qed

text \<open>The state before the first timer is added.\<close>

definition armed :: "image \<Rightarrow> list_heap \<Rightarrow> page list \<Rightarrow> memory \<Rightarrow> 'd \<Rightarrow> u64 \<Rightarrow> ('f, 'd, 'a) irq_state_scheme \<Rightarrow> ('f, 'd, 'a) irq_state_scheme" where
  "armed img h mp m d p s = enable_cntv (raw_write_cntv_cval_el0 (CNTVCT_EL0 s + p) ((disable_cntv
     ((disable_irq s)\<lparr>init_task := stack_init_task img, tasks := (tasks s)(stack_init_task img \<mapsto> first_task), lists := h,
       mem_map := mp, mem := m, gic := d\<rparr>))\<lparr>period := p\<rparr>))"

lemmas armed_defs = armed_def disable_cntv_def enable_cntv_def raw_write_cntv_cval_el0_def disable_irq_def msr_DAIFSet_def

lemma armed_fields [simp]:
  "mem_map (armed img h mp m d p s) = mp" "lists (armed img h mp m d p s) = h" "init_task (armed img h mp m d p s) = stack_init_task img"
  "tasks (armed img h mp m d p s) = (tasks s)(stack_init_task img \<mapsto> first_task)" "gic (armed img h mp m d p s) = d"
  "bucket_dir (armed img h mp m d p s) = bucket_dir s" "free_bucket_desc (armed img h mp m d p s) = free_bucket_desc s"
  "timer_head (armed img h mp m d p s) = timer_head s" "jiffies (armed img h mp m d p s) = jiffies s"
  "switch_ret (armed img h mp m d p s) = switch_ret s" "ret_from_fork (armed img h mp m d p s) = ret_from_fork s"
  "cregs (armed img h mp m d p s) = cregs s"
  by (simp_all add: armed_defs)

lemma armed_masked: "irq_masked (armed img h mp m d p s)"
  by (simp add: armed_defs irq_masked_def push_bit_IRQ bit_or_iff bit_128)

lemma early_boot_armed:
  assumes "gic_device bus view wmask" "loaded img s"
  obtains h mp m d p where "early_boot img bus s = init_timer (handler0 img) (armed img h mp m d p s)" "en (view d) TIMER_IRQ"
    "mm_inv (armed img h mp m d p s)" "2 \<le> card (page_pool - used_pages (armed img h mp m d p s))"
    "dlist h (stack_init_task img + list_off) []" "dlist h (timer_head s) []"
proof -
  let ?st = "stack_init_task img"
  have ld: "dlist (lists (disable_irq s)) (timer_head s) []" "?st + list_off \<notin> set [timer_head s]"
    using assms(2) by (auto simp: loaded_def disable_irq_def msr_DAIFSet_def)
  obtain h where h: "init_init_task ?st (disable_irq s) = Inr ((disable_irq s)\<lparr>init_task := ?st, tasks := (tasks (disable_irq s))(?st \<mapsto> first_task), lists := h\<rparr>)"
      "dlist h (?st + list_off) []" "\<And>l xs. dlist (lists (disable_irq s)) l xs \<Longrightarrow> ?st + list_off \<notin> set (l # xs) \<Longrightarrow> dlist h l xs"
    using init_init_task_run [of ?st "disable_irq s"] by blast
  define s1 where "s1 = (disable_irq s)\<lparr>init_task := ?st, tasks := (tasks s)(?st \<mapsto> first_task), lists := h\<rparr>"
  have e1: "init_init_task ?st (disable_irq s) = Inr s1" using h(1) by (simp add: s1_def disable_irq_def msr_DAIFSet_def)
  have "mem_map s1 = mem_map s" by (simp add: s1_def disable_irq_def msr_DAIFSet_def)
  then have "mm_inv s1" "used_pages s1 = {}" using assms(2) by (simp_all add: loaded_def mm_inv_def used_pages_def)
  then have f: "mm_inv s1" "64 + 2 \<le> free_count s1" by (simp_all add: free_count_def card_page_pool PAGING_PAGES_eq)
  obtain s2 where s2: "init_mm (pg_tbl_start img) (img_end img) s1 = Inr (pa_of (img_end img) > HIGH_MEM, s2)" "mm_inv s2" "2 \<le> free_count s2"
    using init_mm_total [OF f] by blast
  obtain m mp where mp: "s2 = s1\<lparr>mem_map := mp, mem := m\<rparr>" using init_mm_only [OF s2(1)] by (auto simp: only_pages_def)
  define p where "p = timer_period s2"
  obtain d where t: "en (view d) TIMER_IRQ" "timer_init bus s2 = Inr (enable_cntv (raw_write_cntv_cval_el0 (CNTVCT_EL0 s2 + p)
      ((disable_cntv (s2\<lparr>gic := d\<rparr>))\<lparr>period := p\<rparr>)))"
    using timer_init_run [OF assms(1), of s2] unfolding p_def by blast
  have e3: "timer_init bus s2 = Inr (armed img h mp m d p s)" using t(2) by (simp add: mp s1_def armed_defs)
  have "\<not> pa_of (img_end img) > HIGH_MEM" using assms(2) by (simp add: loaded_def not_less)
  then have "early_boot img bus s = init_timer (handler0 img) (armed img h mp m d p s)"
    using e1 s2(1) e3 by (simp add: early_boot_def)
  moreover have "mem_map s2 = mp" by (simp add: mp)
  ultimately show ?thesis using that t(1) s2(2,3) h(2,3) ld by (simp add: mm_inv_def free_count_def used_pages_def)
qed

lemma boot_more_fields:
  fixes s s' :: "('f, 'd, 'a) irq_state_scheme"
  assumes "timer_state.more s' = timer_state.more s"
  shows "tasks s' = tasks s" "init_task s' = init_task s" "cregs s' = cregs s" "mms s' = mms s" "switch_ret s' = switch_ret s"
    "ret_from_fork s' = ret_from_fork s" "gic s' = gic s"
  using assms by (cases s; cases s'; simp)+

text \<open>C3: The first half of \<^verbatim>\<open>init_main\<close>: on a loaded kernel with a documented interrupt controller it
  returns, with interrupts still masked and the timer interrupt enabled at the controller. The first task is the only
  one and runs, the invariant of the kernel holds, and the list of timers has the periodic timer due after 100 ticks.\<close>

theorem early_boot_establishes:
  assumes "gic_device bus view wmask" "loaded img s"
  shows "\<exists>s' t. early_boot img bus s = Inr s' \<and> kernel_inv s' \<and> sched_inv s' [stack_init_task img] \<and> irq_masked s' \<and>
    en (view (gic s')) TIMER_IRQ \<and> timer_inv s' [t] \<and>
    timers s' t = Some \<lparr>tm_count = 100, tm_goal = jiffies s + 100, tm_main = handler0 img, tm_mode = PERIODIC\<rparr>"
proof -
  let ?st = "stack_init_task img"
  obtain h mp m d p where b: "early_boot img bus s = init_timer (handler0 img) (armed img h mp m d p s)" "en (view d) TIMER_IRQ"
      "mm_inv (armed img h mp m d p s)" "2 \<le> card (page_pool - used_pages (armed img h mp m d p s))"
      "dlist h (?st + list_off) []" "dlist h (timer_head s) []"
    using early_boot_armed [OF assms] by blast
  let ?a = "armed img h mp m d p s"
  have l: "static_addr (timer_head s)" "static_addr (?st + list_off)" "static_addr ?st" "?st \<noteq> NULL" "timer_head s \<noteq> ?st + list_off"
      "running s = ?st" "switch_ret s \<noteq> ret_from_fork s" "bucket_dir s = init_bucket_dir" "free_bucket_desc s = NULL"
    using assms(2) by (simp_all add: loaded_def)
  have I: "timer_inv ?a []" using km_start [of ?a] b(3,6) l by (simp add: timer_inv_def static_addr_def)
  obtain t s' where t: "timer_add 100 (handler0 img) PERIODIC ?a = Inr s'" "timer_inv s' [t]"
      "timers s' t = Some \<lparr>tm_count = 100, tm_goal = jiffies s + 100, tm_main = handler0 img, tm_mode = PERIODIC\<rparr>"
    using timer_add_inv [OF I b(4), of 100 "handler0 img" PERIODIC] by auto
  note fr = timer_add_frame [OF I b(4) t(1)]
  have more: "tasks s' = tasks ?a" "init_task s' = ?st" "cregs s' = cregs s" "mms s' = mms ?a" "switch_ret s' = switch_ret s"
      "ret_from_fork s' = ret_from_fork s" "gic s' = d"
    using boot_more_fields [OF fr(1)] by simp_all
  have "sched_inv s' [?st]"
    using more l fr(3) [OF _ _ , of "?st + list_off" "[]"] b(5)
    by (simp add: sched_inv_def running_def first_task_def zero_task_def)
  moreover have "mm_inv s'" using t(2) by (auto simp: timer_inv_def km_inv_def km_rel_def)
  moreover have "in_page ?st ?st" by (simp add: in_page_def layout_values)
  then have "ring_pages s' [?st]" using l(3) by (auto simp: ring_pages_def static_addr_def)
  moreover have "irq_masked s'" using fr(2) armed_masked [of img h mp m d p s] by (simp add: irq_masked_def)
  ultimately show ?thesis using b(1,2) t more by (auto simp: kernel_inv_def init_timer_def)
qed

definition sample_image :: image where
  "sample_image = \<lparr>stack_init_task = 0xffff000000091000, pg_tbl_start = 0xffff000000082000, img_end = 0xffff000000098000,
     handler0 = 0xffff000000080300, idle_addr = 0xffff000000080400, lits = (\<lambda>_. 0xffff000000090800)\<rparr>"

lemma sample_loaded: "loaded sample_image (with_gic reset_gic boot_task)"
proof -
  have "mm_inv (with_gic reset_gic boot_task)" "used_pages (with_gic reset_gic boot_task) = {}"
    using boot_task_mm by (simp_all add: with_gic_def mm_inv_def used_pages_def task_state.defs fs_state.defs irq_state.defs)
  moreover have "bucket_dir (with_gic reset_gic boot_task) = init_bucket_dir" "free_bucket_desc (with_gic reset_gic boot_task) = NULL"
      "lists (with_gic reset_gic boot_task) = lists boot_task" "timer_head (with_gic reset_gic boot_task) = 0xffff000000090000"
      "switch_ret (with_gic reset_gic boot_task) = 0xffff000000080100" "ret_from_fork (with_gic reset_gic boot_task) = 0xffff000000080200"
    by (simp_all add: with_gic_def task_state.defs fs_state.defs irq_state.defs boot_task_def fresh_timer_def fresh_km_def km_state.defs
        mm_state.defs timer_state.defs)
  moreover have "dlist (lists boot_task) 0xffff000000090000 []" by (simp add: boot_task_fields dlist_def fresh_timer_fields)
  moreover have "static_addr 0xffff000000090000" "static_addr 0xffff000000091000" "static_addr (0xffff000000091000 + list_off)"
    using static_not_pool by (simp_all add: static_addr_def list_off_def)
  moreover have "pa_of 0xffff000000098000 \<le> HIGH_MEM" by (simp add: layout_values HIGH_MEM_def IMAGE_START_def PAGING_MEMORY_def pa_of_def)
  ultimately show ?thesis
    by (simp add: loaded_def sample_image_def with_gic_sched boot_running list_off_def)
qed

lemma early_boot_establishes_witness:
  "\<exists>s'. early_boot sample_image pl390 (with_gic reset_gic boot_task) = Inr s' \<and> kernel_inv s' \<and> sched_inv s' [0xffff000000091000]"
  using early_boot_establishes [OF pl.gic_device_axioms sample_loaded] by (auto simp: sample_image_def)

text \<open>The idle task prints its line for ever.\<close>

lemma idle_main_prints:
  assumes "literal (lits img) s (''this is idle'' @ nl)"
  shows "idle_main img n s = Inr (s\<lparr>console := console s @ concat (replicate n (text_bytes (''this is idle'' @ nl)))\<rparr>)"
  using assms
proof (induction n arbitrary: s)
  case 0
  then show ?case by simp
next
  case (Suc n)
  let ?t = "''this is idle'' @ nl"
  let ?s = "s\<lparr>console := console s @ text_bytes ?t\<rparr>"
  have "render no_texts (text_bytes ?t) [] = Some (text_bytes ?t)" by (simp add: text_bytes_def nl_def ch_def cat_def)
  then have "kprintf (lits img) ?t [] s = Inr ?s" by (rule kprintf_shows [OF Suc.prems]) (simp_all add: text_bytes_def nl_def)
  moreover have "idle_main img n ?s = Inr (?s\<lparr>console := console ?s @ concat (replicate n (text_bytes ?t))\<rparr>)"
    using Suc.prems by (intro Suc.IH) simp
  ultimately show ?case by simp
qed

end
