(* ===== verification/User.thy ===== *)
theory User
  imports Init
begin

text \<open>
  The sample program \<^verbatim>\<open>rootfs/process\<close>: the wrappers of system calls in \<^verbatim>\<open>sys_user.S\<close> and the loop of \<^verbatim>\<open>main.c\<close>.
  The program keeps whatever values it has in the argument registers that a call does not use.
\<close>

section \<open>Wrappers\<close>

definition SYS_EXECV :: nat where "SYS_EXECV = 9"

type_synonym ('f, 'a) wrapper =
  "'f flash_bus \<Rightarrow> mm_struct \<Rightarrow> u64 \<Rightarrow> u64 \<Rightarrow> u64 \<Rightarrow> u64 \<Rightarrow> ('f, 'a) fs_state_scheme \<Rightarrow> (sys_result option \<times> ('f, 'a) fs_state_scheme) res"

text \<open>
  The instruction \<^verbatim>\<open>svc\<close> with the number in \<^verbatim>\<open>x8\<close> and the arguments in \<^verbatim>\<open>x0\<close> to \<^verbatim>\<open>x2\<close>: what the call returns, and the state in
  which the program, or the task that runs instead of it, goes on. A number above the table returns nothing.
\<close>

definition call_sys :: "nat \<Rightarrow> ('f, 'a) wrapper" where
  "call_sys k fl junk fmt x0 x1 x2 s =
     bindR (el0_svc fl junk fmt (of_nat k) x0 x1 x2 (kernel_entry s)) (\<lambda>(r, s).
     Inr (r, case r of
               None \<Rightarrow> s
             | Some (Returns _) \<Rightarrow> kernel_exit s
             | Some (Switched p) \<Rightarrow> leave (p, s)))"

definition call_sys_put :: "('f, 'a) wrapper" where "call_sys_put = call_sys SYS_PUT"
definition call_sys_fork :: "('f, 'a) wrapper" where "call_sys_fork = call_sys SYS_FORK"
definition call_sys_malloc :: "('f, 'a) wrapper" where "call_sys_malloc = call_sys SYS_MALLOC"
definition call_sys_exit :: "('f, 'a) wrapper" where "call_sys_exit = call_sys SYS_EXIT"
definition call_sys_open :: "('f, 'a) wrapper" where "call_sys_open = call_sys SYS_OPEN"
definition call_sys_read :: "('f, 'a) wrapper" where "call_sys_read = call_sys SYS_READ"
definition call_sys_write :: "('f, 'a) wrapper" where "call_sys_write = call_sys SYS_WRITE"
definition call_sys_close :: "('f, 'a) wrapper" where "call_sys_close = call_sys SYS_CLOSE"
definition call_sys_lseek :: "('f, 'a) wrapper" where "call_sys_lseek = call_sys SYS_LSEEK"
definition call_sys_execv :: "('f, 'a) wrapper" where "call_sys_execv = call_sys SYS_EXECV"

section \<open>The program\<close>

definition delay :: u32 where
  "delay = kdelay_loop (push_bit 24 1)"

text \<open>\<open>n\<close> turns of the loop, which does not end; \<open>msg\<close> is the address of \<^verbatim>\<open>"user process!\n"\<close>.\<close>

fun user_main ::
  "'f flash_bus \<Rightarrow> mm_struct \<Rightarrow> u64 \<Rightarrow> (nat \<Rightarrow> u64 \<times> u64) \<Rightarrow> u64 \<Rightarrow> nat \<Rightarrow> ('f, 'a) fs_state_scheme \<Rightarrow> ('f, 'a) fs_state_scheme res" where
  "user_main fl junk fmt rest msg 0 s = Inr s"
| "user_main fl junk fmt rest msg (Suc n) s =
     bindR (call_sys_put fl junk fmt msg (fst (rest n)) (snd (rest n)) s) (\<lambda>(_, s). let i = delay in user_main fl junk fmt rest msg n s)"

section \<open>Properties\<close>

lemma get_byte_cong:
  assumes "mem s' = mem s" "ttbr0_el1 s' = ttbr0_el1 s"
  shows "get_byte a s' = get_byte a s"
  using assms by (simp add: get_byte_def byte_addr_def)

lemma pstr_cong:
  assumes "mem s' = mem s" "ttbr0_el1 s' = ttbr0_el1 s"
  shows "pstr s' p xs = pstr s p xs"
  by (induction xs arbitrary: p) (simp_all add: get_byte_cong [OF assms])

lemmas trap_defs = kernel_entry_def kernel_exit_def enable_irq_def disable_irq_def msr_DAIFClr_def msr_DAIFSet_def

lemma call_sys_put_prints:
  assumes "pstr s fmt [ch CHR ''%'', ch CHR ''s'']" "pstr s p xs" "length xs < 2 ^ 31"
  shows "\<exists>s'. call_sys_put fl junk fmt p x1 x2 s = Inr (Some (Returns (int (length xs))), s') \<and> console s' = console s @ xs \<and> mem s' = mem s \<and>
    ttbr0_el1 s' = ttbr0_el1 s \<and> cregs s' = cregs s \<and> tasks s' = tasks s"
proof -
  have e: "pstr (kernel_entry s) q ys = pstr s q ys" for q ys by (rule pstr_cong) (simp_all add: kernel_entry_def)
  have "el0_svc fl junk fmt (of_nat SYS_PUT) p x1 x2 (kernel_entry s) =
      Inr (Some (Returns (int (length xs))), disable_irq ((enable_irq (kernel_entry s))\<lparr>console := console (kernel_entry s) @ xs\<rparr>))"
    by (rule sys_put_prints) (simp_all only: e assms)
  then show ?thesis unfolding call_sys_put_def call_sys_def by (simp add: trap_defs)
qed

text \<open>C20: The sample program works through all layers: let the text and the kernel's format be strings that the task
  can read, the text at an address that its page table maps or in the kernel. Each turn of the loop is then a system call
  that returns and prints the text, so that after \<open>n\<close> turns the text was sent to the UART \<open>n\<close> times, in order. All bytes of
  memory, with the page tables in them, the table root, every task descriptor and the kernel's own context of the task are as before.
  The registers of the program are not part of this state: \<^verbatim>\<open>x0\<close> of the caller gets the result of each call.\<close>

theorem user_main_prints:
  assumes "pstr s fmt [ch CHR ''%'', ch CHR ''s'']" "pstr s msg xs" "length xs < 2 ^ 31"
  shows "\<exists>s'. user_main fl junk fmt rest msg n s = Inr s' \<and> console s' = console s @ concat (replicate n xs) \<and>
    mem s' = mem s \<and> ttbr0_el1 s' = ttbr0_el1 s \<and> cregs s' = cregs s \<and> tasks s' = tasks s"
  using assms
proof (induction n arbitrary: s)
  case 0
  then show ?case by simp
next
  case (Suc n)
  obtain r t where t: "call_sys_put fl junk fmt msg (fst (rest n)) (snd (rest n)) s = Inr (r, t)" "console t = console s @ xs" "mem t = mem s"
      "ttbr0_el1 t = ttbr0_el1 s" "cregs t = cregs s" "tasks t = tasks s"
    using call_sys_put_prints [OF Suc.prems] by blast
  have "pstr t fmt [ch CHR ''%'', ch CHR ''s'']" "pstr t msg xs" using Suc.prems(1,2) by (simp_all only: pstr_cong [OF t(3,4)])
  then obtain s' where "user_main fl junk fmt rest msg n t = Inr s'" "console s' = console t @ concat (replicate n xs)"
      "mem s' = mem t" "ttbr0_el1 s' = ttbr0_el1 t" "cregs s' = cregs t" "tasks s' = tasks t"
    using Suc.IH Suc.prems(3) by blast
  then show ?case using t by simp
qed

text \<open>
  Memory with the text "OK" in the page at physical address \<open>0x40204000\<close>, which the four tables from
  \<open>0x40200000\<close> on map at the user address \<open>0x1000\<close>, and the format in the kernel image.
\<close>

definition user_memory :: memory where
  "user_memory = put_chars 0xffff000000098000 [37, 115] (put_chars 0xffff000000204000 [79, 75]
     (store64 (store64 (store64 (store64 (\<lambda>_. 0) 0xffff000000203008 0x40204703) 0xffff000000202000 0x40203003)
        0xffff000000201000 0x40202003) 0xffff000000200000 0x40201003))"

lemma user_memory_frame: "user_frame user_memory 0x40200000 a = Some 0x40204000" if "a \<in> {0x1000, 0x1001, 0x1002}"
proof -
  have i: "table_index PGD_SHIFT a = 0" "table_index PUD_SHIFT a = 0" "table_index PMD_SHIFT a = 0" "table_index PTE_SHIFT a = 1"
    using that by (auto simp: table_index_def PGD_SHIFT_def PUD_SHIFT_def PMD_SHIFT_def PTE_SHIFT_def TABLE_MASK_def)
  have l: "load64 user_memory 0xffff000000200000 = 0x40201003" "load64 user_memory 0xffff000000201000 = 0x40202003"
      "load64 user_memory 0xffff000000202000 = 0x40203003" "load64 user_memory 0xffff000000203008 = 0x40204703"
    by (simp_all add: load64_def user_memory_def store64_def put_chars_def)
  show ?thesis
    by (simp add: user_frame_def user_path_def i pt_entry_def va_of_def layout_values entry_at_def ENTRY_SHIFT_def ENTRY_GET_ADDR_def l)
qed

theorem user_main_prints_witness:
  "\<exists>s'. user_main sim_flash \<lparr>pgd = NULL, vma = [], pgtbl_page = []\<rparr> 0xffff000000098000 (\<lambda>_. (0, 0)) 0x1000 2
       (boot_fs\<lparr>mem := user_memory, ttbr0_el1 := 0x40200000\<rparr>) = Inr s' \<and> console s' = [79, 75, 79, 75]"
proof -
  let ?s = "boot_fs\<lparr>mem := user_memory, ttbr0_el1 := 0x40200000\<rparr>"
  have f: "pstr ?s 0xffff000000098000 [ch CHR ''%'', ch CHR ''s'']"
    by (simp add: get_byte_def byte_addr_def KERNEL_VA_START_def user_memory_def put_chars_def store64_def)
  have "get_byte a ?s = Inr (user_memory (0xffff000000204000 + (a AND PAGE_MASK)))" if "a \<in> {0x1000, 0x1001, 0x1002}" for a
    using that user_memory_frame [OF that] by (auto simp: get_byte_def byte_addr_def user_addr_def va_of_def layout_values)
  then have m: "pstr ?s 0x1000 [79, 75]" by (simp add: layout_values) (simp add: user_memory_def put_chars_def store64_def)
  from user_main_prints [OF f m, of sim_flash "\<lparr>pgd = NULL, vma = [], pgtbl_page = []\<rparr>" "\<lambda>_. (0, 0)" 2]
  obtain s' where s': "user_main sim_flash \<lparr>pgd = NULL, vma = [], pgtbl_page = []\<rparr> 0xffff000000098000 (\<lambda>_. (0, 0)) 0x1000 2 ?s
      = Inr s'" "console s' = console ?s @ concat (replicate 2 [79, 75])" by auto
  have "console ?s = []" by (simp add: boot_fs_fields)
  with s'(2) have "console s' = [79, 75, 79, 75]" by (simp add: eval_nat_numeral)
  with s'(1) show ?thesis by blast
qed

text \<open>The wrappers and the vector entry are the same transition.\<close>

lemma call_sys_svc: "bindR (call_sys k fl junk fmt x0 x1 x2 s) (\<lambda>(_, s). Inr s) = svc fl junk fmt (of_nat k) x0 x1 x2 s"
  by (simp add: call_sys_def svc_def bindR_assoc split_def)

text \<open>The number of \<^verbatim>\<open>call_sys_execv\<close> is above the table: the call never returns.\<close>

lemma call_sys_execv_unknown: "call_sys_execv fl junk fmt filename x1 x2 s = Inr (None, kernel_entry s)"
  by (simp add: call_sys_execv_def call_sys_def el0_svc_def SYS_EXECV_def SYSCALL_NR_def)

end
