(* ===== verification/Spec2Isabelle.thy ===== *)
theory Spec2Isabelle
  imports Soft_Timer Page_Table Exceptions Sys_File Start Atomic User
begin

text \<open>
  \<^bold>\<open>NBOS\<close> is a small kernel for one AArch64 processor: a page allocator with page tables for user
  programs, an object allocator, software timers, preemptive round-robin tasks driven by a timer
  interrupt, a driver for the interrupt controller, a buffer cache over a flash disk with a Minix
  file system on it, formatted output, and system calls. This development models it function by function, as
  explicit state passing over one record that grows from theory to theory:
  \<open>cpu\<close>, \<open>mm_state\<close>, \<open>km_state\<close>, \<open>timer_state\<close>, \<open>task_state\<close>, \<open>fs_state\<close> (with the file system and the UART) and
  \<open>irq_state\<close> (with the interrupt controller). Every operation is polymorphic in the
  rest of the record, so that it applies to the states of its callers. The assembly code has a state of its own:
  \<open>vcpu\<close> for the vectors, \<open>boot_cpu\<close> for the start.

  \<^bold>\<open>Conventions.\<close> A result is \<open>Inl e\<close> for a fault \<open>e\<close> (a null or dangling pointer, an index out of bounds, a
  signed overflow, a division by zero, exhausted fuel) and \<open>Inr\<close> otherwise; \<open>bindR\<close> sequences. Numbers
  keep their width. Memory is a map from 64-bit addresses to bytes: page tables, free chains, blocks
  and strings are read and written there. List nodes, bucket descriptors, timers, tasks, buffer heads,
  inodes and files are typed heaps, maps from addresses to records; freeing an object removes it
  from its heap, so a later access is a fault (only the list node of a deleted task stays, as the walk of
  \<^verbatim>\<open>clear_zombie\<close> reads it). The byte memory is total, and apart from the typed heaps: a byte that is written at a wrong
  address, for one through a garbage entry of a page table or with a kernel address that a program gave to a
  system call, changes that byte and neither aborts nor damages a record that lies there in the code. The theorems about
  new user pages therefore show that the tables are pages in use, and no theorem says that a system call
  can not damage a descriptor. \<open>pt_walk\<close>, the walk of the kernel's own code, tests an entry for zero only, as that code does, and serves for the translation of a program's addresses too; the bits that the
  hardware tests are those of \<open>translate\<close> in \<open>Start\<close>. A null page descriptor in \<^verbatim>\<open>get_free_page\<close> is a fault at once, where the code
  computes an address from it first. What is sent to the UART is the
  list of bytes \<open>console\<close>; a message is printed by the model of \<^verbatim>\<open>printf\<close> from the bytes of its literal, whose address is a
  parameter. The error messages of \<^verbatim>\<open>mm/kmalloc.c\<close>, \<^verbatim>\<open>alloc_page\<close> and \<^verbatim>\<open>map_kernel_section\<close> are
  not, as their memory is below the UART in the record, nor are those of \<^verbatim>\<open>put_inode\<close>, \<^verbatim>\<open>file_close\<close> and
  \<^verbatim>\<open>minix_raw_inode\<close> on their error branches; what follows the message is modelled in each case.

  \<^bold>\<open>Theories and sources.\<close>
  \<^item> \<open>Prelude\<close>: results, typed heaps, byte access, and lemmas on lists and words.
  \<^item> \<open>Linked_List\<close> (\<^verbatim>\<open>include/list.h\<close>): the circular lists. The locale \<open>intrusive_list\<close> is the contract of
    insertion and deletion on sequences of nodes, interpreted on the pointer code. A walk visits every
    node in order; one whose body deletes the node it is at faults.
  \<^item> \<open>Aarch64\<close> (\<^verbatim>\<open>arch/aarch64.c\<close>): system registers and the nesting of masked sections.
  \<^item> \<open>Lib\<close> (\<^verbatim>\<open>lib/lib.c\<close>): string and memory routines against specifications on lists of bytes.
  \<^item> \<open>Printf\<close>, \<open>Printf_Correct\<close> (\<^verbatim>\<open>lib/printf.c\<close>): the formatter over a memory behind an address translation, with
    the buffer, nothing, the UART or a function as output. The locale \<open>out_sink\<close> carries what one character does
    through every conversion; it is interpreted for each kind of output. Digits are shown against the
    positional representation of numbers.
  \<^item> \<open>Printf_Render\<close>, \<open>Console\<close>: \<open>render\<close> is the text that a format with its arguments stands for, and \<^verbatim>\<open>printf\<close> is shown to
    print it; \<open>kprintf\<close> is \<^verbatim>\<open>printf\<close> of the kernel with a literal format.
  \<^item> \<open>Mm\<close> (\<^verbatim>\<open>mm/mm.c\<close>, \<^verbatim>\<open>include/mm.h\<close>): page descriptors. The locale of page pools states what allocation
    and release do to the set of used pages and to memory.
  \<^item> \<open>Page_Table\<close> (\<^verbatim>\<open>mm/mm.c\<close>): the four-level tables, against the translation \<open>user_frame\<close> of an address.
  \<^item> \<open>Kmalloc\<close>, \<open>Kmalloc_Chains\<close>, \<open>Kmalloc_Correct\<close> (\<^verbatim>\<open>mm/kmalloc.c\<close>): the model, the shape of the chains, and
    the refinement of the locale \<open>object_allocator\<close>: objects that do not overlap and keep their bytes.
  \<^item> \<open>Soft_Timer\<close> (\<^verbatim>\<open>kernel/soft_timer.c\<close>): timers as objects of the allocator in a list.
  \<^item> \<open>Gic\<close> (\<^verbatim>\<open>arch/gic_v3.c\<close>): the driver over a parameter \<open>bus\<close>. The locale \<open>gic_device\<close> states the
    documented registers; \<open>pl390\<close> is a device with them.
  \<^item> \<open>Task\<close>, \<open>Scheduler\<close>, \<open>Task_Life\<close> (\<^verbatim>\<open>kernel/task.c\<close>, \<^verbatim>\<open>init/init_task.c\<close>): the model, the invariant
    \<open>sched_inv\<close> with what one timer interrupt does to it, and fairness, creation and deletion of tasks.
  \<^item> \<open>Vectors\<close> (\<^verbatim>\<open>arch/vector.S\<close>): the registers of the processor, saved and restored around an exception and in
    \<^verbatim>\<open>cpu_switch_to\<close>. The \<open>kernel_entry\<close> and \<open>kernel_exit\<close> of \<open>Task\<close> are abstract: they move the stack pointer over the frame, and the
    registers and the saved state in it are in \<open>entry_frame\<close> and \<open>exit_frame\<close> here only.
  \<^item> \<open>Start\<close> (\<^verbatim>\<open>arch/start.S\<close>): the boot page tables, against the translation \<open>translate\<close> of the architecture.
  \<^item> \<open>Atomic\<close> (\<^verbatim>\<open>include/atomic.h\<close>): exclusive loads and stores of several processors, interleaved.
  \<^item> \<open>Irq\<close> (\<^verbatim>\<open>arch/timer.c\<close>, \<^verbatim>\<open>arch/exception.c\<close>, the interrupt entry of \<^verbatim>\<open>arch/vector.S\<close>): the timer interrupt
    from the device to the next task.
  \<^item> \<open>Buffer\<close>, \<open>Buffer_Cache\<close> (\<^verbatim>\<open>fs/fs.c\<close>): the flash driver over a parameter \<open>fl\<close> and the list of buffers. The
    locale \<open>flash_device\<close> states the documented commands: programming clears bits, there is no erase in the driver, and a busy chip takes
    no command. \<open>flash_untimed\<close> extends it by what the driver relies on, a byte that is done before the next command. A chip that
    clears bits and one that takes any byte, as QEMU's does, are interpretations of both. The invariant
    \<open>cache_inv\<close> says that clean buffers of the blocks in a set \<open>Z\<close> hold their blocks; other blocks, as those of inodes, may have several
    buffers, stale ones too, as they do in the running kernel. It rests on the contract of the object allocator.
  \<^item> \<open>Minix\<close> (\<^verbatim>\<open>fs/minix_fs.c\<close> and the inode cache of \<^verbatim>\<open>fs/fs.c\<close>): raw inodes, block lookup, directories, reading
    and writing.
  \<^item> \<open>Vfs\<close> (\<^verbatim>\<open>fs/fs.c\<close>): paths and open files.
  \<^item> \<open>File_Read\<close>, \<open>File_Write\<close>: a read and a write through all layers, from the open file over \<^verbatim>\<open>minix_read\<close> and
    \<^verbatim>\<open>minix_write\<close> and the buffers to the chip, and reading back what was written.
  \<^item> \<open>Syscall\<close> (\<^verbatim>\<open>kernel/syscall.c\<close>, the entry \<^verbatim>\<open>el0_svc\<close> of \<^verbatim>\<open>arch/vector.S\<close>): system calls and their dispatch.
  \<^item> \<open>Sys_File\<close>: the system calls for files from the registers to the chip: the checks of their arguments, and a read
    to an address of the kernel.
  \<^item> \<open>Kernel_Run\<close>: the kernel as a transition system (\<open>kernel_step\<close>) of timer interrupts, system calls, new threads and
    page requests, and an invariant of all reachable states.
  \<^item> \<open>Exceptions\<close> (\<^verbatim>\<open>arch/vector.S\<close>): the vector table, and which exceptions stop the kernel with a report.
  \<^item> \<open>Debug_Print\<close>: the functions that report the state of the kernel, and the delay loop.
  \<^item> \<open>Init\<close> (\<^verbatim>\<open>init/init_task.c\<close>): the start of the kernel up to its first system call, and the idle task. The first half
    establishes the invariant of \<open>Kernel_Run\<close>.
  \<^item> \<open>User\<close> (\<^verbatim>\<open>rootfs/process\<close>): the wrappers of system calls and the sample program on top of all other layers.

  \<^bold>\<open>Fuel.\<close> Loops with a bound in the code recurse on it. Walks over lists, chains and strings have the
  size of the address space as fuel, more than there are addresses to visit, and the theorems show
  that they return. The listing of a directory has as
  many turns as there are entries in the address space. Loops that the code never leaves (\<^verbatim>\<open>init_main\<close>, \<^verbatim>\<open>idle_main\<close>, the sample
  program) are run for any number of turns. The wait for the flash chip has \<open>2 ^ 32\<close> polls; the chip's law bounds the polls
  it needs by less.

  \<^bold>\<open>What the code does not do.\<close> Several theorems state behaviour that its authors cannot have meant: a walk
  that frees the node it stands on (\<^verbatim>\<open>clear_zombie\<close>, one-shot timers), a timer test that is the wrong way
  round, the scheduler that stops at a zombie, dispatch by pending and not by enabled interrupts, the
  system call table without an entry for close, a read that writes to any address of the kernel, a flash driver without erase, the width of an indirect block entry, a link count
  that is written and never read, a formatter that runs past a format that ends in a per cent sign and that loses
  digits of a pointer to its prefix, a directory listing that skips the first entry, and reports that print half of an
  address.

  \<^bold>\<open>Not modelled.\<close> The conversions of floating-point numbers, which the
  configuration of \<^verbatim>\<open>lib/printf.c\<close> leaves out; \<^verbatim>\<open>dump_stack\<close>, which prints the bytes of a task descriptor, as descriptors
  are records here; \<^verbatim>\<open>raw_write_rvbar_el1\<close>, which writes a read-only
  register; memory ordering and caches, and so the barriers. Interrupts are taken between
  operations, at \<open>tick\<close> and \<open>irq_entry\<close>, and not inside them: the masked sections and preemption counters
  that justify this are part of the models. A nested interrupt in the window that \<^verbatim>\<open>scheduler_tick\<close> opens
  is not modelled. \<^verbatim>\<open>copy_process\<close>, \<^verbatim>\<open>execv\<close>, directory lookup and mounting are modelled, and no theorem
  is about them. Reading and writing a file are shown for its direct blocks and a kernel buffer.
\<close>

end
